(* ===== verification/Vx_Prelude.thy ===== *)
theory Vx_Prelude
  imports Main "HOL-Library.Word"
begin

text \<open>
  Shared vocabulary of the development: names for the C integer types, the two collections
  of simplification rules that the component theories fill, and generic lemmas on words,
  bits, lists and bounded counting.  Nothing in this theory models code of the repository.
\<close>

unbundle bit_operations_syntax

section \<open>Machine integers\<close>

type_synonym u8 = "8 word"
type_synonym u16 = "16 word"
type_synonym u32 = "32 word"
type_synonym u64 = "64 word"

named_theorems vx_defs \<open>definitions that component proofs unfold\<close>
named_theorems vx_frame \<open>what an operation leaves unchanged\<close>

section \<open>Bits of words\<close>

text \<open>The simplifier writes \<open>push_bit n 1\<close> as \<open>2 ^ n\<close>.\<close>

lemma bit_or_single [simp]:
  "bit ((w :: 'a::len word) OR 2 ^ n) m \<longleftrightarrow> bit w m \<or> (m = n \<and> n < LENGTH('a))"
  by (auto simp: bit_simps)

lemma bit_and_not_single [simp]:
  "bit ((w :: 'a::len word) AND NOT (2 ^ n)) m \<longleftrightarrow> bit w m \<and> m \<noteq> n"
  by (auto simp: bit_simps dest: bit_imp_le_length)

lemma word_neq_ones_ex_clear:
  assumes "(w :: 'a::len word) \<noteq> - 1"
  shows "\<exists>n < LENGTH('a). \<not> bit w n"
  using assms by (metis bit_eq_iff bit_imp_le_length bit_minus_1_iff possible_bit_word)

text \<open>Count trailing zeros: the index of the lowest set bit (\<open>__builtin_ctzll\<close>).\<close>

definition ctz :: "'a::len word \<Rightarrow> nat" where
  "ctz w = (case filter (bit w) [0..<LENGTH('a)] of [] \<Rightarrow> LENGTH('a) | n # _ \<Rightarrow> n)"

lemma ctz_bit:
  assumes "(w :: 'a::len word) \<noteq> 0"
  shows "bit w (ctz w)" and "ctz w < LENGTH('a)"
proof -
  from assms obtain n where "bit w n" by (metis bit_eq_iff bit_0_eq bot_apply bot_bool_def)
  then have "n \<in> set (filter (bit w) [0..<LENGTH('a)])"
    by (auto dest: bit_imp_le_length)
  then obtain m ms where m: "filter (bit w) [0..<LENGTH('a)] = m # ms"
    by (cases "filter (bit w) [0..<LENGTH('a)]") auto
  then have "m \<in> set (filter (bit w) [0..<LENGTH('a)])" by (metis list.set_intros(1))
  then have "bit w m" and "m < LENGTH('a)" by auto
  with m show "bit w (ctz w)" and "ctz w < LENGTH('a)" by (simp_all add: ctz_def)
qed

lemma ctz_not_clear:
  assumes "(w :: 'a::len word) \<noteq> - 1"
  shows "\<not> bit w (ctz (NOT w))" and "ctz (NOT w) < LENGTH('a)"
proof -
  from assms have "NOT w \<noteq> 0" by (metis bit.double_compl bit.compl_zero)
  from ctz_bit [OF this] show "\<not> bit w (ctz (NOT w))" and "ctz (NOT w) < LENGTH('a)"
    by (auto simp: bit_simps)
qed

section \<open>Lists and counting\<close>

lemma card_remove_one: "finite A \<Longrightarrow> x \<in> A \<Longrightarrow> card (A - {x}) = card A - 1"
  by simp

lemma card_bounded_filter_less: "card {f. f < (n::nat) \<and> P f} \<le> n"
proof -
  have "card {f. f < n \<and> P f} \<le> card {..<n}" by (rule card_mono) auto
  then show ?thesis by simp
qed

lemma finite_bounded_filter [simp]: "finite {f. f < (n::nat) \<and> P f}"
  by simp

lemma fold_preserves:
  assumes "\<And>x s. x \<in> set xs \<Longrightarrow> P s \<Longrightarrow> P (f x s)" and "P s"
  shows "P (fold f xs s)"
  using assms by (induction xs arbitrary: s) auto

section \<open>Arrays and loops\<close>

text \<open>
  An array is a list, and an access outside it is the value \<^const>\<open>None\<close>.  A \<open>for\<close> loop whose body may
  fault is a fold over its indices that stops at the first fault.
\<close>

definition aget :: "'a list \<Rightarrow> nat \<Rightarrow> 'a option" where
  "aget xs i = (if i < length xs then Some (xs ! i) else None)"

definition aput :: "nat \<Rightarrow> 'a \<Rightarrow> 'a list \<Rightarrow> 'a list option" where
  "aput i v xs = (if i < length xs then Some (xs[i := v]) else None)"

lemma aget_in [simp]: "i < length xs \<Longrightarrow> aget xs i = Some (xs ! i)"
  by (simp add: aget_def)

lemma aput_in [simp]: "i < length xs \<Longrightarrow> aput i v xs = Some (xs[i := v])"
  by (simp add: aput_def)

lemma aget_Some_iff: "aget xs i = Some v \<longleftrightarrow> i < length xs \<and> xs ! i = v"
  by (auto simp: aget_def)

lemma aput_Some_iff: "aput i v xs = Some ys \<longleftrightarrow> i < length xs \<and> ys = xs[i := v]"
  by (auto simp: aput_def)

fun ofold :: "('a \<Rightarrow> 's \<Rightarrow> 's option) \<Rightarrow> 'a list \<Rightarrow> 's \<Rightarrow> 's option" where
  "ofold f [] s = Some s"
| "ofold f (x # xs) s = Option.bind (f x s) (ofold f xs)"

lemma ofold_append: "ofold f (xs @ ys) s = Option.bind (ofold f xs s) (ofold f ys)"
  by (induction xs arbitrary: s) (auto split: Option.bind_splits)

text \<open>A loop whose body keeps an invariant and never faults ends, with the invariant.\<close>

lemma ofold_total:
  assumes "\<And>x s. x \<in> set xs \<Longrightarrow> P s \<Longrightarrow> \<exists>s'. f x s = Some s' \<and> P s'" and "P s"
  shows "\<exists>s'. ofold f xs s = Some s' \<and> P s'"
  using assms by (induction xs arbitrary: s) (simp, fastforce)

text \<open>The same with the number of rounds done, for a loop over the indices below \<open>n\<close>.\<close>

lemma ofold_upt_total:
  assumes "\<And>i s. i < n \<Longrightarrow> P i s \<Longrightarrow> \<exists>s'. f i s = Some s' \<and> P (Suc i) s'" and "P 0 s"
  shows "\<exists>s'. ofold f [0..<n] s = Some s' \<and> P n s'"
  using assms
proof (induction n)
  case (Suc n)
  then obtain t where "ofold f [0..<n] s = Some t" "P n t" by fastforce
  with Suc.prems(1) [of n t] show ?case by (auto simp: ofold_append)
qed simp

end
