(* ===== verification/Pmm.thy ===== *)
theory Pmm
  imports Vx_Prelude
begin

text \<open>
  The physical frame allocator, \<^verbatim>\<open>src/src/pmm.h\<close>: one bitmap over every usable frame the
  firmware reported, with an allocation hint, a first-fit search for contiguous runs and a
  table of sixteen-bit sharing counts.

  The file's static variables are the fields of the record \<open>pmm\<close>.  Frame numbers are \<open>nat\<close>:
  they come from \<open>addr >> 12\<close>, so they stay below \<open>2 ^ 52\<close> and no computation on them wraps;
  addresses and the free-frame counter keep their 64 bits.  Physical memory is a map from the
  address of an eight-byte word to its contents.  The spinlock brackets are left out: one
  processor runs the allocator with interrupts off, so each operation is one step.
\<close>

section \<open>State\<close>

record pmm =
  bitmap :: "u64 list"
  bitmap_phys :: u64
  bitmap_words :: nat
  total_frames :: u64
  free_frames :: u64
  highest_frame :: nat
  next_hint :: nat
  ready :: bool
  refs :: "u16 list option"
  pmem :: "u64 \<Rightarrow> u64"
  hhdm :: u64

record memmap_entry =
  base :: u64
  len :: u64
  usable :: bool

definition PAGE_MASK :: u64 where "PAGE_MASK = 4095"

definition PAGE_ALIGN_DOWN :: "u64 \<Rightarrow> u64" where
  "PAGE_ALIGN_DOWN x = x AND NOT PAGE_MASK"

definition PAGE_ALIGN_UP :: "u64 \<Rightarrow> u64" where
  "PAGE_ALIGN_UP x = PAGE_ALIGN_DOWN (x + PAGE_MASK)"

definition phys_of :: "nat \<Rightarrow> u64" where
  "phys_of f = push_bit 12 (of_nat f)"

definition frame_of :: "u64 \<Rightarrow> nat" where
  "frame_of p = unat (drop_bit 12 p)"

text \<open>One past the last frame of the first megabyte: \<open>0x100000 >> PAGE_SHIFT\<close>.\<close>

definition low_frames :: nat where "low_frames = 256"

section \<open>The bitmap\<close>

definition pmm_test :: "pmm \<Rightarrow> nat \<Rightarrow> bool" where
  "pmm_test s frame \<longleftrightarrow> bit (bitmap s ! (frame div 64)) (frame mod 64)"

definition pmm_set :: "nat \<Rightarrow> pmm \<Rightarrow> pmm" where
  "pmm_set frame s = s\<lparr>bitmap := (bitmap s)[frame div 64 :=
     bitmap s ! (frame div 64) OR push_bit (frame mod 64) 1]\<rparr>"

definition pmm_clear :: "nat \<Rightarrow> pmm \<Rightarrow> pmm" where
  "pmm_clear frame s = s\<lparr>bitmap := (bitmap s)[frame div 64 :=
     bitmap s ! (frame div 64) AND NOT (push_bit (frame mod 64) 1)]\<rparr>"

section \<open>Building the bitmap\<close>

definition map_highest :: "memmap_entry list \<Rightarrow> u64" where
  "map_highest es = fold (\<lambda>e highest.
     if usable e \<and> base e + len e > highest then base e + len e else highest) es 0"

text \<open>The placement loop stops at the first region that leaves \<open>pmm_bitmap_phys\<close> non-zero.\<close>

fun place_bitmap :: "memmap_entry list \<Rightarrow> u64 \<Rightarrow> u64 \<Rightarrow> u64" where
  "place_bitmap [] bytes p = p"
| "place_bitmap (e # es) bytes p =
     (if p \<noteq> 0 then p
      else if \<not> usable e then place_bitmap es bytes p
      else let b = PAGE_ALIGN_UP (base e); en = PAGE_ALIGN_DOWN (base e + len e)
           in place_bitmap es bytes (if en > b \<and> en - b \<ge> bytes then b else p))"

definition free_one :: "nat \<Rightarrow> pmm \<Rightarrow> pmm" where
  "free_one f s =
     (let s = (if pmm_test s f then (pmm_clear f s)\<lparr>free_frames := free_frames s + 1\<rparr> else s)
      in s\<lparr>total_frames := total_frames s + 1\<rparr>)"

definition region_frames :: "memmap_entry \<Rightarrow> nat list" where
  "region_frames e = [unat (drop_bit 12 (PAGE_ALIGN_UP (base e)))
     ..< unat (drop_bit 12 (PAGE_ALIGN_DOWN (base e + len e)))]"

definition free_region :: "memmap_entry \<Rightarrow> pmm \<Rightarrow> pmm" where
  "free_region e s = (if usable e then fold free_one (region_frames e) s else s)"

definition reserve_one :: "nat \<Rightarrow> pmm \<Rightarrow> pmm" where
  "reserve_one f s =
     (if \<not> pmm_test s f then (pmm_set f s)\<lparr>free_frames := free_frames s - 1\<rparr> else s)"

text \<open>The steps of \<open>pmm_init\<close> after the placement has succeeded, in the code's order.\<close>

definition pmm_fill :: "memmap_entry list \<Rightarrow> u64 \<Rightarrow> pmm \<Rightarrow> pmm" where
  "pmm_fill mm bytes s =
     (let s = s\<lparr>bitmap := replicate (bitmap_words s) (- 1)\<rparr>;
          s = fold free_region mm s;
          s = fold reserve_one
                [frame_of (bitmap_phys s) ..< frame_of (PAGE_ALIGN_UP (bitmap_phys s + bytes))] s;
          s = fold reserve_one [0 ..< min low_frames (highest_frame s)] s
      in s\<lparr>next_hint := 0, ready := True\<rparr>)"

definition pmm_init :: "memmap_entry list \<Rightarrow> u64 \<Rightarrow> pmm \<Rightarrow> pmm" where
  "pmm_init mm off s =
     (let s = s\<lparr>hhdm := off, highest_frame := frame_of (map_highest mm)\<rparr>;
          s = s\<lparr>bitmap_words := (highest_frame s + 63) div 64\<rparr>;
          bytes = of_nat (bitmap_words s * 8);
          s = s\<lparr>bitmap_phys := place_bitmap mm bytes (bitmap_phys s)\<rparr>
      in if bitmap_phys s = 0 then s else pmm_fill mm bytes s)"

section \<open>Single frames\<close>

definition pmm_zero_frame :: "u64 \<Rightarrow> pmm \<Rightarrow> pmm" where
  "pmm_zero_frame phys s =
     s\<lparr>pmem := fold (\<lambda>i m. m(phys + 8 * of_nat i := 0)) [0..<512] (pmem s)\<rparr>"

function pmm_sweep :: "pmm \<Rightarrow> nat \<Rightarrow> nat \<Rightarrow> (nat \<times> nat) option" where
  "pmm_sweep s w w1 =
     (if w < w1 then
        if bitmap s ! w = - 1 then pmm_sweep s (Suc w) w1
        else let b = ctz (NOT (bitmap s ! w))
             in if w * 64 + b \<ge> highest_frame s then None else Some (w, b)
      else None)"
  by pat_completeness auto
termination by (relation "measure (\<lambda>(s, w, w1). w1 - w)") auto

declare pmm_sweep.simps [simp del]

text \<open>One of the two sweeps: the words from \<open>w0\<close> up to \<open>w1\<close>; the frame number or 0.\<close>

definition pmm_pass :: "pmm \<Rightarrow> nat \<Rightarrow> nat \<Rightarrow> pmm \<times> nat" where
  "pmm_pass s w0 w1 =
     (case pmm_sweep s w0 w1 of
        None \<Rightarrow> (s, 0)
      | Some (w, b) \<Rightarrow>
          (s\<lparr>bitmap := (bitmap s)[w := bitmap s ! w OR push_bit b 1],
             free_frames := free_frames s - 1, next_hint := w\<rparr>, w * 64 + b))"

definition pmm_alloc_once :: "pmm \<Rightarrow> pmm \<times> u64" where
  "pmm_alloc_once s =
     (if \<not> ready s then (s, 0)
      else let (s, frame) = pmm_pass s (next_hint s) (bitmap_words s);
               (s, frame) = (if frame \<noteq> 0 then (s, frame) else pmm_pass s 0 (next_hint s))
           in if frame = 0 then (s, 0)
              else (pmm_zero_frame (phys_of frame) s, phys_of frame))"

text \<open>\<open>swap_reclaim\<close> is only declared in this file; the pager that defines it is a parameter.\<close>

definition pmm_alloc :: "(pmm \<Rightarrow> pmm \<times> bool) \<Rightarrow> pmm \<Rightarrow> pmm \<times> u64" where
  "pmm_alloc reclaim s =
     (let (s, phys) = pmm_alloc_once s
      in if phys \<noteq> 0 then (s, phys)
         else let (s, ok) = reclaim s
              in if \<not> ok then (s, 0) else pmm_alloc_once s)"

section \<open>Contiguous runs\<close>

function contig_search :: "pmm \<Rightarrow> nat \<Rightarrow> nat \<Rightarrow> nat \<Rightarrow> nat \<Rightarrow> nat" where
  "contig_search s n f run start =
     (if f < highest_frame s then
        if f mod 64 = 0 \<and> bitmap s ! (f div 64) = - 1 then contig_search s n (f + 64) 0 start
        else if pmm_test s f then contig_search s n (f + 1) 0 start
        else let start = (if run = 0 then f else start)
             in if run + 1 = n then start else contig_search s n (f + 1) (run + 1) start
      else 0)"
  by pat_completeness auto
termination by (relation "measure (\<lambda>(s, n, f, run, start). highest_frame s - f)") auto

declare contig_search.simps [simp del]

definition pmm_alloc_contig :: "u64 \<Rightarrow> pmm \<Rightarrow> pmm \<times> u64" where
  "pmm_alloc_contig frames s =
     (if \<not> ready s \<or> frames = 0 then (s, 0)
      else let found = contig_search s (unat frames) low_frames 0 0;
               s = (if found \<noteq> 0
                    then (fold pmm_set [found ..< found + unat frames] s)
                           \<lparr>free_frames := free_frames s - frames\<rparr>
                    else s)
           in (s, phys_of found))"

section \<open>Sharing counts and release\<close>

definition pmm_ref_init :: "pmm \<Rightarrow> pmm" where
  "pmm_ref_init s =
     (if \<not> ready s \<or> refs s \<noteq> None then s
      else let bytes = of_nat (highest_frame s) * 2;
               (s, phys) = pmm_alloc_contig (PAGE_ALIGN_UP bytes div 4096) s
           in if phys = 0 then s
              else s\<lparr>refs := Some (replicate (highest_frame s) 0)\<rparr>)"

definition pmm_ref_inc :: "u64 \<Rightarrow> pmm \<Rightarrow> pmm" where
  "pmm_ref_inc phys s =
     (case refs s of
        None \<Rightarrow> s
      | Some r \<Rightarrow>
          let f = frame_of phys
          in if f \<ge> highest_frame s then s
             else if r ! f < 0xFFFF then s\<lparr>refs := Some (r[f := r ! f + 1])\<rparr> else s)"

definition pmm_ref_count :: "u64 \<Rightarrow> pmm \<Rightarrow> nat" where
  "pmm_ref_count phys s =
     (case refs s of
        None \<Rightarrow> 1
      | Some r \<Rightarrow> if frame_of phys \<ge> highest_frame s then 1 else unat (r ! frame_of phys) + 1)"

definition pmm_release :: "nat \<Rightarrow> pmm \<Rightarrow> pmm" where
  "pmm_release frame s =
     (if pmm_test s frame
      then (pmm_clear frame s)\<lparr>free_frames := free_frames s + 1,
              next_hint := (if frame div 64 < next_hint s then frame div 64 else next_hint s)\<rparr>
      else s)"

definition pmm_free :: "u64 \<Rightarrow> pmm \<Rightarrow> pmm" where
  "pmm_free phys s =
     (if \<not> ready s \<or> phys = 0 then s
      else let frame = frame_of phys
           in if frame \<ge> highest_frame s then s
              else case refs s of
                Some r \<Rightarrow> if r ! frame \<noteq> 0 then s\<lparr>refs := Some (r[frame := r ! frame - 1])\<rparr>
                          else pmm_release frame s
              | None \<Rightarrow> pmm_release frame s)"

definition pmm_free_contig :: "u64 \<Rightarrow> u64 \<Rightarrow> pmm \<Rightarrow> pmm" where
  "pmm_free_contig phys frames s =
     fold (\<lambda>i. pmm_free (phys + of_nat i * 4096)) [0 ..< unat frames] s"

section \<open>The largest run\<close>

partial_function (option) largest_loop ::
    "u64 \<Rightarrow> u64 \<Rightarrow> pmm \<Rightarrow> (pmm \<times> u64 \<times> u64 option) option" where
  "largest_loop floor want s =
     (if want \<ge> floor
      then let r = pmm_alloc_contig want s
           in if snd r \<noteq> 0 then Some (fst r, snd r, Some want)
              else largest_loop floor (want div 2) (fst r)
      else Some (s, 0, None))"

definition pmm_alloc_largest ::
    "u64 \<Rightarrow> u64 \<Rightarrow> pmm \<Rightarrow> (pmm \<times> u64 \<times> u64 option) option" where
  "pmm_alloc_largest keep floor s =
     (if \<not> ready s \<or> free_frames s \<le> keep + floor then Some (s, 0, None)
      else largest_loop floor (free_frames s - keep) s)"

definition pmm_alloc_page_virt :: "(pmm \<Rightarrow> pmm \<times> bool) \<Rightarrow> pmm \<Rightarrow> pmm \<times> u64 \<times> u64" where
  "pmm_alloc_page_virt reclaim s =
     (let (s, p) = pmm_alloc reclaim s in if p = 0 then (s, 0, 0) else (s, p + hhdm s, p))"

definition pmm_free_kb :: "pmm \<Rightarrow> u64" where "pmm_free_kb s = free_frames s * 4"

definition pmm_total_kb :: "pmm \<Rightarrow> u64" where "pmm_total_kb s = total_frames s * 4"

section \<open>The invariant\<close>

text \<open>The free frames the bitmap describes: the abstract state of the allocator.\<close>

definition free_set :: "pmm \<Rightarrow> nat set" where
  "free_set s = {f. f < highest_frame s \<and> \<not> pmm_test s f}"

text \<open>
  Layout of the bitmap (one bit per frame, the bits past the last frame set), the counter
  equal to the number of clear bits, frame 0 never free (0 is the failure value), and a
  sharing count per frame when the table exists.
\<close>

definition pmm_layout :: "pmm \<Rightarrow> bool" where
  "pmm_layout s \<longleftrightarrow> bitmap_words s = (highest_frame s + 63) div 64 \<and>
     length (bitmap s) = bitmap_words s \<and> highest_frame s < 2 ^ 52 \<and>
     (\<forall>f. highest_frame s \<le> f \<and> f < 64 * bitmap_words s \<longrightarrow> pmm_test s f)"

definition pmm_inv :: "pmm \<Rightarrow> bool" where
  "pmm_inv s \<longleftrightarrow> ready s \<and> pmm_layout s \<and> next_hint s \<le> bitmap_words s \<and>
     free_frames s = of_nat (card (free_set s)) \<and> 0 \<notin> free_set s \<and>
     (\<forall>r. refs s = Some r \<longrightarrow> length r = highest_frame s)"

section \<open>Addresses and frames\<close>

lemma frame_of_less: "frame_of p < 2 ^ 52"
  using unsigned_less [of p, where ?'a = nat]
  by (simp add: frame_of_def unat_drop_bit_eq drop_bit_eq_div unat_div div_less_iff_less_mult)

lemma frame_of_phys_of [simp]:
  assumes "f < 2 ^ 52"
  shows "frame_of (phys_of f) = f"
proof -
  have "unat (phys_of f) = f * 4096"
    using assms by (simp add: phys_of_def push_bit_eq_mult unat_word_ariths unsigned_of_nat
        take_bit_nat_eq_self)
  then show ?thesis by (simp add: frame_of_def unat_drop_bit_eq drop_bit_eq_div unat_div)
qed

lemma phys_of_0 [simp]: "phys_of 0 = 0"
  by (simp add: phys_of_def)

lemma frame_of_0 [simp]: "frame_of 0 = 0"
  by (simp add: frame_of_def)

lemma phys_of_eq_0_iff: "f < 2 ^ 52 \<Longrightarrow> phys_of f = 0 \<longleftrightarrow> f = 0"
  using frame_of_phys_of [of f] by (auto simp del: frame_of_phys_of)

section \<open>Effect of the bit operations\<close>

lemma pmm_test_update [simp]:
  "pmm_test (s\<lparr>free_frames := a\<rparr>) f = pmm_test s f"
  "pmm_test (s\<lparr>total_frames := b\<rparr>) f = pmm_test s f"
  "pmm_test (s\<lparr>next_hint := c\<rparr>) f = pmm_test s f"
  "pmm_test (s\<lparr>refs := r\<rparr>) f = pmm_test s f"
  "pmm_test (s\<lparr>pmem := m\<rparr>) f = pmm_test s f"
  "pmm_test (s\<lparr>ready := d\<rparr>) f = pmm_test s f"
  "pmm_test (s\<lparr>highest_frame := d'\<rparr>) f = pmm_test s f"
  by (simp_all add: pmm_test_def)

lemma pmm_test_upd:
  assumes "g div 64 < length (bitmap s)"
  shows "pmm_test (pmm_set g s) f \<longleftrightarrow> f = g \<or> pmm_test s f"
    and "pmm_test (pmm_clear g s) f \<longleftrightarrow> f \<noteq> g \<and> pmm_test s f"
proof -
  have eq: "f = g \<longleftrightarrow> f div 64 = g div 64 \<and> f mod 64 = g mod 64"
    by (metis div_mult_mod_eq)
  show "pmm_test (pmm_set g s) f \<longleftrightarrow> f = g \<or> pmm_test s f"
    using assms by (auto simp: pmm_test_def pmm_set_def nth_list_update eq)
  show "pmm_test (pmm_clear g s) f \<longleftrightarrow> f \<noteq> g \<and> pmm_test s f"
    using assms by (auto simp: pmm_test_def pmm_clear_def nth_list_update eq)
qed

lemma pmm_bit_frame [vx_frame, simp]:
  "highest_frame (pmm_set g s) = highest_frame s" "highest_frame (pmm_clear g s) = highest_frame s"
  "length (bitmap (pmm_set g s)) = length (bitmap s)"
  "length (bitmap (pmm_clear g s)) = length (bitmap s)"
  "bitmap_words (pmm_set g s) = bitmap_words s" "bitmap_words (pmm_clear g s) = bitmap_words s"
  "free_frames (pmm_set g s) = free_frames s" "free_frames (pmm_clear g s) = free_frames s"
  "next_hint (pmm_set g s) = next_hint s" "next_hint (pmm_clear g s) = next_hint s"
  "ready (pmm_set g s) = ready s" "ready (pmm_clear g s) = ready s"
  "refs (pmm_set g s) = refs s" "refs (pmm_clear g s) = refs s"
  "pmem (pmm_set g s) = pmem s" "pmem (pmm_clear g s) = pmem s"
  "hhdm (pmm_set g s) = hhdm s" "hhdm (pmm_clear g s) = hhdm s"
  "bitmap_phys (pmm_set g s) = bitmap_phys s" "bitmap_phys (pmm_clear g s) = bitmap_phys s"
  by (simp_all add: pmm_set_def pmm_clear_def)

lemma finite_free_set [simp]: "finite (free_set s)"
  by (simp add: free_set_def)

lemma free_set_update [simp]:
  "free_set (s\<lparr>free_frames := a\<rparr>) = free_set s"
  "free_set (s\<lparr>total_frames := b\<rparr>) = free_set s"
  "free_set (s\<lparr>next_hint := c\<rparr>) = free_set s"
  "free_set (s\<lparr>refs := r\<rparr>) = free_set s"
  "free_set (s\<lparr>pmem := m\<rparr>) = free_set s"
  "free_set (s\<lparr>ready := d\<rparr>) = free_set s"
  by (simp_all add: free_set_def)

lemma free_set_upd:
  assumes "g div 64 < length (bitmap s)"
  shows "free_set (pmm_set g s) = free_set s - {g}"
    and "free_set (pmm_clear g s) = (if g < highest_frame s then insert g (free_set s) else free_set s)"
  using assms by (auto simp: free_set_def pmm_test_upd)

lemma layout_word_bound: "pmm_layout s \<Longrightarrow> f < highest_frame s \<Longrightarrow> f div 64 < length (bitmap s)"
  by (auto simp: pmm_layout_def)

lemma layout_upd:
  assumes "pmm_layout s" and "g < highest_frame s"
  shows "pmm_layout (pmm_set g s)" and "pmm_layout (pmm_clear g s)"
  using assms layout_word_bound [OF assms] by (auto simp: pmm_layout_def pmm_test_upd)

lemma layout_update [simp]:
  "pmm_layout (s\<lparr>free_frames := a\<rparr>) = pmm_layout s"
  "pmm_layout (s\<lparr>total_frames := b\<rparr>) = pmm_layout s"
  "pmm_layout (s\<lparr>next_hint := c\<rparr>) = pmm_layout s"
  "pmm_layout (s\<lparr>refs := r\<rparr>) = pmm_layout s"
  "pmm_layout (s\<lparr>pmem := m\<rparr>) = pmm_layout s"
  "pmm_layout (s\<lparr>ready := d\<rparr>) = pmm_layout s"
  by (simp_all add: pmm_layout_def)

lemma card_free_set_less: "pmm_layout s \<Longrightarrow> card (free_set s) < 2 ^ 52"
  using card_bounded_filter_less [of "highest_frame s" "\<lambda>f. \<not> pmm_test s f"]
  by (simp add: free_set_def pmm_layout_def)

lemma unat_free_frames: "pmm_inv s \<Longrightarrow> unat (free_frames s) = card (free_set s)"
  using card_free_set_less [of s] by (simp add: pmm_inv_def unsigned_of_nat take_bit_nat_eq_self)

section \<open>The word sweep\<close>

lemma pmm_sweep_Some:
  assumes "pmm_sweep s w w1 = Some (v, b)"
  shows "v < w1 \<and> b < 64 \<and> v * 64 + b < highest_frame s \<and> \<not> pmm_test s (v * 64 + b)"
  using assms
proof (induction s w w1 rule: pmm_sweep.induct)
  case (1 s w w1)
  show ?case
  proof (cases "w < w1 \<and> bitmap s ! w = - 1")
    case True
    with "1" show ?thesis by (simp add: pmm_sweep.simps [of s w w1])
  next
    case False
    with "1.prems" have "w < w1" "v = w" "b = ctz (NOT (bitmap s ! w))" "w * 64 + b < highest_frame s"
      by (auto simp: pmm_sweep.simps [of s w w1] Let_def split: if_splits)
    with False ctz_not_clear [of "bitmap s ! w"] show ?thesis by (simp add: pmm_test_def)
  qed
qed

lemma pmm_sweep_None:
  assumes "pmm_sweep s w w1 = None" and "pmm_layout s" and "w1 \<le> bitmap_words s"
    and "w * 64 \<le> f" and "f < w1 * 64"
  shows "pmm_test s f"
  using assms
proof (induction s w w1 rule: pmm_sweep.induct)
  case (1 s w w1)
  let ?b = "ctz (NOT (bitmap s ! w))"
  have w: "w < w1" using "1.prems"(4,5) by linarith
  have full: "bitmap s ! w = - 1"
  proof (rule ccontr)
    assume n: "bitmap s ! w \<noteq> - 1"
    note c = ctz_not_clear [OF n]
    from n w "1.prems"(1) have "highest_frame s \<le> w * 64 + ?b"
      by (auto simp: pmm_sweep.simps [of s w w1] Let_def split: if_splits)
    moreover have "w * 64 + ?b < 64 * bitmap_words s" using c(2) w "1.prems"(3) by simp
    ultimately have "pmm_test s (w * 64 + ?b)" using "1.prems"(2) unfolding pmm_layout_def by blast
    with c show False by (simp add: pmm_test_def)
  qed
  show ?case
  proof (cases "f < Suc w * 64")
    case True
    with "1.prems"(4) have "f div 64 = w" by simp
    with full show ?thesis by (simp add: pmm_test_def)
  next
    case False
    have "pmm_sweep s (Suc w) w1 = None"
      using "1.prems"(1) full w by (simp add: pmm_sweep.simps [of s w w1])
    with False "1.IH" full w "1.prems" show ?thesis by simp
  qed
qed

section \<open>Taking and giving back one frame\<close>

lemma pmm_inv_take:
  assumes "pmm_inv s" and "f \<in> free_set s" and "h \<le> bitmap_words s"
  shows "pmm_inv ((pmm_set f s)\<lparr>free_frames := free_frames s - 1, next_hint := h\<rparr>)"
proof -
  have f: "f < highest_frame s" using assms(2) by (simp add: free_set_def)
  have lay: "pmm_layout s" using assms(1) by (simp add: pmm_inv_def)
  have "card (free_set s) > 0" using assms(2) by (auto simp: card_gt_0_iff)
  then have "of_nat (card (free_set s)) - 1 = (of_nat (card (free_set s - {f})) :: u64)"
    using assms(2) by simp
  then show ?thesis
    using assms layout_upd [OF lay f] free_set_upd [OF layout_word_bound [OF lay f]]
    by (simp add: pmm_inv_def)
qed

lemma pmm_pass_spec:
  assumes "pmm_inv s" and "w1 \<le> bitmap_words s" and "pmm_pass s w0 w1 = (s', f)"
  shows "if f = 0 then s' = s \<and> (\<forall>g. w0 * 64 \<le> g \<and> g < w1 * 64 \<longrightarrow> pmm_test s g)
         else f \<in> free_set s \<and> pmm_inv s' \<and> free_set s' = free_set s - {f} \<and> pmem s' = pmem s"
proof (cases "pmm_sweep s w0 w1")
  case None
  with assms pmm_sweep_None [OF None] show ?thesis
    by (auto simp: pmm_pass_def pmm_inv_def)
next
  case (Some x)
  obtain v b where x: "x = (v, b)" by (cases x)
  note sw = pmm_sweep_Some [OF Some [unfolded x]]
  have lay: "pmm_layout s" using assms(1) by (simp add: pmm_inv_def)
  have fs: "v * 64 + b \<in> free_set s" using sw by (simp add: free_set_def)
  have f: "f = v * 64 + b" and s': "s' = (pmm_set f s)\<lparr>free_frames := free_frames s - 1, next_hint := v\<rparr>"
    using assms(3) Some x sw by (auto simp: pmm_pass_def pmm_set_def)
  have "f \<noteq> 0" using fs f assms(1) by (metis pmm_inv_def)
  moreover have "pmm_inv s'" unfolding s'
    using pmm_inv_take [OF assms(1), of f v] fs f sw assms(2) by simp
  moreover have "free_set s' = free_set s - {f}"
    using free_set_upd(1) [OF layout_word_bound [OF lay]] sw f s' by simp
  moreover have "pmem s' = pmem s" by (simp add: s')
  ultimately show ?thesis using fs [folded f] by simp
qed

lemma pmm_inv_pmem [simp]: "pmm_inv (s\<lparr>pmem := m\<rparr>) = pmm_inv s"
  by (simp add: pmm_inv_def)

lemma fold_zero_words:
  "fold (\<lambda>i m. m(p + 8 * of_nat i := 0)) is m a =
     (if \<exists>i \<in> set is. a = p + 8 * of_nat i then 0 else (m :: u64 \<Rightarrow> u64) a)"
  by (induction "is" arbitrary: m) auto

lemma pmm_alloc_once_cases:
  assumes "pmm_inv s"
  obtains (none) "pmm_alloc_once s = (s, 0)" "free_set s = {}"
  | (some) f s1 where "pmm_alloc_once s = (pmm_zero_frame (phys_of f) s1, phys_of f)"
      "f \<in> free_set s" "pmm_inv s1" "free_set s1 = free_set s - {f}" "pmem s1 = pmem s"
proof -
  have rdy: "ready s" and hint: "next_hint s \<le> bitmap_words s" and lay: "pmm_layout s"
    using assms by (simp_all add: pmm_inv_def)
  obtain s1 f1 where p1: "pmm_pass s (next_hint s) (bitmap_words s) = (s1, f1)" by fastforce
  note h1 = pmm_pass_spec [OF assms order_refl p1]
  show thesis
  proof (cases "f1 = 0")
    case False
    with h1 rdy p1 show thesis by (intro some [of f1 s1]) (auto simp: pmm_alloc_once_def)
  next
    case True
    obtain s2 f2 where p2: "pmm_pass s 0 (next_hint s) = (s2, f2)" by fastforce
    note h2 = pmm_pass_spec [OF assms hint p2]
    have s1: "s1 = s" using True h1 by simp
    show thesis
    proof (cases "f2 = 0")
      case False
      with h2 rdy p1 p2 True s1 show thesis
        by (intro some [of f2 s2]) (auto simp: pmm_alloc_once_def)
    next
      case f2: True
      have "pmm_test s g" if "g < highest_frame s" for g
      proof -
        have "g < bitmap_words s * 64" using that lay by (simp add: pmm_layout_def)
        then show ?thesis using h1 h2 True f2 by (cases "g < next_hint s * 64") auto
      qed
      then have "free_set s = {}" by (auto simp: free_set_def)
      with h2 rdy p1 p2 True s1 f2 show thesis by (intro none) (auto simp: pmm_alloc_once_def)
    qed
  qed
qed

section \<open>Contiguous search\<close>

definition run_free :: "pmm \<Rightarrow> nat \<Rightarrow> nat \<Rightarrow> bool" where
  "run_free s a n \<longleftrightarrow> {a ..< a + n} \<subseteq> free_set s"

lemma not_run_freeI: "g \<notin> free_set s \<Longrightarrow> a \<le> g \<Longrightarrow> g < a + n \<Longrightarrow> \<not> run_free s a n"
  by (auto simp: run_free_def)

text \<open>What the loop knows when it looks at frame \<open>f\<close> with \<open>run\<close> free frames behind it.\<close>

definition search_inv :: "pmm \<Rightarrow> nat \<Rightarrow> nat \<Rightarrow> nat \<Rightarrow> nat \<Rightarrow> nat \<Rightarrow> bool" where
  "search_inv s n lo f run start \<longleftrightarrow> 0 < lo \<and> run < n \<and> lo + run \<le> f \<and>
     (run > 0 \<longrightarrow> start + run = f) \<and> {f - run ..< f} \<subseteq> free_set s \<and>
     (\<forall>a. lo \<le> a \<and> a < f - run \<longrightarrow> \<not> run_free s a n)"

lemma search_inv_skip:
  assumes "search_inv s n lo f run start" and "{f ..< f'} \<inter> free_set s = {}" and "f < f'"
  shows "search_inv s n lo f' 0 start'"
proof -
  have "\<not> run_free s a n" if "lo \<le> a" "a < f'" for a
  proof (cases "a < f - run")
    case True
    with assms(1) that(1) show ?thesis by (simp add: search_inv_def)
  next
    case False
    then have "f < a + n" using assms(1) by (auto simp: search_inv_def)
    show ?thesis
    proof (cases "a \<le> f")
      case True
      with \<open>f < a + n\<close> assms(2,3) show ?thesis by (intro not_run_freeI [of f]) auto
    next
      case False
      with that assms(2) have "a \<notin> free_set s" by (auto simp: disjoint_iff)
      then show ?thesis using \<open>f < a + n\<close> False assms(1)
        by (intro not_run_freeI [of a]) (auto simp: search_inv_def)
    qed
  qed
  then show ?thesis using assms(1,3) by (auto simp: search_inv_def)
qed

lemma search_inv_extend:
  assumes "search_inv s n lo f run start" and "f \<in> free_set s" and "run + 1 < n"
  shows "search_inv s n lo (f + 1) (run + 1) (if run = 0 then f else start)"
proof -
  have "{f - run ..< f + 1} = insert f {f - run ..< f}" by auto
  with assms show ?thesis by (auto simp: search_inv_def simp del: atLeastLessThan_iff)
qed

lemma contig_search_spec:
  assumes "search_inv s n lo f run start"
  shows "let r = contig_search s n f run start in
     if r = 0 then \<forall>a. lo \<le> a \<longrightarrow> \<not> run_free s a n
     else lo \<le> r \<and> run_free s r n \<and> (\<forall>a. lo \<le> a \<and> a < r \<longrightarrow> \<not> run_free s a n)"
  using assms
proof (induction s n f run start rule: contig_search.induct)
  case (1 s n f run start)
  note unf = contig_search.simps [of s n f run start]
  consider (past) "highest_frame s \<le> f"
    | (word) "f < highest_frame s" "f mod 64 = 0 \<and> bitmap s ! (f div 64) = - 1"
    | (used) "f < highest_frame s" "\<not> (f mod 64 = 0 \<and> bitmap s ! (f div 64) = - 1)" "pmm_test s f"
    | (free) "f < highest_frame s" "\<not> (f mod 64 = 0 \<and> bitmap s ! (f div 64) = - 1)" "\<not> pmm_test s f"
    by linarith
  then show ?case
  proof cases
    case past
    have "\<not> run_free s a n" if "lo \<le> a" for a
    proof (cases "a < f - run")
      case True
      with that "1.prems" show ?thesis by (simp add: search_inv_def)
    next
      case False
      then have "a \<le> max a f" "max a f < a + n" using "1.prems" by (auto simp: search_inv_def)
      moreover have "max a f \<notin> free_set s" using past by (simp add: free_set_def)
      ultimately show ?thesis by (rule not_run_freeI [rotated])
    qed
    with past show ?thesis by (simp add: unf)
  next
    case word
    have "g \<notin> free_set s" if "f \<le> g" "g < f + 64" for g
    proof -
      have "f = 64 * (f div 64)" using word(2) by auto
      then have "g div 64 = f div 64" using that by linarith
      with word show ?thesis by (simp add: free_set_def pmm_test_def)
    qed
    then have "search_inv s n lo (f + 64) 0 start"
      by (intro search_inv_skip [OF "1.prems"]) auto
    moreover have "contig_search s n f run start = contig_search s n (f + 64) 0 start"
      using word by (simp add: unf)
    ultimately show ?thesis using "1.IH"(1) [OF word] by simp
  next
    case used
    then have "search_inv s n lo (f + 1) 0 start"
      by (intro search_inv_skip [OF "1.prems"]) (auto simp: free_set_def)
    moreover have "contig_search s n f run start = contig_search s n (f + 1) 0 start"
      using used by (auto simp: unf)
    ultimately show ?thesis using "1.IH"(2) [OF used] by simp
  next
    case free
    let ?st = "if run = 0 then f else start"
    have fs: "f \<in> free_set s" using free by (simp add: free_set_def)
    show ?thesis
    proof (cases "run + 1 = n")
      case True
      have st: "?st = f - run" and pos: "0 < ?st" using "1.prems" by (auto simp: search_inv_def)
      have "{f - run ..< f - run + n} = insert f {f - run ..< f}"
        using True "1.prems" by (auto simp: search_inv_def)
      then have "run_free s ?st n" using "1.prems" fs by (simp add: run_free_def st search_inv_def)
      moreover have "contig_search s n f run start = ?st"
        using free True by (auto simp: unf)
      ultimately show ?thesis using pos st "1.prems" by (auto simp: search_inv_def Let_def)
    next
      case False
      then have "run + 1 < n" using "1.prems" by (simp add: search_inv_def)
      note ext = search_inv_extend [OF "1.prems" fs this]
      have "contig_search s n f run start = contig_search s n (f + 1) (run + 1) ?st"
        using free False by (auto simp: unf Let_def)
      with "1.IH"(3) [OF free refl False ext] show ?thesis by simp
    qed
  qed
qed

lemma fold_pmm_set:
  assumes "pmm_layout s" and "\<forall>g \<in> set gs. g < highest_frame s"
  shows "pmm_layout (fold pmm_set gs s) \<and> free_set (fold pmm_set gs s) = free_set s - set gs \<and>
     highest_frame (fold pmm_set gs s) = highest_frame s \<and> ready (fold pmm_set gs s) = ready s \<and>
     next_hint (fold pmm_set gs s) = next_hint s \<and> refs (fold pmm_set gs s) = refs s \<and>
     bitmap_words (fold pmm_set gs s) = bitmap_words s \<and> pmem (fold pmm_set gs s) = pmem s"
  using assms
proof (induction gs arbitrary: s)
  case Nil
  then show ?case by simp
next
  case (Cons g gs)
  then have g: "g < highest_frame s" by simp
  have "pmm_layout (pmm_set g s)" by (rule layout_upd(1) [OF Cons.prems(1) g])
  with Cons.IH [of "pmm_set g s"] Cons.prems free_set_upd(1) [OF layout_word_bound [OF Cons.prems(1) g]]
  show ?case by auto
qed

lemma contig_search_low:
  assumes "0 < n"
  shows "let r = contig_search s n low_frames 0 0 in
     if r = 0 then \<forall>a. low_frames \<le> a \<longrightarrow> \<not> run_free s a n
     else low_frames \<le> r \<and> run_free s r n \<and> (\<forall>a. low_frames \<le> a \<and> a < r \<longrightarrow> \<not> run_free s a n)"
  by (rule contig_search_spec) (use assms in \<open>auto simp: search_inv_def low_frames_def\<close>)

lemma pmm_alloc_contig_cases:
  assumes "pmm_inv s" and "frames \<noteq> 0"
  obtains (none) "pmm_alloc_contig frames s = (s, 0)"
      "\<forall>a. low_frames \<le> a \<longrightarrow> \<not> run_free s a (unat frames)"
  | (some) r s' where "pmm_alloc_contig frames s = (s', phys_of r)" "low_frames \<le> r"
      "r + unat frames \<le> highest_frame s"
      "run_free s r (unat frames)" "\<forall>a. low_frames \<le> a \<and> a < r \<longrightarrow> \<not> run_free s a (unat frames)"
      "pmm_inv s'" "free_set s' = free_set s - {r ..< r + unat frames}" "pmem s' = pmem s"
      "refs s' = refs s" "highest_frame s' = highest_frame s"
proof -
  let ?n = "unat frames"
  let ?r = "contig_search s ?n low_frames 0 0"
  have n: "0 < ?n" using assms(2) by (simp add: unat_gt_0)
  have rdy: "ready s" and lay: "pmm_layout s" using assms(1) by (simp_all add: pmm_inv_def)
  note spec = contig_search_low [OF n, of s, unfolded Let_def]
  show thesis
  proof (cases "?r = 0")
    case True
    with spec rdy assms(2) show thesis by (intro none) (auto simp: pmm_alloc_contig_def)
  next
    case False
    let ?s = "(fold pmm_set [?r ..< ?r + ?n] s)\<lparr>free_frames := free_frames s - frames\<rparr>"
    have sub: "{?r ..< ?r + ?n} \<subseteq> free_set s" using spec False by (simp add: run_free_def)
    then have hi: "\<forall>g \<in> set [?r ..< ?r + ?n]. g < highest_frame s" by (auto simp: free_set_def)
    note f = fold_pmm_set [OF lay hi]
    have top: "?r + ?n \<le> highest_frame s" using hi n by (auto dest!: bspec [of _ _ "?r + ?n - 1"])
    have "card (free_set s - {?r ..< ?r + ?n}) = card (free_set s) - ?n"
      using sub by (simp add: card_Diff_subset)
    moreover have "?n \<le> card (free_set s)" using card_mono [OF finite_free_set sub] by simp
    ultimately have "free_frames s - frames = of_nat (card (free_set ?s))"
      using assms(1) f by (simp add: pmm_inv_def)
    then have "pmm_inv ?s" using assms(1) f by (simp add: pmm_inv_def)
    moreover have "pmm_alloc_contig frames s = (?s, phys_of ?r)"
      using False rdy assms(2) by (simp add: pmm_alloc_contig_def Let_def)
    ultimately show thesis using spec False f top by (intro some [of ?s ?r]) simp_all
  qed
qed

section \<open>Release and sharing\<close>

lemma pmm_release_spec:
  assumes "pmm_inv s" and "0 < f" and "f < highest_frame s"
  shows "pmm_inv (pmm_release f s)" and "free_set (pmm_release f s) = insert f (free_set s)"
    and "refs (pmm_release f s) = refs s" and "highest_frame (pmm_release f s) = highest_frame s"
    and "pmem (pmm_release f s) = pmem s"
proof -
  have lay: "pmm_layout s" using assms(1) by (simp add: pmm_inv_def)
  note fs = free_set_upd(2) [OF layout_word_bound [OF lay assms(3)]]
  show fs': "free_set (pmm_release f s) = insert f (free_set s)"
    using fs assms(3) by (auto simp: pmm_release_def free_set_def)
  show "refs (pmm_release f s) = refs s" "highest_frame (pmm_release f s) = highest_frame s"
    "pmem (pmm_release f s) = pmem s"
    by (simp_all add: pmm_release_def)
  show "pmm_inv (pmm_release f s)"
  proof (cases "pmm_test s f")
    case True
    then have "card (insert f (free_set s)) = card (free_set s) + 1" by (simp add: free_set_def)
    with True assms layout_upd(2) [OF lay assms(3)] fs' show ?thesis
      by (auto simp: pmm_inv_def pmm_release_def)
  next
    case False
    with assms show ?thesis by (simp add: pmm_release_def)
  qed
qed

text \<open>The sharing count of a frame; 0 without a table, as the release path sees it.\<close>

definition shares :: "pmm \<Rightarrow> nat \<Rightarrow> nat" where
  "shares s f = (case refs s of None \<Rightarrow> 0 | Some r \<Rightarrow> unat (r ! f))"

lemma pmm_free_spec:
  assumes "pmm_inv s" and "0 < frame_of p"
  shows "pmm_inv (pmm_free p s)"
    and "highest_frame (pmm_free p s) = highest_frame s"
    and "pmem (pmm_free p s) = pmem s"
    and "free_set (pmm_free p s) =
      (if frame_of p < highest_frame s \<and> shares s (frame_of p) = 0
       then insert (frame_of p) (free_set s) else free_set s)"
    and "shares (pmm_free p s) f =
      (if f = frame_of p \<and> f < highest_frame s then shares s f - 1 else shares s f)"
proof -
  have p: "p \<noteq> 0" using assms(2) by auto
  have rdy: "ready s" using assms(1) by (simp add: pmm_inv_def)
  have len: "\<And>r. refs s = Some r \<Longrightarrow> length r = highest_frame s"
    using assms(1) by (simp add: pmm_inv_def)
  have dec: "unat (w - 1) = unat w - 1" if "w \<noteq> 0" for w :: u16
    using that by (simp add: unat_minus_one)
  note rel = pmm_release_spec [OF assms]
  show "pmm_inv (pmm_free p s)"
    using rel(1) assms(1) by (auto simp: pmm_free_def Let_def pmm_inv_def split: option.splits)
  show "highest_frame (pmm_free p s) = highest_frame s"
    using rel(4) by (auto simp: pmm_free_def Let_def split: option.splits)
  show "pmem (pmm_free p s) = pmem s"
    using rel(5) by (auto simp: pmm_free_def Let_def split: option.splits)
  show "free_set (pmm_free p s) =
      (if frame_of p < highest_frame s \<and> shares s (frame_of p) = 0
       then insert (frame_of p) (free_set s) else free_set s)"
    using rel(2) rdy p by (auto simp: pmm_free_def Let_def shares_def unat_eq_0 split: option.splits)
  show "shares (pmm_free p s) f =
      (if f = frame_of p \<and> f < highest_frame s then shares s f - 1 else shares s f)"
    using rel(3) rdy p len dec
    by (auto simp: pmm_free_def Let_def shares_def nth_list_update unat_eq_0 split: option.splits)
qed

lemma pmm_ref_inc_spec:
  assumes "pmm_inv s"
  shows "pmm_inv (pmm_ref_inc p s)" and "free_set (pmm_ref_inc p s) = free_set s"
    and "highest_frame (pmm_ref_inc p s) = highest_frame s"
    and "refs (pmm_ref_inc p s) = None \<longleftrightarrow> refs s = None"
    and "shares (pmm_ref_inc p s) f =
      (if f = frame_of p \<and> f < highest_frame s \<and> refs s \<noteq> None
       then min (shares s f + 1) 65535 else shares s f)"
proof -
  have len: "\<And>r. refs s = Some r \<Longrightarrow> length r = highest_frame s"
    using assms by (simp add: pmm_inv_def)
  have inc: "w < 0xFFFF \<Longrightarrow> unat (w + 1) = min (unat w + 1) 65535"
    "\<not> w < 0xFFFF \<Longrightarrow> unat w = min (unat w + 1) 65535" for w :: u16
    using unsigned_less [of w, where ?'a = nat]
    by (auto simp: word_less_nat_alt unat_word_ariths)
  show "pmm_inv (pmm_ref_inc p s)" "free_set (pmm_ref_inc p s) = free_set s"
    "highest_frame (pmm_ref_inc p s) = highest_frame s"
    "refs (pmm_ref_inc p s) = None \<longleftrightarrow> refs s = None"
    using assms by (auto simp: pmm_ref_inc_def Let_def pmm_inv_def split: option.splits)
  show "shares (pmm_ref_inc p s) f =
      (if f = frame_of p \<and> f < highest_frame s \<and> refs s \<noteq> None
       then min (shares s f + 1) 65535 else shares s f)"
    using len by (auto simp: inc(1) pmm_ref_inc_def Let_def shares_def nth_list_update split: option.splits
        dest!: inc(2))
qed

section \<open>Initialisation\<close>

text \<open>Physical addresses of x86-64 have at most 52 bits, so no region of the map reaches past them.\<close>

definition map_ok :: "memmap_entry list \<Rightarrow> bool" where
  "map_ok mm \<longleftrightarrow> (\<forall>e \<in> set mm. usable e \<longrightarrow> unat (base e) + unat (len e) < 2 ^ 52)"

text \<open>The frames that lie wholly inside a usable region.\<close>

definition in_region :: "memmap_entry \<Rightarrow> nat \<Rightarrow> bool" where
  "in_region e f \<longleftrightarrow> usable e \<and> unat (base e) \<le> f * 4096 \<and>
     (f + 1) * 4096 \<le> unat (base e) + unat (len e)"

lemma unat_and_not_mask: "unat (x AND NOT (4095 :: u64)) = unat x div 4096 * 4096"
proof -
  have m: "(4095 :: u64) = mask 12" by (simp add: mask_eq_exp_minus_1)
  have "x AND NOT (mask 12) = push_bit 12 (drop_bit 12 x)"
    by (rule bit_eqI) (auto simp: bit_simps)
  then show ?thesis unfolding m
    using unsigned_less [of x, where ?'a = nat] times_div_less_eq_dividend [of 4096 "unat x"]
    by (simp add: unsigned_push_bit_eq unat_drop_bit_eq drop_bit_eq_div push_bit_eq_mult unat_div
        unat_word_ariths mult.commute)
qed

lemma frame_of_align_down [simp]: "frame_of (PAGE_ALIGN_DOWN x) = unat x div 4096"
  by (simp add: frame_of_def PAGE_ALIGN_DOWN_def PAGE_MASK_def unat_drop_bit_eq drop_bit_eq_div
      unat_div unat_and_not_mask [simplified])

lemma unat_align_down: "unat (PAGE_ALIGN_DOWN x) = unat x div 4096 * 4096"
  by (simp add: PAGE_ALIGN_DOWN_def PAGE_MASK_def unat_and_not_mask [simplified])

lemma unat_align_up:
  assumes "unat x < 2 ^ 63"
  shows "unat (PAGE_ALIGN_UP x) = (unat x + 4095) div 4096 * 4096"
  using assms by (simp add: PAGE_ALIGN_UP_def unat_align_down PAGE_MASK_def unat_word_ariths)

lemma frame_of_align_up:
  assumes "unat x < 2 ^ 63"
  shows "frame_of (PAGE_ALIGN_UP x) = (unat x + 4095) div 4096"
  using assms by (simp add: PAGE_ALIGN_UP_def PAGE_MASK_def unat_word_ariths)

lemma region_end:
  assumes "map_ok mm" and "e \<in> set mm" and "usable e"
  shows "unat (base e + len e) = unat (base e) + unat (len e)" and "unat (base e) < 2 ^ 63"
    and "unat (base e) + unat (len e) < 2 ^ 52"
  using assms by (auto simp: map_ok_def unat_word_ariths)

lemma set_region_frames:
  assumes "map_ok mm" and "e \<in> set mm" and "usable e"
  shows "set (region_frames e) = {f. in_region e f}"
  using assms(3) region_end [OF assms] frame_of_align_up [of "base e"]
  by (auto simp: region_frames_def in_region_def simp flip: frame_of_def)

lemma map_highest_fold:
  "fold (\<lambda>e highest. if usable e \<and> base e + len e > highest then base e + len e else highest) es h \<ge> h"
  "e \<in> set es \<Longrightarrow> usable e \<Longrightarrow> base e + len e \<le>
     fold (\<lambda>e highest. if usable e \<and> base e + len e > highest then base e + len e else highest) es h"
proof (induction es arbitrary: h)
  case (Cons a es)
  { case 1 show ?case using Cons.IH(1) by (auto intro: order_trans less_imp_le) }
  { case 2 then show ?case using Cons.IH by (auto simp: not_less intro: order_trans) }
qed simp_all

lemma map_highest_bound:
  assumes "map_ok mm"
  shows "unat (map_highest mm) < 2 ^ 52"
proof -
  have "unat (fold (\<lambda>e highest. if usable e \<and> base e + len e > highest then base e + len e else highest) es h)
      < 2 ^ 52" if "set es \<subseteq> set mm" "unat h < 2 ^ 52" for es h
    using that
    by (induction es arbitrary: h) (use region_end [OF assms] in auto)
  then show ?thesis by (simp add: map_highest_def)
qed

lemma in_region_below_highest:
  assumes "map_ok mm" and "e \<in> set mm" and "in_region e f"
  shows "f < frame_of (map_highest mm)"
proof -
  have u: "usable e" using assms(3) by (simp add: in_region_def)
  have "unat (base e + len e) \<le> unat (map_highest mm)"
    using map_highest_fold(2) [OF assms(2) u] by (simp add: map_highest_def word_le_nat_alt)
  then have "(f + 1) * 4096 \<le> unat (map_highest mm)"
    using assms(3) region_end [OF assms(1,2) u] by (simp add: in_region_def)
  then show ?thesis
    by (simp add: frame_of_def unat_drop_bit_eq drop_bit_eq_div unat_div less_eq_div_iff_mult_less_eq
        Suc_le_eq [symmetric])
qed

text \<open>Where the bitmap goes: the first usable region that can hold it, aligned inwards.\<close>

lemma place_bitmap_in_region:
  assumes "place_bitmap es bytes 0 \<noteq> 0"
  shows "\<exists>e \<in> set es. usable e \<and> place_bitmap es bytes 0 = PAGE_ALIGN_UP (base e) \<and>
     PAGE_ALIGN_DOWN (base e + len e) > PAGE_ALIGN_UP (base e) \<and>
     PAGE_ALIGN_DOWN (base e + len e) - PAGE_ALIGN_UP (base e) \<ge> bytes"
proof -
  have fixp: "place_bitmap es bytes p = p" if "p \<noteq> 0" for es p
    using that by (induction es) (auto simp: Let_def)
  show ?thesis using assms
  proof (induction es)
    case (Cons e es)
    let ?ok = "usable e \<and> PAGE_ALIGN_DOWN (base e + len e) > PAGE_ALIGN_UP (base e) \<and>
      PAGE_ALIGN_DOWN (base e + len e) - PAGE_ALIGN_UP (base e) \<ge> bytes \<and> PAGE_ALIGN_UP (base e) \<noteq> 0"
    show ?case
    proof (cases ?ok)
      case True
      then show ?thesis by (auto simp: Let_def fixp)
    next
      case False
      then have "place_bitmap (e # es) bytes 0 = place_bitmap es bytes 0" by (auto simp: Let_def)
      with Cons show ?thesis by auto
    qed
  qed simp
qed

text \<open>The part of the invariant that holds while the bitmap is being filled in.\<close>

definition pmm_filling :: "pmm \<Rightarrow> bool" where
  "pmm_filling s \<longleftrightarrow> pmm_layout s \<and> free_frames s = of_nat (card (free_set s))"

lemma free_one_spec:
  assumes "pmm_filling s" and "f < highest_frame s"
  shows "pmm_filling (free_one f s)" and "free_set (free_one f s) = insert f (free_set s)"
    and "highest_frame (free_one f s) = highest_frame s" and "refs (free_one f s) = refs s"
    and "bitmap_phys (free_one f s) = bitmap_phys s"
proof -
  have lay: "pmm_layout s" using assms(1) by (simp add: pmm_filling_def)
  show fs: "free_set (free_one f s) = insert f (free_set s)"
    using free_set_upd(2) [OF layout_word_bound [OF lay assms(2)]] assms(2)
    by (auto simp: free_one_def Let_def free_set_def)
  show "highest_frame (free_one f s) = highest_frame s" "refs (free_one f s) = refs s"
    "bitmap_phys (free_one f s) = bitmap_phys s"
    by (simp_all add: free_one_def Let_def)
  show "pmm_filling (free_one f s)"
  proof (cases "pmm_test s f")
    case True
    then have "card (insert f (free_set s)) = card (free_set s) + 1" by (simp add: free_set_def)
    with True assms layout_upd(2) [OF lay assms(2)] fs show ?thesis
      by (simp add: pmm_filling_def free_one_def Let_def)
  next
    case False
    with assms show ?thesis by (simp add: pmm_filling_def free_one_def Let_def)
  qed
qed

lemma reserve_one_spec:
  assumes "pmm_filling s" and "f < highest_frame s"
  shows "pmm_filling (reserve_one f s)" and "free_set (reserve_one f s) = free_set s - {f}"
    and "highest_frame (reserve_one f s) = highest_frame s" and "refs (reserve_one f s) = refs s"
    and "bitmap_phys (reserve_one f s) = bitmap_phys s"
proof -
  have lay: "pmm_layout s" using assms(1) by (simp add: pmm_filling_def)
  show fs: "free_set (reserve_one f s) = free_set s - {f}"
    using free_set_upd(1) [OF layout_word_bound [OF lay assms(2)]]
    by (auto simp: reserve_one_def free_set_def)
  show "highest_frame (reserve_one f s) = highest_frame s" "refs (reserve_one f s) = refs s"
    "bitmap_phys (reserve_one f s) = bitmap_phys s"
    by (simp_all add: reserve_one_def)
  show "pmm_filling (reserve_one f s)"
  proof (cases "pmm_test s f")
    case True
    with assms show ?thesis by (simp add: pmm_filling_def reserve_one_def)
  next
    case False
    then have f: "f \<in> free_set s" using assms(2) by (simp add: free_set_def)
    then have "card (free_set s) > 0" by (auto simp: card_gt_0_iff)
    then have "of_nat (card (free_set s)) - 1 = (of_nat (card (free_set s - {f})) :: u64)"
      using f by simp
    with False assms layout_upd(1) [OF lay assms(2)] fs show ?thesis
      by (simp add: pmm_filling_def reserve_one_def)
  qed
qed

lemma fold_free_one:
  assumes "pmm_filling s" and "\<forall>f \<in> set fs. f < highest_frame s"
  shows "pmm_filling (fold free_one fs s) \<and> free_set (fold free_one fs s) = free_set s \<union> set fs \<and>
     highest_frame (fold free_one fs s) = highest_frame s \<and> refs (fold free_one fs s) = refs s \<and>
     bitmap_phys (fold free_one fs s) = bitmap_phys s"
  using assms by (induction fs arbitrary: s) (auto simp: free_one_spec)

lemma fold_reserve_one:
  assumes "pmm_filling s" and "\<forall>f \<in> set fs. f < highest_frame s"
  shows "pmm_filling (fold reserve_one fs s) \<and> free_set (fold reserve_one fs s) = free_set s - set fs \<and>
     highest_frame (fold reserve_one fs s) = highest_frame s \<and> refs (fold reserve_one fs s) = refs s \<and>
     bitmap_phys (fold reserve_one fs s) = bitmap_phys s"
  using assms by (induction fs arbitrary: s) (auto simp: reserve_one_spec)

lemma fold_free_region:
  assumes "map_ok mm" and "set es \<subseteq> set mm" and "pmm_filling s"
    and "highest_frame s = frame_of (map_highest mm)"
  shows "pmm_filling (fold free_region es s) \<and>
     free_set (fold free_region es s) = free_set s \<union> {f. \<exists>e \<in> set es. in_region e f} \<and>
     highest_frame (fold free_region es s) = highest_frame s \<and> refs (fold free_region es s) = refs s \<and>
     bitmap_phys (fold free_region es s) = bitmap_phys s"
  using assms(2-)
proof (induction es arbitrary: s)
  case (Cons e es)
  have e: "e \<in> set mm" using Cons.prems by simp
  let ?s = "free_region e s"
  have "pmm_filling ?s \<and> free_set ?s = free_set s \<union> {f. in_region e f} \<and>
     highest_frame ?s = highest_frame s \<and> refs ?s = refs s \<and> bitmap_phys ?s = bitmap_phys s"
  proof (cases "usable e")
    case True
    note sr = set_region_frames [OF assms(1) e True]
    have "\<forall>f \<in> set (region_frames e). f < highest_frame s"
      using in_region_below_highest [OF assms(1) e] sr Cons.prems by auto
    from fold_free_one [OF Cons.prems(2) this] sr True show ?thesis by (simp add: free_region_def)
  next
    case False
    with Cons.prems show ?thesis by (simp add: free_region_def in_region_def)
  qed
  with Cons.IH [of ?s] Cons.prems show ?case by auto
qed simp

lemma filling_all_ones:
  assumes "highest_frame s < 2 ^ 52" and "bitmap_words s = (highest_frame s + 63) div 64"
    and "bitmap s = replicate (bitmap_words s) (- 1)" and "free_frames s = 0"
  shows "pmm_filling s" and "free_set s = {}"
proof -
  have t: "pmm_test s f" if "f < 64 * bitmap_words s" for f
    using that assms(3) by (simp add: pmm_test_def less_mult_imp_div_less mult.commute)
  have "f < 64 * bitmap_words s" if "f < highest_frame s" for f
    using that assms(2) by simp
  then show fs: "free_set s = {}" using t by (auto simp: free_set_def)
  show "pmm_filling s" using assms t fs by (simp add: pmm_filling_def pmm_layout_def)
qed

text \<open>The frames that hold the bitmap itself.\<close>

definition bitmap_frames :: "pmm \<Rightarrow> nat set" where
  "bitmap_frames s = {frame_of (bitmap_phys s) ..<
     frame_of (PAGE_ALIGN_UP (bitmap_phys s + of_nat (bitmap_words s * 8)))}"

lemma placed_bitmap_bound:
  assumes "map_ok mm" and "place_bitmap mm bytes 0 = p" and "p \<noteq> 0"
    and "f < frame_of (PAGE_ALIGN_UP (p + bytes))"
  shows "f < frame_of (map_highest mm)"
proof -
  from place_bitmap_in_region [of mm bytes] assms(2,3) obtain e where
    e: "e \<in> set mm" "usable e" "p = PAGE_ALIGN_UP (base e)"
      "PAGE_ALIGN_DOWN (base e + len e) > p" "PAGE_ALIGN_DOWN (base e + len e) - p \<ge> bytes" by auto
  let ?en = "(unat (base e) + unat (len e)) div 4096 * 4096"
  note re = region_end [OF assms(1) e(1,2)]
  have pe: "unat (PAGE_ALIGN_DOWN (base e + len e)) = ?en" by (simp add: unat_align_down re)
  have "unat bytes \<le> ?en - unat p"
    using e(4,5) pe by (metis less_imp_le unat_sub word_le_nat_alt)
  moreover have pl: "unat p < ?en" using e(4) pe by (simp add: word_less_nat_alt)
  ultimately have sum: "unat p + unat bytes \<le> ?en" by linarith
  have en: "?en < 2 ^ 52" using re(3) div_times_less_eq_dividend [of "unat (base e) + unat (len e)" 4096]
    by linarith
  have u: "unat (p + bytes) = unat p + unat bytes" using sum en by (simp add: unat_word_ariths)
  have "f < (unat p + unat bytes + 4095) div 4096"
    using assms(4) frame_of_align_up [of "p + bytes"] u sum en by simp
  also have "\<dots> \<le> (unat (base e) + unat (len e)) div 4096" 
    using div_le_mono [OF add_right_mono [OF sum, of 4095], of 4096] by simp
  also have "\<dots> \<le> unat (map_highest mm) div 4096"
    using map_highest_fold(2) [OF e(1,2)] re by (simp add: map_highest_def word_le_nat_alt div_le_mono)
  finally show ?thesis
    by (simp add: frame_of_def unat_drop_bit_eq drop_bit_eq_div unat_div)
qed

lemma pmm_fill_spec:
  assumes "map_ok mm" and "bitmap_words s = (highest_frame s + 63) div 64"
    and "highest_frame s = frame_of (map_highest mm)" and "free_frames s = 0" and "refs s = None"
    and "bytes = of_nat (bitmap_words s * 8)" and "bitmap_phys s = place_bitmap mm bytes 0"
    and "bitmap_phys s \<noteq> 0"
  shows "pmm_inv (pmm_fill mm bytes s)"
    and "free_set (pmm_fill mm bytes s) =
      {f. (\<exists>e \<in> set mm. in_region e f) \<and> low_frames \<le> f \<and> f \<notin> bitmap_frames s}"
proof -
  define s1 where "s1 = s\<lparr>bitmap := replicate (bitmap_words s) (- 1)\<rparr>"
  define s2 where "s2 = fold free_region mm s1"
  define s3 where "s3 = fold reserve_one
    [frame_of (bitmap_phys s2) ..< frame_of (PAGE_ALIGN_UP (bitmap_phys s2 + bytes))] s2"
  define s4 where "s4 = fold reserve_one [0 ..< min low_frames (highest_frame s3)] s3"
  have f1: "pmm_filling s1" "free_set s1 = {}"
    using filling_all_ones [of s1] assms frame_of_less by (auto simp: s1_def)
  have f2: "pmm_filling s2 \<and> free_set s2 = {f. \<exists>e \<in> set mm. in_region e f} \<and>
      highest_frame s2 = highest_frame s \<and> refs s2 = None \<and> bitmap_phys s2 = bitmap_phys s"
    using fold_free_region [OF assms(1) order_refl f1(1)] f1(2) assms by (simp add: s2_def s1_def)
  have f3: "pmm_filling s3 \<and> free_set s3 = free_set s2 - bitmap_frames s \<and>
      highest_frame s3 = highest_frame s \<and> refs s3 = None"
    unfolding s3_def using fold_reserve_one [of s2] f2 placed_bitmap_bound [OF assms(1)] assms
    by (auto simp: bitmap_frames_def)
  have f4: "pmm_filling s4 \<and> free_set s4 = free_set s3 - {0 ..< min low_frames (highest_frame s)} \<and>
      highest_frame s4 = highest_frame s \<and> refs s4 = None"
    unfolding s4_def using fold_reserve_one [of s3] f3 by auto
  have fill: "pmm_fill mm bytes s = s4\<lparr>next_hint := 0, ready := True\<rparr>"
    by (simp add: pmm_fill_def Let_def s4_def s3_def s2_def s1_def)
  have below: "f < highest_frame s" if "f \<in> free_set s3" for f
    using that f3 by (simp add: free_set_def)
  have s4': "free_set s4 = {f \<in> free_set s3. low_frames \<le> f}"
    using f4 by (fastforce dest: below)
  show fs: "free_set (pmm_fill mm bytes s) =
      {f. (\<exists>e \<in> set mm. in_region e f) \<and> low_frames \<le> f \<and> f \<notin> bitmap_frames s}"
    using s4' f2 f3 unfolding fill by auto
  show "pmm_inv (pmm_fill mm bytes s)"
    using f4 fs unfolding fill by (auto simp: pmm_inv_def pmm_filling_def low_frames_def)
qed

lemma pmem_zero_frame:
  "pmem (pmm_zero_frame p s) a = (if \<exists>i < 512. a = p + 8 * of_nat i then 0 else pmem s a)"
  by (auto simp: pmm_zero_frame_def fold_zero_words simp del: upt_rec_numeral)

lemma zero_frame_frame [vx_frame, simp]:
  "free_set (pmm_zero_frame p s) = free_set s" "pmm_inv (pmm_zero_frame p s) = pmm_inv s"
  by (simp_all add: pmm_zero_frame_def del: upt_rec_numeral)

section \<open>The interface other components rely on\<close>

text \<open>
  What a client of the frame allocator may assume: a pool of available frames, an allocation
  that either takes one frame out of the pool or reports with 0 that the pool is empty.
\<close>

locale frame_source =
  fixes alloc :: "'s \<Rightarrow> 's \<times> u64"
    and avail :: "'s \<Rightarrow> nat set"
    and good :: "'s \<Rightarrow> bool"
  assumes avail_finite: "good s \<Longrightarrow> finite (avail s)"
    and avail_frame: "good s \<Longrightarrow> f \<in> avail s \<Longrightarrow> 0 < f \<and> f < 2 ^ 52"
    and alloc_none: "good s \<Longrightarrow> alloc s = (s', 0) \<Longrightarrow> s' = s \<and> avail s = {}"
    and alloc_some: "good s \<Longrightarrow> alloc s = (s', p) \<Longrightarrow> p \<noteq> 0 \<Longrightarrow>
      good s' \<and> frame_of p \<in> avail s \<and> phys_of (frame_of p) = p \<and> avail s' = avail s - {frame_of p}"

text \<open>Allocate until \<open>n\<close> frames have been handed out or the source reports failure.\<close>

primrec drain :: "('s \<Rightarrow> 's \<times> u64) \<Rightarrow> nat \<Rightarrow> 's \<Rightarrow> 's \<times> u64 list" where
  "drain alloc 0 s = (s, [])"
| "drain alloc (Suc n) s =
     (let (s1, p) = alloc s in if p = 0 then (s1, [])
      else let (s2, ps) = drain alloc n s1 in (s2, p # ps))"

context frame_source
begin

lemma drain_spec:
  assumes "good s" and "drain alloc n s = (s', ps)"
  shows "good s' \<and> distinct (map frame_of ps) \<and> frame_of ` set ps \<subseteq> avail s \<and>
    avail s' = avail s - frame_of ` set ps \<and> length ps = min n (card (avail s))"
  using assms
proof (induction n arbitrary: s ps)
  case 0
  then show ?case by simp
next
  case (Suc n)
  obtain s1 p where a: "alloc s = (s1, p)" by fastforce
  show ?case
  proof (cases "p = 0")
    case True
    with Suc.prems a alloc_none [OF Suc.prems(1)] show ?thesis by auto
  next
    case False
    note h = alloc_some [OF Suc.prems(1) a False]
    obtain s2 qs where d: "drain alloc n s1 = (s2, qs)" by fastforce
    with False a Suc.prems have eq: "s' = s2" "ps = p # qs" by auto
    have "card (avail s) > 0" "card (avail s1) = card (avail s) - 1"
      using h avail_finite [OF Suc.prems(1)] by (auto simp: card_gt_0_iff)
    moreover have "good s' \<and> distinct (map frame_of qs) \<and> frame_of ` set qs \<subseteq> avail s1 \<and>
      avail s' = avail s1 - frame_of ` set qs \<and> length qs = min n (card (avail s1))"
      using Suc.IH [of s1 qs] h d eq by simp
    ultimately show ?thesis using h eq(2) by auto
  qed
qed

end

interpretation pmm_src: frame_source pmm_alloc_once free_set pmm_inv
proof
  fix s :: pmm and f assume "pmm_inv s"
  then show "finite (free_set s)" by simp
next
  fix s :: pmm and f assume "pmm_inv s" "f \<in> free_set s"
  then show "0 < f \<and> f < 2 ^ 52"
    by (cases "f = 0") (auto simp: pmm_inv_def pmm_layout_def free_set_def)
next
  fix s s' assume s: "pmm_inv s" and a: "pmm_alloc_once s = (s', 0)"
  from s show "s' = s \<and> free_set s = {}"
  proof (cases rule: pmm_alloc_once_cases)
    case (some f s1)
    then have "f < 2 ^ 52" "f \<noteq> 0" using s by (auto simp: pmm_inv_def pmm_layout_def free_set_def)
    with some a show ?thesis by (auto simp: phys_of_eq_0_iff)
  qed (use a in auto)
next
  fix s s' p assume s: "pmm_inv s" and a: "pmm_alloc_once s = (s', p)" "p \<noteq> 0"
  from s show "pmm_inv s' \<and> frame_of p \<in> free_set s \<and> phys_of (frame_of p) = p \<and>
      free_set s' = free_set s - {frame_of p}"
  proof (cases rule: pmm_alloc_once_cases)
    case (some f s1)
    then have "f < 2 ^ 52" using s by (auto simp: pmm_inv_def pmm_layout_def free_set_def)
    with some a show ?thesis by auto
  qed (use a in auto)
qed

section \<open>Properties\<close>

lemma pmm_alloc_once_zeroed:
  assumes "pmm_inv s" and "pmm_alloc_once s = (s', p)" and "p \<noteq> 0"
  shows "pmem s' a = (if \<exists>i < 512. a = p + 8 * of_nat i then 0 else pmem s a)"
  using assms(1)
proof (cases rule: pmm_alloc_once_cases)
  case none
  with assms(2,3) show ?thesis by simp
next
  case (some f s1)
  then have "s' = pmm_zero_frame p s1" and "pmem s1 = pmem s" using assms(2) by simp_all
  then show ?thesis by (simp only: pmem_zero_frame)
qed

lemma funpow_ref_inc:
  assumes "pmm_inv s" and "refs s \<noteq> None" and "frame_of p < highest_frame s"
  shows "pmm_inv ((pmm_ref_inc p ^^ k) s) \<and> free_set ((pmm_ref_inc p ^^ k) s) = free_set s \<and>
    highest_frame ((pmm_ref_inc p ^^ k) s) = highest_frame s \<and> refs ((pmm_ref_inc p ^^ k) s) \<noteq> None \<and>
    (shares s (frame_of p) = 0 \<longrightarrow> shares ((pmm_ref_inc p ^^ k) s) (frame_of p) = min k 65535)"
  using assms by (induction k) (auto simp: pmm_ref_inc_spec)

lemma funpow_free:
  assumes "pmm_inv s" and "0 < frame_of p" and "frame_of p < highest_frame s"
    and "frame_of p \<notin> free_set s"
  shows "pmm_inv ((pmm_free p ^^ j) s) \<and> highest_frame ((pmm_free p ^^ j) s) = highest_frame s \<and>
    shares ((pmm_free p ^^ j) s) (frame_of p) = shares s (frame_of p) - j \<and>
    (frame_of p \<in> free_set ((pmm_free p ^^ j) s) \<longleftrightarrow> shares s (frame_of p) < j)"
  using assms by (induction j) (auto simp: pmm_free_spec less_Suc_eq)

lemma largest_loop_total:
  assumes "pmm_inv s" and "floor \<noteq> 0"
  shows "\<exists>s' p o'. largest_loop floor want s = Some (s', p, o') \<and>
    (p = 0 \<and> o' = None \<and> s' = s \<or>
     (\<exists>n a. o' = Some n \<and> floor \<le> n \<and> n \<le> want \<and> p = phys_of a \<and> p \<noteq> 0 \<and> low_frames \<le> a \<and>
        run_free s a (unat n) \<and> pmm_inv s' \<and> free_set s' = free_set s - {a ..< a + unat n}))"
proof (induction "unat want" arbitrary: want rule: less_induct)
  case less
  show ?case
  proof (cases "want \<ge> floor")
    case False
    then show ?thesis by (subst largest_loop.simps) simp
  next
    case True
    then have w: "want \<noteq> 0" using assms(2) by auto
    from assms(1) w show ?thesis
    proof (cases rule: pmm_alloc_contig_cases)
      case none
      have "unat (want div 2) < unat want" using w by (simp add: unat_div unat_gt_0)
      from less [OF this] none True show ?thesis
        by (subst largest_loop.simps) (fastforce simp: word_le_nat_alt unat_div)
    next
      case (some r s')
      have "r < 2 ^ 52" using some assms(1) by (auto simp: pmm_inv_def pmm_layout_def)
      then have "phys_of r \<noteq> 0" using some(2) by (simp add: phys_of_eq_0_iff low_frames_def)
      with some True show ?thesis by (subst largest_loop.simps) auto
    qed
  qed
qed

text \<open>A small state for the witnesses: 260 frames, of which 257 and 258 are free.\<close>

definition demo_pmm :: pmm where
  "demo_pmm = \<lparr>bitmap = [- 1, - 1, - 1, - 1, - 7], bitmap_phys = 0x100000, bitmap_words = 5,
     total_frames = 4, free_frames = 2, highest_frame = 260, next_hint = 0, ready = True,
     refs = Some (replicate 260 0), pmem = (\<lambda>_. 7), hhdm = 0\<rparr>"

lemma demo_test:
  "f < 256 \<Longrightarrow> pmm_test demo_pmm f" "260 \<le> f \<Longrightarrow> f < 320 \<Longrightarrow> pmm_test demo_pmm f"
proof -
  assume "f < 256"
  then have "f div 64 = 0 \<or> f div 64 = 1 \<or> f div 64 = 2 \<or> f div 64 = 3" by linarith
  then show "pmm_test demo_pmm f" by (auto simp: pmm_test_def demo_pmm_def)
next
  assume f: "260 \<le> f" "f < 320"
  have "list_all (\<lambda>n. bit (- 7 :: u64) n) [4..<64]" by code_simp
  then have "\<forall>n \<in> {4..<64}. bit (- 7 :: u64) n"
    by (simp only: list_all_iff set_upt atLeastLessThan_iff Ball_def)
  moreover have "f div 64 = 4" "f mod 64 \<in> {4..<64}" using f by (auto simp: le_mod_geq)
  ultimately show "pmm_test demo_pmm f" by (auto simp: pmm_test_def demo_pmm_def)
qed

lemma demo_free_set: "free_set demo_pmm = {257, 258}"
proof -
  have "f < 260 \<and> \<not> pmm_test demo_pmm f \<longleftrightarrow> f = 257 \<or> f = 258" for f
  proof (cases "f < 256")
    case False
    then have "f < 260 \<longleftrightarrow> f = 256 \<or> f = 257 \<or> f = 258 \<or> f = 259" by linarith
    then show ?thesis by (auto simp: pmm_test_def demo_pmm_def)
  qed (auto simp: demo_test)
  then show ?thesis by (auto simp: free_set_def demo_pmm_def)
qed

lemma demo_inv: "pmm_inv demo_pmm"
proof -
  have "pmm_layout demo_pmm" using demo_test(2) by (simp add: pmm_layout_def demo_pmm_def)
  then show ?thesis using demo_free_set by (simp add: pmm_inv_def) (simp add: demo_pmm_def)
qed

lemma pmm_bitmap_phys_words [vx_frame]:
  "bitmap_words (free_one f s) = bitmap_words s" "bitmap_words (reserve_one f s) = bitmap_words s"
  "bitmap_phys (free_one f s) = bitmap_phys s" "bitmap_phys (reserve_one f s) = bitmap_phys s"
  by (simp_all add: free_one_def reserve_one_def Let_def)

lemma fold_layout_frame:
  "bitmap_words (fold free_one fs s) = bitmap_words s \<and> bitmap_phys (fold free_one fs s) = bitmap_phys s"
  "bitmap_words (fold reserve_one fs s) = bitmap_words s \<and> bitmap_phys (fold reserve_one fs s) = bitmap_phys s"
  by (induction fs arbitrary: s) (auto simp: vx_frame)

lemma pmm_fill_frame:
  "bitmap_phys (pmm_fill mm bytes s) = bitmap_phys s \<and> bitmap_words (pmm_fill mm bytes s) = bitmap_words s"
proof -
  have "bitmap_words (fold free_region es t) = bitmap_words t \<and>
      bitmap_phys (fold free_region es t) = bitmap_phys t" for es t
    by (induction es arbitrary: t) (auto simp: free_region_def fold_layout_frame)
  then show ?thesis by (simp add: pmm_fill_def Let_def fold_layout_frame)
qed

lemma pmm_alloc_once_highest:
  assumes "pmm_inv s" and "pmm_alloc_once s = (s', p)"
  shows "highest_frame s' = highest_frame s"
proof -
  have pass: "highest_frame t' = highest_frame t" if "pmm_pass t w0 w1 = (t', f)" for t t' w0 w1 f
    using that by (auto simp: pmm_pass_def split: option.splits)
  show ?thesis using assms(2)
    by (auto simp: pmm_alloc_once_def pmm_zero_frame_def Let_def dest!: pass
        split: prod.splits if_splits simp del: upt_rec_numeral)
qed

text \<open>
  C1: \<open>pmm_init\<close> on a memory map within the machine's 52-bit physical address space, from the
  zeroed statics.  When it reports ready, a frame is free exactly when it lies wholly inside
  a usable region, is not one of the bitmap's own frames and is not in the first megabyte,
  and the allocator's invariant holds.
\<close>

theorem pmm_init_free:
  assumes "map_ok mm" and "\<not> ready s" and "bitmap_phys s = 0" and "free_frames s = 0"
    and "refs s = None" and "ready (pmm_init mm off s)"
  shows "pmm_inv (pmm_init mm off s) \<and>
    free_set (pmm_init mm off s) =
      {f. (\<exists>e \<in> set mm. in_region e f) \<and> low_frames \<le> f \<and> f \<notin> bitmap_frames (pmm_init mm off s)}"
proof -
  define t where "t = s\<lparr>hhdm := off, highest_frame := frame_of (map_highest mm),
    bitmap_words := (frame_of (map_highest mm) + 63) div 64,
    bitmap_phys := place_bitmap mm (of_nat ((frame_of (map_highest mm) + 63) div 64 * 8)) 0\<rparr>"
  let ?bytes = "of_nat (bitmap_words t * 8)"
  have i: "pmm_init mm off s = (if bitmap_phys t = 0 then t else pmm_fill mm ?bytes t)"
    using assms(3) by (simp add: pmm_init_def Let_def t_def)
  then have p: "bitmap_phys t \<noteq> 0" using assms(2,6) by (auto simp: t_def)
  note spec = pmm_fill_spec [OF assms(1), of t ?bytes]
  have "bitmap_phys (pmm_fill mm ?bytes t) = bitmap_phys t \<and>
      bitmap_words (pmm_fill mm ?bytes t) = bitmap_words t"
    by (rule pmm_fill_frame)
  then have "bitmap_frames (pmm_fill mm ?bytes t) = bitmap_frames t"
    by (simp add: bitmap_frames_def)
  then show ?thesis using spec p i assms(4,5) by (simp add: t_def)
qed

theorem pmm_init_free_witness:
  "\<exists>mm s. map_ok mm \<and> free_set (pmm_init mm 0 s) = {257 ..< 272} \<and> pmm_inv (pmm_init mm 0 s)"
proof -
  let ?e = "\<lparr>base = 0x100000, len = 0x10000, usable = True\<rparr>"
  let ?s = "demo_pmm\<lparr>ready := False, bitmap_phys := 0, free_frames := 0, refs := None\<rparr>"
  have ok: "map_ok [?e]" by (simp add: map_ok_def)
  have hi: "map_highest [?e] = 0x110000" by (simp add: map_highest_def)
  have fr: "frame_of 0x110000 = 272" "frame_of 0x100000 = 256"
    by (simp_all add: frame_of_def drop_bit_eq_div)
  have up: "PAGE_ALIGN_UP 0x100000 = 0x100000" "PAGE_ALIGN_DOWN 0x110000 = 0x110000"
    "PAGE_ALIGN_UP 0x100028 = 0x101000"
    by (simp_all add: PAGE_ALIGN_UP_def PAGE_ALIGN_DOWN_def PAGE_MASK_def)
  have pl: "place_bitmap [?e] 40 0 = 0x100000" by (simp add: up Let_def)
  have i: "pmm_init [?e] 0 ?s = pmm_fill [?e] 40 (?s\<lparr>hhdm := 0, highest_frame := 272,
      bitmap_words := 5, bitmap_phys := 0x100000\<rparr>)"
    by (simp add: pmm_init_def Let_def hi fr pl del: place_bitmap.simps)
  have "ready (pmm_init [?e] 0 ?s)" unfolding i by (simp add: pmm_fill_def Let_def)
  from pmm_init_free [OF ok _ _ _ _ this] have r: "pmm_inv (pmm_init [?e] 0 ?s)"
    "free_set (pmm_init [?e] 0 ?s) =
      {f. in_region ?e f \<and> low_frames \<le> f \<and> f \<notin> bitmap_frames (pmm_init [?e] 0 ?s)}"
    by simp_all
  have fr2: "frame_of 0x101000 = 257" by (simp add: frame_of_def drop_bit_eq_div)
  have "bitmap_frames (pmm_init [?e] 0 ?s) = {256 ..< 257}"
    unfolding i bitmap_frames_def using pmm_fill_frame by (simp add: fr fr2 up)
  then have "free_set (pmm_init [?e] 0 ?s) = {257 ..< 272}"
    unfolding r(2) by (auto simp: in_region_def low_frames_def)
  with ok r(1) show ?thesis by blast
qed

text \<open>
  C2: under the invariant \<open>pmm_alloc_once\<close> fails only when no frame is free, and then changes
  nothing; otherwise it returns the address of one frame that was free, marks exactly that
  frame used, keeps the invariant (so the counter is right), and the page it returns is all
  zero while the rest of memory is untouched.
\<close>

theorem pmm_alloc_once_correct:
  assumes "pmm_inv s" and "pmm_alloc_once s = (s', p)"
  shows "if p = 0 then s' = s \<and> free_set s = {}
    else pmm_inv s' \<and> frame_of p \<in> free_set s \<and> p = phys_of (frame_of p) \<and>
      free_set s' = free_set s - {frame_of p} \<and>
      (\<forall>a. pmem s' a = (if \<exists>i < 512. a = p + 8 * of_nat i then 0 else pmem s a))"
proof (cases "p = 0")
  case True
  with pmm_src.alloc_none [OF assms(1)] assms(2) show ?thesis by simp
next
  case False
  from pmm_src.alloc_some [OF assms False] pmm_alloc_once_zeroed [OF assms False] False
  show ?thesis by (simp only: if_False simp_thms)
qed

theorem pmm_alloc_once_correct_witness:
  "snd (pmm_alloc_once demo_pmm) = 0x101000 \<and>
   free_set (fst (pmm_alloc_once demo_pmm)) = {258} \<and> pmem (fst (pmm_alloc_once demo_pmm)) 0x101008 = 0"
proof -
  have p: "snd (pmm_alloc_once demo_pmm) = 0x101000" by code_simp
  obtain s' where a: "pmm_alloc_once demo_pmm = (s', 0x101000)" using p by (metis prod.collapse)
  have f: "frame_of 0x101000 = 257" by (simp add: frame_of_def drop_bit_eq_div)
  have "\<exists>i<512. (0x101008 :: u64) = 0x101000 + 8 * of_nat i" by (rule exI [of _ 1]) simp
  with pmm_alloc_once_correct [OF demo_inv a] a f show ?thesis
    by (auto simp: demo_free_set simp del: Ex_less_Suc)
qed


text \<open>
  C3: repeated allocation.  Asking for \<open>n\<close> frames one after the other gives distinct frames,
  all of them free beforehand, and as many as there are: \<open>n\<close>, or every free frame when there
  are fewer.  No frame is handed out twice and none is lost.
\<close>

theorem pmm_alloc_distinct:
  assumes "pmm_inv s" and "drain pmm_alloc_once n s = (s', ps)"
  shows "pmm_inv s' \<and> distinct (map frame_of ps) \<and> frame_of ` set ps \<subseteq> free_set s \<and>
    free_set s' = free_set s - frame_of ` set ps \<and> length ps = min n (card (free_set s))"
  by (rule pmm_src.drain_spec [OF assms])

theorem pmm_alloc_distinct_witness:
  "length (snd (drain pmm_alloc_once 5 demo_pmm)) = 2 \<and>
   free_set (fst (drain pmm_alloc_once 5 demo_pmm)) = {}"
proof -
  obtain s' ps where d: "drain pmm_alloc_once 5 demo_pmm = (s', ps)" by fastforce
  note r = pmm_alloc_distinct [OF demo_inv d, unfolded demo_free_set]
  then have len: "length ps = 2" by simp
  then have "card (frame_of ` set ps) = 2" using r by (metis distinct_card length_map list.set_map)
  moreover have "frame_of ` set ps \<subseteq> {257, 258}" using r by blast
  ultimately have "frame_of ` set ps = {257, 258}" by (intro card_subset_eq) auto
  with r d len show ?thesis by simp
qed

text \<open>
  C4: \<open>pmm_alloc_contig\<close> is first fit above the first megabyte, word skipping included: it
  returns the lowest run of the requested number of free frames, marks exactly that run used
  and keeps the invariant; it returns 0, changing nothing, only when there is no such run.
\<close>

theorem pmm_alloc_contig_first_fit:
  assumes "pmm_inv s" and "frames \<noteq> 0" and "pmm_alloc_contig frames s = (s', p)"
  shows "if p = 0 then s' = s \<and> (\<forall>a. low_frames \<le> a \<longrightarrow> \<not> run_free s a (unat frames))
    else low_frames \<le> frame_of p \<and> run_free s (frame_of p) (unat frames) \<and>
      (\<forall>a. low_frames \<le> a \<and> a < frame_of p \<longrightarrow> \<not> run_free s a (unat frames)) \<and>
      pmm_inv s' \<and> free_set s' = free_set s - {frame_of p ..< frame_of p + unat frames}"
  using assms(1,2)
proof (cases rule: pmm_alloc_contig_cases)
  case none
  with assms(3) show ?thesis by simp
next
  case (some r t)
  then have "r < 2 ^ 52" "r \<noteq> 0" using assms(1) by (auto simp: pmm_inv_def pmm_layout_def low_frames_def)
  with some assms(3) show ?thesis by (auto simp: phys_of_eq_0_iff)
qed

theorem pmm_alloc_contig_first_fit_witness:
  "pmm_inv (fst (pmm_alloc_contig 2 demo_pmm)) \<and> free_set (fst (pmm_alloc_contig 2 demo_pmm)) = {}"
proof -
  have p: "snd (pmm_alloc_contig 2 demo_pmm) = 0x101000" by code_simp
  obtain s' where a: "pmm_alloc_contig 2 demo_pmm = (s', 0x101000)" using p by (metis prod.collapse)
  have f: "frame_of 0x101000 = 257" by (simp add: frame_of_def drop_bit_eq_div)
  have "{257, 258} - {257 ..< 259} = ({} :: nat set)" by auto
  with pmm_alloc_contig_first_fit [OF demo_inv _ a] a f show ?thesis
    by (simp add: demo_free_set)
qed



text \<open>
  C6: sharing.  From a frame with one owner, after \<open>k\<close> calls of \<open>pmm_ref_inc\<close> the \<open>j\<close>-th
  \<open>pmm_free\<close> has released the frame exactly when \<open>j\<close> exceeds \<open>min k 65535\<close>.  Up to 65535 shares
  the frame is freed with its last owner and not before; past that the count has saturated
  but is still counted down, so the frame is freed while owners remain.
\<close>

theorem pmm_shared_release:
  assumes "pmm_inv s" and "refs s \<noteq> None" and "0 < frame_of p" and "frame_of p < highest_frame s"
    and "frame_of p \<notin> free_set s" and "shares s (frame_of p) = 0"
  shows "frame_of p \<in> free_set ((pmm_free p ^^ j) ((pmm_ref_inc p ^^ k) s)) \<longleftrightarrow> min k 65535 < j"
  using funpow_ref_inc [OF assms(1,2,4), of k] funpow_free [of "(pmm_ref_inc p ^^ k) s" p j] assms
  by simp

theorem pmm_shared_release_witness:
  "256 \<notin> free_set ((pmm_free 0x100000 ^^ 3) ((pmm_ref_inc 0x100000 ^^ 3) demo_pmm)) \<and>
   256 \<in> free_set ((pmm_free 0x100000 ^^ 65536) ((pmm_ref_inc 0x100000 ^^ 70000) demo_pmm))"
proof -
  have f: "frame_of 0x100000 = 256" by (simp add: frame_of_def drop_bit_eq_div)
  have "refs demo_pmm \<noteq> None" "shares demo_pmm 256 = 0" "highest_frame demo_pmm = 260"
    by (simp_all add: demo_pmm_def shares_def)
  with pmm_shared_release [OF demo_inv, of "0x100000" 3 3, unfolded f]
    pmm_shared_release [OF demo_inv, of "0x100000" 65536 70000, unfolded f]
  show ?thesis by (simp add: demo_free_set)
qed

text \<open>
  C7: \<open>pmm_alloc_largest\<close> with a positive floor always returns.  It gives nothing and changes
  nothing, or a run of between \<open>floor\<close> and \<open>free_frames - keep\<close> free frames, and then at
  least \<open>keep\<close> frames stay free.
\<close>

theorem pmm_alloc_largest_returns:
  assumes "pmm_inv s" and "floor \<noteq> 0" and "unat keep + unat floor < 2 ^ 64"
  shows "\<exists>s' p o'. pmm_alloc_largest keep floor s = Some (s', p, o') \<and>
    (p = 0 \<and> o' = None \<and> s' = s \<or>
     (\<exists>n a. o' = Some n \<and> floor \<le> n \<and> p = phys_of a \<and> run_free s a (unat n) \<and> pmm_inv s' \<and>
        free_set s' = free_set s - {a ..< a + unat n} \<and> unat keep \<le> card (free_set s')))"
proof (cases "free_frames s \<le> keep + floor")
  case True
  then show ?thesis by (simp add: pmm_alloc_largest_def)
next
  case False
  have rdy: "ready s" using assms(1) by (simp add: pmm_inv_def)
  have kf: "unat (keep + floor) = unat keep + unat floor" using assms(3) by (simp add: unat_word_ariths)
  have u: "unat keep < unat (free_frames s)" using False kf by (simp add: word_le_nat_alt)
  have w: "unat (free_frames s - keep) = card (free_set s) - unat keep"
    using u unat_free_frames [OF assms(1)] by (simp add: unat_sub_if')
  have keep: "unat keep \<le> card (free_set s - {a ..< a + unat n})"
    if "n \<le> free_frames s - keep" for n a
  proof -
    have "unat n \<le> card (free_set s) - unat keep" using that w by (simp add: word_le_nat_alt)
    moreover have "card (free_set s) - card {a ..< a + unat n} \<le> card (free_set s - {a ..< a + unat n})"
      by (rule diff_card_le_card_Diff) simp
    ultimately show ?thesis using u unat_free_frames [OF assms(1)] by simp
  qed
  have eq: "pmm_alloc_largest keep floor s = largest_loop floor (free_frames s - keep) s"
    using False rdy by (simp add: pmm_alloc_largest_def)
  show ?thesis unfolding eq
    using largest_loop_total [OF assms(1,2), of "free_frames s - keep"] keep by fastforce
qed

theorem pmm_alloc_largest_returns_witness:
  "\<exists>s' p o'. pmm_alloc_largest 1 1 demo_pmm = Some (s', p, o') \<and> pmm_inv demo_pmm"
proof -
  have "\<exists>s' p o'. pmm_alloc_largest 1 1 demo_pmm = Some (s', p, o')"
    using pmm_alloc_largest_returns [OF demo_inv, of 1 1] by fastforce
  with demo_inv show ?thesis by simp
qed

end
