(* ===== verification/Kstring.thy ===== *)
theory Kstring
  imports Vx_Prelude "HOL-Library.Sublist"
begin

text \<open>
  The string helpers every kernel object shares (\<^verbatim>\<open>src/include/kernel_shared.h\<close>, section 5).
  A \<open>char *\<close> argument is the list of bytes from the pointer to the end of its buffer; the C
  string in it ends at the first zero byte.  Reading at the end of the list gives a zero
  byte, so every function stops there; on terminated buffers that case never arises.
  A destination buffer is returned whole, with the bytes the code does not write unchanged.
\<close>

section \<open>The functions\<close>

definition hd0 :: "u8 list \<Rightarrow> u8" where
  "hd0 s = (case s of [] \<Rightarrow> 0 | c # _ \<Rightarrow> c)"

fun str_len :: "u8 list \<Rightarrow> nat" where
  "str_len [] = 0"
| "str_len (c # s) = (if c \<noteq> 0 then Suc (str_len s) else 0)"

function str_eq :: "u8 list \<Rightarrow> u8 list \<Rightarrow> bool" where
  "str_eq a b =
     (if hd0 a \<noteq> 0 \<and> hd0 b \<noteq> 0
      then if hd0 a \<noteq> hd0 b then False else str_eq (tl a) (tl b)
      else hd0 a = hd0 b)"
  by pat_completeness auto
termination by (relation "measure (\<lambda>(a, b). length a)") (auto simp: hd0_def split: list.splits)

declare str_eq.simps [simp del]

function str_starts_with :: "u8 list \<Rightarrow> u8 list \<Rightarrow> bool" where
  "str_starts_with s p =
     (if hd0 p \<noteq> 0
      then if hd0 s \<noteq> hd0 p then False else str_starts_with (tl s) (tl p)
      else True)"
  by pat_completeness auto
termination by (relation "measure (\<lambda>(s, p). length p)") (auto simp: hd0_def split: list.splits)

declare str_starts_with.simps [simp del]

text \<open>\<open>n\<close> (the C argument \<open>max\<close>) counts the terminator; the write position and \<open>n\<close> advance together.\<close>

fun str_copy :: "u8 list \<Rightarrow> u8 list \<Rightarrow> nat \<Rightarrow> u8 list" where
  "str_copy [] src n = []"
| "str_copy (d # dst) src n =
     (if hd0 src \<noteq> 0 \<and> 1 < n then hd0 src # str_copy dst (tl src) (n - 1) else 0 # dst)"

definition str_append :: "u8 list \<Rightarrow> u8 list \<Rightarrow> nat \<Rightarrow> u8 list" where
  "str_append dst src n =
     (let len = str_len dst in take len dst @ str_copy (drop len dst) src (n - len))"

text \<open>The digits are produced from the low end into \<open>tmp\<close> and copied out in reverse.\<close>

function uint_tmp :: "nat \<Rightarrow> u8 list" where
  "uint_tmp val = (if val > 0 then of_nat (48 + val mod 10) # uint_tmp (val div 10) else [])"
  by pat_completeness auto
termination by (relation "measure id") auto

declare uint_tmp.simps [simp del]

definition uint_to_str :: "u32 \<Rightarrow> u8 list" where
  "uint_to_str val = (if val = 0 then [48, 0] else rev (uint_tmp (unat val)) @ [0])"

section \<open>The strings the buffers hold\<close>

definition cstr :: "u8 list \<Rightarrow> u8 list" where
  "cstr b = takeWhile (\<lambda>c. c \<noteq> 0) b"

definition bytes :: "string \<Rightarrow> u8 list" where
  "bytes s = map of_char s"

lemma cstr_simps [simp]:
  "cstr [] = []" "cstr (c # s) = (if c = 0 then [] else c # cstr s)"
  by (auto simp: cstr_def)

lemma cstr_no_zero [simp]: "0 \<notin> set (cstr b)"
  by (auto simp: cstr_def dest: set_takeWhileD)

lemma cstr_ident: "0 \<notin> set b \<Longrightarrow> cstr b = b"
  by (induction b) auto

lemma cstr_append_zero: "0 \<notin> set s \<Longrightarrow> cstr (s @ 0 # t) = s"
  by (induction s) auto

lemma str_len_cstr: "str_len b = length (cstr b)"
  by (induction b) auto

lemma str_eq_iff: "str_eq a b \<longleftrightarrow> cstr a = cstr b"
proof (induction a b rule: str_eq.induct)
  case (1 a b)
  then show ?case
    by (subst str_eq.simps) (cases a; cases b; auto simp: hd0_def)
qed

lemma str_starts_with_iff: "str_starts_with s p \<longleftrightarrow> prefix (cstr p) (cstr s)"
proof (induction s p rule: str_starts_with.induct)
  case (1 s p)
  then show ?case
    by (subst str_starts_with.simps) (cases s; cases p; auto simp: hd0_def)
qed

lemma length_str_copy [simp]: "length (str_copy dst src n) = length dst"
  by (induction dst src n rule: str_copy.induct) auto

lemma cstr_str_copy:
  "0 < n \<Longrightarrow> n \<le> length dst \<Longrightarrow> cstr (str_copy dst src n) = take (n - 1) (cstr src)"
proof (induction dst src n rule: str_copy.induct)
  case (2 d dst src n)
  then obtain m where n: "n = Suc m" by (cases n) auto
  with 2 show ?case by (cases src; cases m) (auto simp: hd0_def)
qed simp

lemma cstr_take_len: "take (length (cstr b)) b = cstr b"
  by (induction b) auto

lemma length_str_append [simp]: "length (str_append dst src n) = length dst"
  by (simp add: str_append_def Let_def)

lemma cstr_append_no_zero: "0 \<notin> set s \<Longrightarrow> cstr (s @ t) = s @ cstr t"
  by (induction s) auto

lemma cstr_str_append:
  assumes "length (cstr dst) < n" and "n \<le> length dst"
  shows "cstr (str_append dst src n) = take (n - 1) (cstr dst @ cstr src)"
proof -
  have "str_append dst src n =
      cstr dst @ str_copy (drop (length (cstr dst)) dst) src (n - length (cstr dst))"
    by (simp add: str_append_def Let_def str_len_cstr cstr_take_len)
  also have "cstr \<dots> = cstr dst @ cstr (str_copy (drop (length (cstr dst)) dst) src (n - length (cstr dst)))"
    by (simp add: cstr_append_no_zero)
  also have "\<dots> = cstr dst @ take (n - length (cstr dst) - 1) (cstr src)"
    using assms by (simp add: cstr_str_copy)
  also have "\<dots> = take (n - 1) (cstr dst @ cstr src)"
    using assms by simp
  finally show ?thesis .
qed

end
