(* ===== verification/Scanner.thy ===== *)
theory Scanner
  imports Kstring
begin

text \<open>
  The signature scanner of \<^verbatim>\<open>src/src/security/anti_virus.c\<close>: the trie of the signatures, the
  breadth-first pass that computes fail links and turns the trie into a transition table, the
  one-lookup-per-byte scan, the direct search kept as reference, and \<open>scan_buffer\<close>.

  A signature is its name and the bytes before the terminator of its pattern.  The node pool
  is a list whose length is \<open>ac_count\<close>; the 256-way table of a node is a function of the byte;
  the 16-bit node numbers are \<open>int\<close>s, as they stay between -1 and 255.  The queue of the
  breadth-first pass is the list of the entries between \<open>head\<close> and \<open>tail\<close>.
\<close>

section \<open>Signatures and nodes\<close>

record scan_sig =
  name :: "u8 list"
  pat :: "u8 list"

definition scan_sigs :: "scan_sig list" where
  "scan_sigs =
    [\<lparr>name = bytes ''EICAR-Test-File'',
      pat = [0x58,0x35,0x4F,0x21,0x50,0x25,0x40,0x41,0x50,0x5B,0x34,0x5C,0x50,0x5A,0x58,0x35,0x34,
             0x28,0x50,0x5E,0x29,0x37,0x43,0x43,0x29,0x37,0x7D,0x24,0x45,0x49,0x43,0x41,0x52]\<rparr>,
     \<lparr>name = bytes ''Vextro-Test-Marker'', pat = bytes ''VEXTRO-SCANNER-TEST-PATTERN''\<rparr>]"

record ac_node =
  nxt :: "u8 \<Rightarrow> int"
  fail :: int
  accept :: int

definition AC_MAX_NODES :: nat where "AC_MAX_NODES = 256"

definition all_bytes :: "u8 list" where "all_bytes = map of_nat [0..<256]"

definition new_node :: ac_node where
  "new_node = \<lparr>nxt = (\<lambda>_. - 1), fail = 0, accept = - 1\<rparr>"

section \<open>Building the automaton\<close>

text \<open>One pattern walked into the trie; \<open>None\<close> when the pool is full.\<close>

fun ac_insert :: "u8 list \<Rightarrow> nat \<Rightarrow> ac_node list \<Rightarrow> (ac_node list \<times> nat) option" where
  "ac_insert [] node ns = Some (ns, node)"
| "ac_insert (c # cs) node ns =
     (if nxt (ns ! node) c < 0
      then if length ns \<ge> AC_MAX_NODES then None
           else ac_insert cs (length ns)
                  (ns[node := (ns ! node)\<lparr>nxt := (nxt (ns ! node))(c := int (length ns))\<rparr>] @ [new_node])
      else ac_insert cs (nat (nxt (ns ! node) c)) ns)"

fun ac_insert_all :: "nat \<Rightarrow> scan_sig list \<Rightarrow> ac_node list \<Rightarrow> ac_node list option" where
  "ac_insert_all s [] ns = Some ns"
| "ac_insert_all s (sg # sgs) ns =
     (case ac_insert (pat sg) 0 ns of
        None \<Rightarrow> None
      | Some (ns, node) \<Rightarrow>
          ac_insert_all (Suc s) sgs
            (if node = 0 then ns
             else if accept (ns ! node) < 0 \<or> accept (ns ! node) > int s
             then ns[node := (ns ! node)\<lparr>accept := int s\<rparr>] else ns))"

definition ac_root_edge :: "u8 \<Rightarrow> ac_node list \<times> nat list \<Rightarrow> ac_node list \<times> nat list" where
  "ac_root_edge c = (\<lambda>(ns, q).
     let v = nxt (ns ! 0) c
     in if v < 0 then (ns[0 := (ns ! 0)\<lparr>nxt := (nxt (ns ! 0))(c := 0)\<rparr>], q)
        else (ns[nat v := (ns ! nat v)\<lparr>fail := 0\<rparr>], q @ [nat v]))"

definition ac_edge :: "nat \<Rightarrow> u8 \<Rightarrow> ac_node list \<times> nat list \<Rightarrow> ac_node list \<times> nat list" where
  "ac_edge u c = (\<lambda>(ns, q).
     let v = nxt (ns ! u) c;
         w = nxt (ns ! nat (fail (ns ! u))) c
     in if v < 0 then (ns[u := (ns ! u)\<lparr>nxt := (nxt (ns ! u))(c := w)\<rparr>], q)
        else (ns[nat v := (ns ! nat v)\<lparr>fail := w\<rparr>], q @ [nat v]))"

definition ac_inherit :: "nat \<Rightarrow> ac_node list \<Rightarrow> ac_node list" where
  "ac_inherit u ns =
     (let fmatch = accept (ns ! nat (fail (ns ! u)))
      in if fmatch \<ge> 0 \<and> (accept (ns ! u) < 0 \<or> accept (ns ! u) > fmatch)
         then ns[u := (ns ! u)\<lparr>accept := fmatch\<rparr>] else ns)"

definition ac_visit :: "nat \<Rightarrow> ac_node list \<Rightarrow> nat list \<Rightarrow> ac_node list \<times> nat list" where
  "ac_visit u ns q = fold (ac_edge u) all_bytes (ac_inherit u ns, q)"

partial_function (option) ac_bfs :: "nat list \<Rightarrow> ac_node list \<Rightarrow> ac_node list option" where
  "ac_bfs q ns =
     (case q of
        [] \<Rightarrow> Some ns
      | u # rest \<Rightarrow> ac_bfs (snd (ac_visit u ns rest)) (fst (ac_visit u ns rest)))"

text \<open>
  The outer option is whether the loop ends; the inner one is the code's result, \<open>None\<close> when
  the patterns do not fit the pool.
\<close>

definition ac_build :: "scan_sig list \<Rightarrow> ac_node list option option" where
  "ac_build sigs =
     (case ac_insert_all 0 sigs [new_node] of
        None \<Rightarrow> Some None
      | Some ns \<Rightarrow>
          (let (ns, q) = fold ac_root_edge all_bytes (ns, [])
           in case ac_bfs q ns of None \<Rightarrow> None | Some ns \<Rightarrow> Some (Some ns)))"

section \<open>Scanning\<close>

fun scan_loop :: "ac_node list \<Rightarrow> u8 list \<Rightarrow> nat \<Rightarrow> int \<Rightarrow> int" where
  "scan_loop ns [] state best = best"
| "scan_loop ns (b # data) state best =
     (let state = nat (nxt (ns ! state) b);
          m = accept (ns ! state)
      in if m \<ge> 0 \<and> (best < 0 \<or> m < best)
         then if m = 0 then m else scan_loop ns data state m
         else scan_loop ns data state best)"

definition scan_signatures_ac :: "ac_node list \<Rightarrow> u8 list \<Rightarrow> int" where
  "scan_signatures_ac ns data = scan_loop ns data 0 (- 1)"

text \<open>The direct search: how many bytes of the pattern agree, then every offset in turn.\<close>

fun match_len :: "u8 list \<Rightarrow> u8 list \<Rightarrow> nat" where
  "match_len (p # ps) (d # ds) = (if d = p then Suc (match_len ps ds) else 0)"
| "match_len _ _ = 0"

fun find_from :: "u8 list \<Rightarrow> u8 list \<Rightarrow> bool" where
  "find_from p [] \<longleftrightarrow> length p \<le> 0 \<and> match_len p [] = length p"
| "find_from p (d # ds) \<longleftrightarrow>
     length p \<le> Suc (length ds) \<and> (match_len p (d # ds) = length p \<or> find_from p ds)"

text \<open>\<open>(int)len\<close> is the buffer length read as a signed 32-bit number.\<close>

fun direct_loop :: "nat \<Rightarrow> scan_sig list \<Rightarrow> u8 list \<Rightarrow> int" where
  "direct_loop s [] data = - 1"
| "direct_loop s (sg # sgs) data =
     (if sint (of_nat (length data) :: u32) < int (length (pat sg)) then direct_loop (Suc s) sgs data
      else if find_from (pat sg) data then int s
      else direct_loop (Suc s) sgs data)"

definition scan_signatures_direct :: "scan_sig list \<Rightarrow> u8 list \<Rightarrow> int" where
  "scan_signatures_direct sigs data = direct_loop 0 sigs data"

datatype scan_result = SCAN_CLEAN | SCAN_SIGNATURE | SCAN_MALFORMED

record av =
  ac_nodes :: "ac_node list"
  ac_ready :: bool
  ac_overflow :: bool
  scan_detail :: "u8 list"

definition av_init :: "scan_sig list \<Rightarrow> av \<Rightarrow> av option" where
  "av_init sigs a =
     (if ac_ready a \<or> ac_overflow a then Some a
      else case ac_build sigs of
        None \<Rightarrow> None
      | Some (Some ns) \<Rightarrow> Some (a\<lparr>ac_nodes := ns, ac_ready := True\<rparr>)
      | Some None \<Rightarrow> Some (a\<lparr>ac_overflow := True\<rparr>))"

definition le32 :: "u8 \<Rightarrow> u8 \<Rightarrow> u8 \<Rightarrow> u8 \<Rightarrow> u32" where
  "le32 a b c d = ucast a OR push_bit 8 (ucast b) OR push_bit 16 (ucast c) OR push_bit 24 (ucast d)"

definition scan_structure :: "u8 list \<Rightarrow> av \<Rightarrow> scan_result \<times> av" where
  "scan_structure data a =
     (let len = of_nat (length data) :: u32;
          claimed = le32 (data ! 8) (data ! 9) (data ! 10) (data ! 11)
      in if len \<ge> 16 \<and> claimed > len \<and> claimed < 0x10000000
         then (SCAN_MALFORMED, a\<lparr>scan_detail :=
                 str_copy (scan_detail a) (bytes ''declared size exceeds the file'') 64\<rparr>)
         else (SCAN_CLEAN, a))"

definition scan_buffer :: "scan_sig list \<Rightarrow> u8 list \<Rightarrow> av \<Rightarrow> (scan_result \<times> av) option" where
  "scan_buffer sigs data a =
     (let a = a\<lparr>scan_detail := (scan_detail a)[0 := 0]\<rparr>
      in case (if \<not> ac_ready a \<and> \<not> ac_overflow a then av_init sigs a else Some a) of
           None \<Rightarrow> None
         | Some a \<Rightarrow>
             (let hit = (if ac_ready a then scan_signatures_ac (ac_nodes a) data
                         else scan_signatures_direct sigs data)
              in Some (if hit \<ge> 0
                       then (SCAN_SIGNATURE,
                             a\<lparr>scan_detail := str_copy (scan_detail a) (name (sigs ! nat hit)) 64\<rparr>)
                       else scan_structure data a)))"

end
