(* ===== verification/Scanner_Correct.thy ===== *)
theory Scanner_Correct
  imports Scanner
begin

text \<open>
  Correctness of the signature scanner: the automaton that \<open>ac_build\<close> produces reports, on every
  buffer, the lowest-numbered signature that occurs in it, as the direct search does.
\<close>

section \<open>The lowest index with a property\<close>

fun first_idx :: "('a \<Rightarrow> bool) \<Rightarrow> 'a list \<Rightarrow> int" where
  "first_idx P [] = - 1"
| "first_idx P (x # xs) = (if P x then 0 else if first_idx P xs < 0 then - 1 else first_idx P xs + 1)"

lemma first_idx_ge: "- 1 \<le> first_idx P xs"
  by (induction xs) auto

lemma first_idx_neg_iff: "first_idx P xs < 0 \<longleftrightarrow> (\<forall>x \<in> set xs. \<not> P x)"
  using first_idx_ge [of P] by (induction xs) (auto simp: not_less)

lemma first_idx_neg_eq: "first_idx P xs < 0 \<Longrightarrow> first_idx P xs = - 1"
  using first_idx_ge [of P xs] by linarith

lemma first_idx_nth: "0 \<le> first_idx P xs \<Longrightarrow> nat (first_idx P xs) < length xs \<and> P (xs ! nat (first_idx P xs))"
  by (induction xs) (auto simp: nat_add_distrib split: if_splits)

lemma first_idx_least: "0 \<le> first_idx P xs \<Longrightarrow> j < nat (first_idx P xs) \<Longrightarrow> \<not> P (xs ! j)"
  by (induction xs arbitrary: j) (auto simp: nth_Cons' split: if_splits)

lemma first_idx_snoc:
  "first_idx P (xs @ [x]) =
     (if first_idx P xs < 0 then if P x then int (length xs) else - 1 else first_idx P xs)"
  using first_idx_ge [of P] by (induction xs) (auto simp: not_less)

lemma first_idx_cong: "(\<And>x. x \<in> set xs \<Longrightarrow> P x = Q x) \<Longrightarrow> first_idx P xs = first_idx Q xs"
  by (induction xs) auto

lemma first_idx_eq_0: "first_idx P xs = 0 \<Longrightarrow> (\<And>x. P x \<Longrightarrow> Q x) \<Longrightarrow> first_idx Q xs = 0"
  by (cases xs) (auto split: if_splits)

text \<open>The smaller of two table indices, where a negative one means none.\<close>

definition lower :: "int \<Rightarrow> int \<Rightarrow> int" where
  "lower a b = (if a < 0 then b else if b < 0 then a else min a b)"

lemma first_idx_disj: "first_idx (\<lambda>x. P x \<or> Q x) xs = lower (first_idx P xs) (first_idx Q xs)"
  using first_idx_ge [of P] first_idx_ge [of Q]
  by (induction xs) (auto simp: lower_def min_def not_less)

section \<open>Longest suffix in a prefix-closed set of strings\<close>

text \<open>\<open>ws ! n\<close> is the string that leads from the root to node \<open>n\<close>.\<close>

definition trie_words :: "'a list list \<Rightarrow> bool" where
  "trie_words ws \<longleftrightarrow> ws \<noteq> [] \<and> ws ! 0 = [] \<and> distinct ws \<and>
     (\<forall>w c. w @ [c] \<in> set ws \<longrightarrow> w \<in> set ws)"

fun lsuf :: "'a list set \<Rightarrow> 'a list \<Rightarrow> 'a list" where
  "lsuf W [] = []"
| "lsuf W (x # xs) = (if x # xs \<in> W then x # xs else lsuf W xs)"

lemma lsuf_suffix: "suffix (lsuf W w) w"
  by (induction w) (auto simp: suffix_Cons)

lemma lsuf_in: "[] \<in> W \<Longrightarrow> lsuf W w \<in> W"
  by (induction w) auto

lemma lsuf_longest: "v \<in> W \<Longrightarrow> suffix v w \<Longrightarrow> suffix v (lsuf W w)"
  by (induction w) (auto simp: suffix_Cons)

lemma lsuf_ident: "w \<in> W \<Longrightarrow> lsuf W w = w"
  by (cases w) auto

lemma lsuf_snoc:
  assumes "\<And>v d. v @ [d] \<in> W \<Longrightarrow> v \<in> W" and "[] \<in> W"
  shows "lsuf W (w @ [c]) = lsuf W (lsuf W w @ [c])"
proof (rule suffix_order.antisym)
  let ?a = "lsuf W (w @ [c])" and ?b = "lsuf W (lsuf W w @ [c])"
  have "suffix (lsuf W w @ [c]) (w @ [c])" using lsuf_suffix [of W w] by simp
  then have "suffix ?b (w @ [c])" using lsuf_suffix suffix_order.trans by blast
  then show "suffix ?b ?a" using lsuf_longest lsuf_in assms(2) by blast
  show "suffix ?a ?b"
  proof (cases "?a" rule: rev_cases)
    case (snoc v d)
    have "suffix (v @ [d]) (w @ [c])" using lsuf_suffix [of W "w @ [c]"] snoc by simp
    then have "d = c" "suffix v w" by auto
    moreover have "v @ [c] \<in> W" using lsuf_in [OF assms(2), of "w @ [c]"] snoc \<open>d = c\<close> by simp
    moreover from this have "v \<in> W" by (rule assms(1))
    ultimately have "suffix v (lsuf W w)" using lsuf_longest by blast
    then have "suffix (v @ [c]) (lsuf W w @ [c])" by simp
    with \<open>v @ [c] \<in> W\<close> \<open>d = c\<close> snoc show ?thesis using lsuf_longest by force
  qed simp
qed

lemma trie_words_closed:
  assumes "trie_words ws"
  shows "[] \<in> set ws" and "v @ [d] \<in> set ws \<Longrightarrow> v \<in> set ws"
  using assms nth_mem [of 0 ws] by (auto simp: trie_words_def)

lemma trie_words_lsuf_snoc:
  "trie_words ws \<Longrightarrow> lsuf (set ws) (w @ [c]) = lsuf (set ws) (lsuf (set ws) w @ [c])"
  using trie_words_closed lsuf_snoc by metis

section \<open>The trie\<close>

definition node_is :: "'a list list \<Rightarrow> int \<Rightarrow> 'a list \<Rightarrow> bool" where
  "node_is ws x w \<longleftrightarrow> 0 \<le> x \<and> nat x < length ws \<and> ws ! nat x = w"

lemma node_is_append: "node_is ws x w \<Longrightarrow> node_is (ws @ vs) x w"
  by (auto simp: node_is_def nth_append)

definition trie_edge :: "u8 list list \<Rightarrow> nat \<Rightarrow> u8 \<Rightarrow> int \<Rightarrow> bool" where
  "trie_edge ws n c x \<longleftrightarrow> (if x < 0 then x = - 1 \<and> ws ! n @ [c] \<notin> set ws else node_is ws x (ws ! n @ [c]))"

definition trie_ok :: "ac_node list \<Rightarrow> u8 list list \<Rightarrow> bool" where
  "trie_ok ns ws \<longleftrightarrow> length ns = length ws \<and> trie_words ws \<and>
     (\<forall>n < length ws. \<forall>c. trie_edge ws n c (nxt (ns ! n) c))"

lemma trie_ok_new: "trie_ok [new_node] [[]]"
  by (auto simp: trie_ok_def trie_words_def trie_edge_def new_node_def)

lemma trie_ok_extend:
  assumes "trie_ok ns ws" and "node < length ws" and "nxt (ns ! node) c < 0"
  shows "trie_ok (ns[node := (ns ! node)\<lparr>nxt := (nxt (ns ! node))(c := int (length ns))\<rparr>] @ [new_node])
           (ws @ [ws ! node @ [c]])"
proof -
  let ?w = "ws ! node @ [c]" and ?ws = "ws @ [ws ! node @ [c]]"
  let ?ns = "ns[node := (ns ! node)\<lparr>nxt := (nxt (ns ! node))(c := int (length ns))\<rparr>] @ [new_node]"
  have len: "length ns = length ws" and tw: "trie_words ws"
    and edge: "\<And>n d. n < length ws \<Longrightarrow> trie_edge ws n d (nxt (ns ! n) d)"
    using assms(1) by (auto simp: trie_ok_def)
  have new: "?w \<notin> set ws" using edge [OF assms(2), of c] assms(3) by (simp add: trie_edge_def)
  have tw': "trie_words ?ws"
    using tw new assms(2) by (auto simp: trie_words_def nth_append)
  have "trie_edge ?ws n d (nxt (?ns ! n) d)" if "n < length ?ws" for n d
  proof (cases "n = length ws")
    case True
    have "?w @ [d] \<notin> set ws" using new trie_words_closed(2) [OF tw] by blast
    then show ?thesis using True len by (simp add: trie_edge_def new_node_def nth_append)
  next
    case False
    then have n: "n < length ws" using that by simp
    note e = edge [OF n, of d]
    show ?thesis
    proof (cases "n = node \<and> d = c")
      case True
      then show ?thesis using n len by (simp add: trie_edge_def node_is_def nth_append)
    next
      case False
      have eq: "nxt (?ns ! n) d = nxt (ns ! n) d"
        using False n len by (cases "n = node") (auto simp: nth_append)
      have "ws ! n @ [d] \<noteq> ?w"
        using False n assms(2) tw by (auto simp: trie_words_def nth_eq_iff_index_eq)
      then show ?thesis unfolding eq using e n
        by (auto simp: trie_edge_def nth_append intro: node_is_append)
    qed
  qed
  then show ?thesis using len tw' by (simp add: trie_ok_def)
qed

lemma ac_insert_spec:
  assumes "trie_ok ns ws" and "node < length ws" and "ac_insert cs node ns = Some (ns', node')"
  shows "\<exists>vs. trie_ok ns' (ws @ vs) \<and> node' < length (ws @ vs) \<and> (ws @ vs) ! node' = ws ! node @ cs \<and>
    map accept ns' = map accept ns @ replicate (length vs) (- 1)"
  using assms
proof (induction cs arbitrary: node ns ws)
  case Nil
  then show ?case by (intro exI [of _ "[]"]) simp
next
  case (Cons c cs)
  have len: "length ns = length ws" using Cons.prems(1) by (simp add: trie_ok_def)
  show ?case
  proof (cases "nxt (ns ! node) c < 0")
    case True
    let ?ns = "ns[node := (ns ! node)\<lparr>nxt := (nxt (ns ! node))(c := int (length ns))\<rparr>] @ [new_node]"
    let ?ws = "ws @ [ws ! node @ [c]]"
    have "ac_insert cs (length ns) ?ns = Some (ns', node')"
      using Cons.prems(3) True by (simp split: if_splits)
    from Cons.IH [OF trie_ok_extend [OF Cons.prems(1,2) True] _ this] len
    obtain vs where vs: "trie_ok ns' (?ws @ vs)" "node' < length (?ws @ vs)"
      "(?ws @ vs) ! node' = ?ws ! length ns @ cs"
      "map accept ns' = map accept ?ns @ replicate (length vs) (- 1)"
      by auto
    have "map accept ?ns = map accept ns @ [- 1]"
      using Cons.prems(2) len
      by (simp add: map_update new_node_def) (simp add: list_update_same_conv)
    with vs len Cons.prems(2) show ?thesis
      by (intro exI [of _ "(ws ! node @ [c]) # vs"]) (simp add: nth_append)
  next
    case False
    have e: "node_is ws (nxt (ns ! node) c) (ws ! node @ [c])"
      using Cons.prems(1,2) False unfolding trie_ok_def trie_edge_def by (metis (full_types))
    have "ac_insert cs (nat (nxt (ns ! node) c)) ns = Some (ns', node')"
      using Cons.prems(3) False by simp
    from Cons.IH [OF Cons.prems(1) _ this] e show ?thesis by (auto simp: node_is_def)
  qed
qed

text \<open>The accepting index of a node before fail links: the lowest signature that ends there.\<close>

definition accept_exact :: "ac_node list \<Rightarrow> u8 list list \<Rightarrow> u8 list list \<Rightarrow> bool" where
  "accept_exact ns ws pats \<longleftrightarrow> set pats \<subseteq> set ws \<and>
     (\<forall>n < length ws. accept (ns ! n) = first_idx (\<lambda>p. p \<noteq> [] \<and> p = ws ! n) pats)"

lemma ac_insert_all_spec:
  assumes "trie_ok ns ws" and "accept_exact ns ws pats" and "ac_insert_all (length pats) sgs ns = Some ns'"
  shows "\<exists>ws'. trie_ok ns' ws' \<and> accept_exact ns' ws' (pats @ map pat sgs)"
  using assms
proof (induction sgs arbitrary: ns ws pats)
  case Nil
  then show ?case by auto
next
  case (Cons sg sgs)
  from Cons.prems(3) obtain ns1 node where ins: "ac_insert (pat sg) 0 ns = Some (ns1, node)"
    by (auto split: option.splits)
  have len: "length ns = length ws" and tw: "trie_words ws"
    using Cons.prems(1) by (simp_all add: trie_ok_def)
  have root: "0 < length ws" "ws ! 0 = []" using tw by (auto simp: trie_words_def)
  from ac_insert_spec [OF Cons.prems(1) root(1) ins] root obtain vs where
    vs: "trie_ok ns1 (ws @ vs)" "node < length (ws @ vs)" "(ws @ vs) ! node = pat sg"
      "map accept ns1 = map accept ns @ replicate (length vs) (- 1)" by auto
  let ?ws = "ws @ vs"
  have len1: "length ns1 = length ?ws" and tw1: "trie_words ?ws" using vs(1) by (simp_all add: trie_ok_def)
  have acc1: "accept (ns1 ! n) = first_idx (\<lambda>p. p \<noteq> [] \<and> p = ?ws ! n) pats" if "n < length ?ws" for n
  proof -
    have "accept (ns1 ! n) = (map accept ns @ replicate (length vs) (- 1)) ! n"
      using that len1 vs(4) by (metis nth_map)
    also have "\<dots> = first_idx (\<lambda>p. p \<noteq> [] \<and> p = ?ws ! n) pats"
    proof (cases "n < length ws")
      case True
      with Cons.prems(2) len show ?thesis by (simp add: nth_append accept_exact_def)
    next
      case False
      then have "?ws ! n \<notin> set ws" using that tw1 by (auto simp: trie_words_def nth_append)
      then have "first_idx (\<lambda>p. p \<noteq> [] \<and> p = ?ws ! n) pats < 0"
        using Cons.prems(2) by (auto simp: first_idx_neg_iff accept_exact_def)
      then show ?thesis using False that len by (simp add: nth_append first_idx_neg_eq)
    qed
    finally show ?thesis .
  qed
  let ?ns = "if node = 0 then ns1 else if accept (ns1 ! node) < 0 \<or> accept (ns1 ! node) > int (length pats)
    then ns1[node := (ns1 ! node)\<lparr>accept := int (length pats)\<rparr>] else ns1"
  have ok: "trie_ok ?ns ?ws"
    using vs(1,2) len1 by (auto simp: trie_ok_def nth_list_update)
  have node0: "node = 0 \<longleftrightarrow> pat sg = []"
    using vs(2,3) tw1 root by (auto simp: trie_words_def nth_append nth_eq_iff_index_eq)
      (metis append_is_Nil_conv distinct_conv_nth length_append length_greater_0_conv nth_append tw1 trie_words_def)
  have bound: "accept (ns1 ! node) < int (length pats) \<or> accept (ns1 ! node) < 0"
    using acc1 [OF vs(2)] first_idx_nth [of "\<lambda>p. p \<noteq> [] \<and> p = ?ws ! node" pats] by linarith
  have "accept_exact ?ns ?ws (pats @ [pat sg])"
  proof -
    have "accept (?ns ! n) = first_idx (\<lambda>p. p \<noteq> [] \<and> p = ?ws ! n) (pats @ [pat sg])" if n: "n < length ?ws" for n
    proof (cases "n = node")
      case True
      then show ?thesis using n len1 vs(2,3) acc1 [OF n] node0 bound by (auto simp: first_idx_snoc first_idx_neg_eq)
    next
      case False
      then have "?ws ! n \<noteq> pat sg" using n vs(2,3) tw1 by (metis nth_eq_iff_index_eq trie_words_def)
      then show ?thesis using False acc1 [OF n] by (auto simp: first_idx_snoc first_idx_neg_eq)
    qed
    moreover have "set (pats @ [pat sg]) \<subseteq> set ?ws"
      using Cons.prems(2) vs(2,3) by (auto simp: accept_exact_def) (metis nth_mem set_append Un_iff length_append)
    ultimately show ?thesis by (simp add: accept_exact_def)
  qed
  from Cons.IH [OF ok this] Cons.prems(3) ins show ?case by (simp split: if_splits)
qed

section \<open>One node's edges\<close>

text \<open>The two edge loops share this shape: \<open>h c\<close> is where a missing edge leads.\<close>

definition gen_edge :: "nat \<Rightarrow> (u8 \<Rightarrow> int) \<Rightarrow> u8 \<Rightarrow> ac_node list \<times> nat list \<Rightarrow> ac_node list \<times> nat list" where
  "gen_edge u h c = (\<lambda>(ns, q).
     let v = nxt (ns ! u) c
     in if v < 0 then (ns[u := (ns ! u)\<lparr>nxt := (nxt (ns ! u))(c := h c)\<rparr>], q)
        else (ns[nat v := (ns ! nat v)\<lparr>fail := h c\<rparr>], q @ [nat v]))"

definition edges_done :: "nat \<Rightarrow> (u8 \<Rightarrow> int) \<Rightarrow> u8 list \<Rightarrow> ac_node list \<Rightarrow> nat list \<Rightarrow>
    ac_node list \<Rightarrow> nat list \<Rightarrow> bool" where
  "edges_done u h cs ns q ns' q' \<longleftrightarrow> length ns' = length ns \<and>
     nxt (ns' ! u) = (\<lambda>c. if c \<in> set cs \<and> nxt (ns ! u) c < 0 then h c else nxt (ns ! u) c) \<and>
     (\<forall>w < length ns. w \<noteq> u \<longrightarrow> nxt (ns' ! w) = nxt (ns ! w)) \<and>
     (\<forall>w < length ns. accept (ns' ! w) = accept (ns ! w)) \<and>
     (\<forall>c \<in> set cs. 0 \<le> nxt (ns ! u) c \<longrightarrow> fail (ns' ! nat (nxt (ns ! u) c)) = h c) \<and>
     (\<forall>w < length ns. (\<forall>c \<in> set cs. nxt (ns ! u) c \<noteq> int w) \<longrightarrow> fail (ns' ! w) = fail (ns ! w)) \<and>
     q' = q @ map (\<lambda>c. nat (nxt (ns ! u) c)) (filter (\<lambda>c. 0 \<le> nxt (ns ! u) c) cs)"

text \<open>The children of \<open>u\<close> are nodes of the pool, different from \<open>u\<close> and from each other.\<close>

definition good_children :: "nat \<Rightarrow> ac_node list \<Rightarrow> bool" where
  "good_children u ns \<longleftrightarrow> u < length ns \<and>
     (\<forall>c. 0 \<le> nxt (ns ! u) c \<longrightarrow> nat (nxt (ns ! u) c) < length ns \<and> nat (nxt (ns ! u) c) \<noteq> u) \<and>
     (\<forall>c d. 0 \<le> nxt (ns ! u) c \<longrightarrow> nxt (ns ! u) c = nxt (ns ! u) d \<longrightarrow> c = d)"

lemma gen_edge_step:
  assumes "good_children u ns" and "edges_done u h cs ns q ns' q'" and "c \<notin> set cs"
    and "gen_edge u h c (ns', q') = (ns2, q2)"
  shows "edges_done u h (cs @ [c]) ns q ns2 q2"
proof -
  have eq: "nxt (ns' ! u) c = nxt (ns ! u) c" using assms(2,3) by (simp add: edges_done_def)
  have u: "u < length ns" and len: "length ns' = length ns"
    using assms(1,2) by (simp_all add: good_children_def edges_done_def)
  show ?thesis
  proof (cases "nxt (ns ! u) c < 0")
    case True
    then have r: "ns2 = ns'[u := (ns' ! u)\<lparr>nxt := (nxt (ns' ! u))(c := h c)\<rparr>]" "q2 = q'"
      using assms(4) eq by (auto simp: gen_edge_def Let_def)
    have fl: "fail (ns2 ! w) = fail (ns' ! w)" for w
      unfolding r using u len by (cases "w = u") auto
    show ?thesis using assms(2) True u len fl unfolding r edges_done_def
      by (auto simp: fun_eq_iff nth_list_update)
  next
    case False
    let ?v = "nat (nxt (ns ! u) c)"
    have v: "?v < length ns" "?v \<noteq> u" using assms(1) False by (auto simp: good_children_def)
    have r: "ns2 = ns'[?v := (ns' ! ?v)\<lparr>fail := h c\<rparr>]" "q2 = q' @ [?v]"
      using assms(4) eq False by (auto simp: gen_edge_def Let_def)
    have other: "nat (nxt (ns ! u) d) \<noteq> ?v" if "d \<in> set cs" "0 \<le> nxt (ns ! u) d" for d
      using that False assms(1,3) by (metis eq_nat_nat_iff good_children_def not_less)
    have nx: "nxt (ns2 ! w) = nxt (ns' ! w)" "accept (ns2 ! w) = accept (ns' ! w)" for w
      unfolding r using v len by (cases "w = ?v"; simp)+
    have fl: "fail (ns2 ! w) = (if w = ?v then h c else fail (ns' ! w))" for w
      unfolding r using v len by simp
    show ?thesis unfolding edges_done_def
    proof (intro conjI)
      show "q2 = q @ map (\<lambda>c. nat (nxt (ns ! u) c)) (filter (\<lambda>c. 0 \<le> nxt (ns ! u) c) (cs @ [c]))"
        using assms(2) False by (simp add: r edges_done_def)
      show "length ns2 = length ns" using len by (simp add: r)
      show "nxt (ns2 ! u) = (\<lambda>d. if d \<in> set (cs @ [c]) \<and> nxt (ns ! u) d < 0 then h d else nxt (ns ! u) d)"
        using assms(2) False by (auto simp: nx edges_done_def)
      show "\<forall>d \<in> set (cs @ [c]). 0 \<le> nxt (ns ! u) d \<longrightarrow> fail (ns2 ! nat (nxt (ns ! u) d)) = h d"
        using assms(2) other by (auto simp: fl edges_done_def)
      show "\<forall>w < length ns. (\<forall>d \<in> set (cs @ [c]). nxt (ns ! u) d \<noteq> int w) \<longrightarrow> fail (ns2 ! w) = fail (ns ! w)"
        using assms(2) False by (auto simp: fl edges_done_def)
    qed (use assms(2) in \<open>auto simp: nx edges_done_def\<close>)
  qed
qed

lemma gen_edges:
  assumes "good_children u ns" and "distinct cs" and "fold (gen_edge u h) cs (ns, q) = (ns', q')"
  shows "edges_done u h cs ns q ns' q'"
  using assms(2,3)
proof (induction cs arbitrary: ns' q' rule: rev_induct)
  case Nil
  then show ?case by (simp add: edges_done_def)
next
  case (snoc c cs)
  obtain ns1 q1 where 1: "fold (gen_edge u h) cs (ns, q) = (ns1, q1)" by fastforce
  with snoc show ?case by (intro gen_edge_step [OF assms(1)]) auto
qed

lemma ac_root_edge_gen: "ac_root_edge = gen_edge 0 (\<lambda>_. 0)"
  by (simp add: fun_eq_iff ac_root_edge_def gen_edge_def)

lemma ac_edges:
  assumes "good_children u ns" and "distinct cs" and "nat (fail (ns ! u)) \<noteq> u"
    and "nat (fail (ns ! u)) < length ns" and "fold (ac_edge u) cs (ns, q) = (ns', q')"
  shows "edges_done u (nxt (ns ! nat (fail (ns ! u)))) cs ns q ns' q'"
  using assms(2,5)
proof (induction cs arbitrary: ns' q' rule: rev_induct)
  case Nil
  then show ?case by (simp add: edges_done_def)
next
  case (snoc c cs)
  let ?h = "nxt (ns ! nat (fail (ns ! u)))"
  obtain ns1 q1 where 1: "fold (ac_edge u) cs (ns, q) = (ns1, q1)" by fastforce
  with snoc have d: "edges_done u ?h cs ns q ns1 q1" by auto
  have "\<forall>d. nxt (ns ! u) d \<noteq> int u" using assms(1) by (metis good_children_def nat_int of_nat_0_le_iff)
  then have "fail (ns1 ! u) = fail (ns ! u)"
    using d assms(1) by (simp add: edges_done_def good_children_def)
  moreover have "nxt (ns1 ! nat (fail (ns ! u))) = ?h" using d assms(3,4) by (simp add: edges_done_def)
  ultimately have "ac_edge u c (ns1, q1) = gen_edge u ?h c (ns1, q1)"
    by (simp add: ac_edge_def gen_edge_def Let_def)
  with 1 snoc.prems d show ?case by (intro gen_edge_step [OF assms(1) d]) auto
qed

lemma all_bytes [simp]: "set all_bytes = UNIV" "distinct all_bytes"
proof -
  have "c \<in> set all_bytes" for c :: u8
    using unsigned_less [of c, where ?'a = nat]
    by (auto simp: all_bytes_def image_iff simp del: upt_rec_numeral intro!: bexI [of _ "unat c"])
  then show u: "set all_bytes = UNIV" by blast
  have "length all_bytes = 256" by (simp add: all_bytes_def del: upt_rec_numeral)
  moreover have "card (UNIV :: u8 set) = 256" by (simp add: card_word)
  ultimately show "distinct all_bytes" by (intro card_distinct) (simp only: u)
qed

section \<open>The breadth-first pass\<close>

text \<open>
  \<open>D\<close> is the set of nodes whose row of the table is final, \<open>q\<close> the queue.  A node of \<open>D\<close> has its
  transitions and its accepting index resolved; the others still have the trie's.  A node is
  in \<open>D\<close> or queued exactly when its parent is in \<open>D\<close>, and the queue is ordered by depth.
\<close>

definition resolved :: "ac_node list \<Rightarrow> u8 list list \<Rightarrow> u8 list list \<Rightarrow> nat \<Rightarrow> bool" where
  "resolved ns ws pats u \<longleftrightarrow>
     (\<forall>c. node_is ws (nxt (ns ! u) c) (lsuf (set ws) (ws ! u @ [c]))) \<and>
     accept (ns ! u) = first_idx (\<lambda>p. p \<noteq> [] \<and> suffix p (ws ! u)) pats"

definition raw :: "ac_node list \<Rightarrow> u8 list list \<Rightarrow> u8 list list \<Rightarrow> nat \<Rightarrow> bool" where
  "raw ns ws pats u \<longleftrightarrow> (\<forall>c. trie_edge ws u c (nxt (ns ! u) c)) \<and>
     accept (ns ! u) = first_idx (\<lambda>p. p \<noteq> [] \<and> p = ws ! u) pats"

definition queue_ok :: "u8 list list \<Rightarrow> nat set \<Rightarrow> nat list \<Rightarrow> bool" where
  "queue_ok ws D q \<longleftrightarrow> 0 \<in> D \<and> D \<subseteq> {..<length ws} \<and> distinct q \<and> set q \<subseteq> {..<length ws} \<and>
     D \<inter> set q = {} \<and> sorted (map (\<lambda>u. length (ws ! u)) q) \<and>
     (\<forall>u \<in> set q. \<forall>v \<in> set q. length (ws ! v) \<le> length (ws ! u) + 1) \<and>
     (\<forall>v < length ws. v \<noteq> 0 \<longrightarrow> (v \<in> D \<union> set q \<longleftrightarrow> (\<exists>u \<in> D. butlast (ws ! v) = ws ! u)))"

definition bfs_inv :: "ac_node list \<Rightarrow> u8 list list \<Rightarrow> u8 list list \<Rightarrow> nat set \<Rightarrow> nat list \<Rightarrow> bool" where
  "bfs_inv ns ws pats D q \<longleftrightarrow> length ns = length ws \<and> trie_words ws \<and> set pats \<subseteq> set ws \<and>
     queue_ok ws D q \<and> (\<forall>u \<in> D. resolved ns ws pats u) \<and>
     (\<forall>u < length ws. u \<notin> D \<longrightarrow> raw ns ws pats u) \<and>
     (\<forall>u \<in> set q. node_is ws (fail (ns ! u)) (lsuf (set ws) (tl (ws ! u))))"

lemma trie_nonroot: "trie_words ws \<Longrightarrow> v < length ws \<Longrightarrow> ws ! v = [] \<longleftrightarrow> v = 0"
  by (metis length_greater_0_conv nth_eq_iff_index_eq trie_words_def)

lemma trie_parent:
  assumes "trie_words ws" and "v < length ws" and "v \<noteq> 0"
  obtains p where "p < length ws" and "butlast (ws ! v) = ws ! p"
proof -
  have "ws ! v \<noteq> []" using trie_nonroot assms by blast
  then have "butlast (ws ! v) @ [last (ws ! v)] \<in> set ws" using assms(2) by simp
  then have "butlast (ws ! v) \<in> set ws" by (rule trie_words_closed(2) [OF assms(1)])
  then show thesis using that by (metis in_set_conv_nth)
qed

text \<open>Every node shallower than \<open>d\<close> is done when everything queued is at least that deep.\<close>

lemma shallow_done:
  assumes "trie_words ws" and "queue_ok ws D q" and "\<forall>u \<in> set q. d \<le> length (ws ! u)"
    and "v < length ws" and "length (ws ! v) < d"
  shows "v \<in> D"
  using assms(4,5)
proof (induction "length (ws ! v)" arbitrary: v rule: less_induct)
  case less
  show ?case
  proof (cases "v = 0")
    case True
    then show ?thesis using assms(2) by (simp add: queue_ok_def)
  next
    case False
    then obtain p where p: "p < length ws" "butlast (ws ! v) = ws ! p"
      using trie_parent [OF assms(1) less.prems(1)] by metis
    have "ws ! v \<noteq> []" using False trie_nonroot [OF assms(1) less.prems(1)] by simp
    then have "length (ws ! p) < length (ws ! v)" using p(2) by (metis length_butlast
          diff_less length_greater_0_conv zero_less_one)
    then have "p \<in> D" using less p by simp
    then have "v \<in> D \<union> set q" using assms(2) p(2) less.prems(1) False by (auto simp: queue_ok_def)
    then show ?thesis using assms(3) less.prems(2) by auto
  qed
qed

text \<open>The children of a node that is not done are exactly its trie edges, and they are new.\<close>

lemma raw_children:
  assumes "trie_words ws" and "length ns = length ws" and "u < length ws"
    and edge: "\<And>c. trie_edge ws u c (nxt (ns ! u) c)"
  shows "good_children u ns"
    and "v < length ws \<Longrightarrow> (\<exists>c. nxt (ns ! u) c = int v) \<longleftrightarrow> v \<noteq> 0 \<and> butlast (ws ! v) = ws ! u"
proof -
  have e: "0 \<le> nxt (ns ! u) c \<Longrightarrow> node_is ws (nxt (ns ! u) c) (ws ! u @ [c])" for c
    using edge [of c] by (simp add: trie_edge_def)
  have n: "nxt (ns ! u) c < 0 \<Longrightarrow> ws ! u @ [c] \<notin> set ws" for c
    using edge [of c] by (simp add: trie_edge_def)
  show "good_children u ns"
  proof -
    have "nat (nxt (ns ! u) c) < length ns \<and> nat (nxt (ns ! u) c) \<noteq> u" if "0 \<le> nxt (ns ! u) c" for c
      using e [OF that] assms(2) by (auto simp: node_is_def)
    moreover have "c = d" if "0 \<le> nxt (ns ! u) c" "nxt (ns ! u) c = nxt (ns ! u) d" for c d
      using e [of c] e [of d] that by (auto simp: node_is_def)
    ultimately show ?thesis using assms(2,3) unfolding good_children_def by metis
  qed
  assume v: "v < length ws"
  show "(\<exists>c. nxt (ns ! u) c = int v) \<longleftrightarrow> v \<noteq> 0 \<and> butlast (ws ! v) = ws ! u"
  proof
    assume "\<exists>c. nxt (ns ! u) c = int v"
    then obtain c where c: "nxt (ns ! u) c = int v" ..
    with e [of c] have "ws ! v = ws ! u @ [c]" by (simp add: node_is_def)
    then show "v \<noteq> 0 \<and> butlast (ws ! v) = ws ! u" using trie_nonroot [OF assms(1) v] by auto
  next
    assume p: "v \<noteq> 0 \<and> butlast (ws ! v) = ws ! u"
    then have w: "ws ! v = ws ! u @ [last (ws ! v)]"
      using trie_nonroot [OF assms(1) v] by (metis append_butlast_last_id)
    then have "0 \<le> nxt (ns ! u) (last (ws ! v))" using n v by (metis not_less nth_mem)
    from e [OF this] w v assms(1) have "nat (nxt (ns ! u) (last (ws ! v))) = v"
      by (metis node_is_def nth_eq_iff_index_eq trie_words_def)
    then show "\<exists>c. nxt (ns ! u) c = int v" using \<open>0 \<le> nxt (ns ! u) (last (ws ! v))\<close> by (metis int_nat_eq)
  qed
qed

definition kids :: "ac_node list \<Rightarrow> nat \<Rightarrow> nat list" where
  "kids ns u = map (\<lambda>c. nat (nxt (ns ! u) c)) (filter (\<lambda>c. 0 \<le> nxt (ns ! u) c) all_bytes)"

lemma kids_spec:
  assumes "trie_words ws" and "length ns = length ws" and "u < length ws"
    and "\<And>c. trie_edge ws u c (nxt (ns ! u) c)"
  shows "distinct (kids ns u)"
    and "set (kids ns u) = {v. v < length ws \<and> v \<noteq> 0 \<and> butlast (ws ! v) = ws ! u}"
proof -
  note g = raw_children [OF assms]
  have "inj_on (\<lambda>c. nat (nxt (ns ! u) c)) {c. 0 \<le> nxt (ns ! u) c}"
    using g(1) by (auto intro!: inj_onI simp: good_children_def)
  then show "distinct (kids ns u)" by (simp add: kids_def distinct_map)
  have "v \<in> set (kids ns u) \<longleftrightarrow> v < length ws \<and> (\<exists>c. nxt (ns ! u) c = int v)" for v
  proof -
    have "v \<in> set (kids ns u) \<longleftrightarrow> (\<exists>c. 0 \<le> nxt (ns ! u) c \<and> v = nat (nxt (ns ! u) c))"
      by (auto simp: kids_def)
    also have "\<dots> \<longleftrightarrow> (\<exists>c. nxt (ns ! u) c = int v)" by (metis int_nat_eq nat_int of_nat_0_le_iff)
    also have "\<dots> \<longleftrightarrow> v < length ws \<and> (\<exists>c. nxt (ns ! u) c = int v)"
      using g(1) assms(2) by (metis good_children_def nat_int of_nat_0_le_iff)
    finally show ?thesis .
  qed
  then show "set (kids ns u) = {v. v < length ws \<and> v \<noteq> 0 \<and> butlast (ws ! v) = ws ! u}" using g(2) by auto
qed

text \<open>Both queue updates: the root's children first, then the children of the node taken off.\<close>

lemma child_length:
  assumes "trie_words ws" and "v < length ws" and "v \<noteq> 0" and "butlast (ws ! v) = ws ! u"
  shows "length (ws ! v) = length (ws ! u) + 1"
  using assms trie_nonroot [OF assms(1,2)] by (metis Suc_eq_plus1 append_butlast_last_id length_append_singleton)

lemma queue_root:
  assumes "trie_words ws" and "distinct k"
    and "set k = {v. v < length ws \<and> v \<noteq> 0 \<and> butlast (ws ! v) = ws ! 0}"
  shows "queue_ok ws {0} k"
proof -
  have len: "length (ws ! v) = length (ws ! 0) + 1" if "v \<in> set k" for v
    using child_length [OF assms(1)] that assms(3) by simp
  then have "sorted (map (\<lambda>u. length (ws ! u)) k)"
    by (simp add: sorted_iff_nth_mono)
  then show ?thesis using assms len by (auto simp: queue_ok_def trie_words_def)
qed

lemma queue_step:
  assumes "trie_words ws" and q: "queue_ok ws D (u # rest)" and "distinct k"
    and k: "set k = {v. v < length ws \<and> v \<noteq> 0 \<and> butlast (ws ! v) = ws ! u}"
  shows "queue_ok ws (insert u D) (rest @ k)"
proof -
  have D: "0 \<in> D" "D \<subseteq> {..<length ws}" and d: "distinct (u # rest)" "set (u # rest) \<subseteq> {..<length ws}"
    and dj: "D \<inter> set (u # rest) = {}" and so: "sorted (map (\<lambda>u. length (ws ! u)) (u # rest))"
    and w: "\<And>x v. x \<in> set (u # rest) \<Longrightarrow> v \<in> set (u # rest) \<Longrightarrow> length (ws ! v) \<le> length (ws ! x) + 1"
    and par: "\<And>v. v < length ws \<Longrightarrow> v \<noteq> 0 \<Longrightarrow> v \<in> D \<union> set (u # rest) \<longleftrightarrow> (\<exists>x \<in> D. butlast (ws ! v) = ws ! x)"
    using q unfolding queue_ok_def by blast+
  have u: "u < length ws" "u \<notin> D" using d dj by auto
  have new: "v \<notin> D \<union> set (u # rest)" if "v \<in> set k" for v
  proof
    have kv: "v < length ws" "v \<noteq> 0" "butlast (ws ! v) = ws ! u" using that k by simp_all
    assume "v \<in> D \<union> set (u # rest)"
    then obtain x where "x \<in> D" "butlast (ws ! v) = ws ! x" using par [OF kv(1,2)] by blast
    then have "ws ! x = ws ! u" "x < length ws" using kv D by auto
    then show False using u \<open>x \<in> D\<close> assms(1) by (metis nth_eq_iff_index_eq trie_words_def)
  qed
  have len: "length (ws ! v) = length (ws ! u) + 1" if "v \<in> set k" for v
    using child_length [OF assms(1)] that k by simp
  have near: "length (ws ! u) \<le> length (ws ! v) \<and> length (ws ! v) \<le> length (ws ! u) + 1" if "v \<in> set rest" for v
    using that so w [of u v] by simp
  have all: "v \<in> set (rest @ k) \<Longrightarrow> length (ws ! u) \<le> length (ws ! v) \<and> length (ws ! v) \<le> length (ws ! u) + 1" for v
    using len near by auto
  have "sorted (map (\<lambda>u. length (ws ! u)) k)" using len by (simp add: sorted_iff_nth_mono)
  then have "sorted (map (\<lambda>u. length (ws ! u)) (rest @ k))"
    using so len near by (auto simp: sorted_append)
  moreover have "\<forall>x \<in> set (rest @ k). \<forall>v \<in> set (rest @ k). length (ws ! v) \<le> length (ws ! x) + 1"
    using all by (meson add_le_mono1 order_trans)
  moreover have "v \<in> insert u D \<union> set (rest @ k) \<longleftrightarrow> (\<exists>x \<in> insert u D. butlast (ws ! v) = ws ! x)"
    if "v < length ws" "v \<noteq> 0" for v
    using par [OF that] k that by auto
  moreover have "distinct (rest @ k)" "set (rest @ k) \<subseteq> {..<length ws}" "insert u D \<inter> set (rest @ k) = {}"
    using d dj new assms(3) k by auto
  moreover have "0 \<in> insert u D" "insert u D \<subseteq> {..<length ws}" using D u by auto
  ultimately show ?thesis unfolding queue_ok_def by blast
qed

section \<open>Visiting a node\<close>

lemma bfs_invD:
  assumes "bfs_inv ns ws pats D q"
  shows "length ns = length ws" and "trie_words ws" and "set pats \<subseteq> set ws" and "queue_ok ws D q"
    and "u \<in> D \<Longrightarrow> resolved ns ws pats u"
    and "v < length ws \<Longrightarrow> v \<notin> D \<Longrightarrow> raw ns ws pats v"
    and "x \<in> set q \<Longrightarrow> node_is ws (fail (ns ! x)) (lsuf (set ws) (tl (ws ! x)))"
  using assms by (simp_all add: bfs_inv_def)

lemma queue_head:
  assumes "trie_words ws" and "queue_ok ws D (u # rest)"
  shows "u < length ws" and "u \<notin> D" and "ws ! u \<noteq> []" and "D \<subseteq> {..<length ws}"
    and "v < length ws \<Longrightarrow> length (ws ! v) < length (ws ! u) \<Longrightarrow> v \<in> D"
proof -
  show u: "u < length ws" "u \<notin> D" "D \<subseteq> {..<length ws}" using assms(2) by (simp_all add: queue_ok_def)
  have "0 \<in> D" using assms(2) by (simp add: queue_ok_def)
  then show "ws ! u \<noteq> []" using u trie_nonroot [OF assms(1) u(1)] by metis
  have "\<forall>x \<in> set (u # rest). length (ws ! u) \<le> length (ws ! x)"
    using assms(2) by (simp add: queue_ok_def)
  then show "v < length ws \<Longrightarrow> length (ws ! v) < length (ws ! u) \<Longrightarrow> v \<in> D"
    using shallow_done [OF assms] by blast
qed

text \<open>The fail target of the node at the head of the queue is done.\<close>

lemma fail_done:
  assumes "bfs_inv ns ws pats D (u # rest)"
  shows "nat (fail (ns ! u)) \<in> D" and "ws ! nat (fail (ns ! u)) = lsuf (set ws) (tl (ws ! u))"
proof -
  note i = bfs_invD [OF assms]
  note h = queue_head [OF i(2,4)]
  have f: "nat (fail (ns ! u)) < length ws" "ws ! nat (fail (ns ! u)) = lsuf (set ws) (tl (ws ! u))"
    using i(7) [of u] by (simp_all add: node_is_def)
  have "length (ws ! nat (fail (ns ! u))) \<le> length (tl (ws ! u))"
    unfolding f(2) by (rule suffix_length_le [OF lsuf_suffix])
  also have "\<dots> < length (ws ! u)" using h(3) by simp
  finally show "nat (fail (ns ! u)) \<in> D" using h(5) [OF f(1)] by blast
qed (use bfs_invD(7) [OF assms, of u] in \<open>simp add: node_is_def\<close>)

text \<open>What the fail target's row says about \<open>u\<close>'s: the longest suffix of \<open>u\<close>'s string and one byte.\<close>

lemma fail_row:
  assumes "bfs_inv ns ws pats D (u # rest)"
  shows "node_is ws (nxt (ns ! nat (fail (ns ! u))) c) (lsuf (set ws) (tl (ws ! u) @ [c]))"
proof -
  note i = bfs_invD [OF assms] and f = fail_done [OF assms]
  have "node_is ws (nxt (ns ! nat (fail (ns ! u))) c) (lsuf (set ws) (ws ! nat (fail (ns ! u)) @ [c]))"
    using i(5) [OF f(1)] by (simp add: resolved_def)
  then show ?thesis unfolding f(2) trie_words_lsuf_snoc [OF i(2), symmetric] .
qed

text \<open>The accepting index is inherited from the fail target when that is lower.\<close>

lemma ac_inherit_other:
  "length (ac_inherit u ns) = length ns" "nxt (ac_inherit u ns ! w) = nxt (ns ! w)"
  "fail (ac_inherit u ns ! w) = fail (ns ! w)"
  "w \<noteq> u \<Longrightarrow> accept (ac_inherit u ns ! w) = accept (ns ! w)"
  by (cases "w = u"; cases "u < length ns"; simp add: ac_inherit_def Let_def list_update_beyond)+

lemma ac_inherit_accept:
  assumes "bfs_inv ns ws pats D (u # rest)"
  shows "accept (ac_inherit u ns ! u) = first_idx (\<lambda>p. p \<noteq> [] \<and> suffix p (ws ! u)) pats"
proof -
  note i = bfs_invD [OF assms] and f = fail_done [OF assms]
  note h = queue_head [OF i(2,4)]
  let ?P = "\<lambda>p. p \<noteq> [] \<and> p = ws ! u" and ?Q = "\<lambda>p. p \<noteq> [] \<and> suffix p (ws ! nat (fail (ns ! u)))"
  have a: "accept (ns ! u) = first_idx ?P pats" using i(6) [OF h(1,2)] by (simp add: raw_def)
  have b: "accept (ns ! nat (fail (ns ! u))) = first_idx ?Q pats" using i(5) [OF f(1)] by (simp add: resolved_def)
  have "accept (ac_inherit u ns ! u) = lower (first_idx ?P pats) (first_idx ?Q pats)"
    using h(1) i(1) first_idx_neg_eq [of ?P pats] first_idx_neg_eq [of ?Q pats]
    by (auto simp: ac_inherit_def Let_def a b lower_def)
  also have "\<dots> = first_idx (\<lambda>p. ?P p \<or> ?Q p) pats" by (rule first_idx_disj [symmetric])
  also have "\<dots> = first_idx (\<lambda>p. p \<noteq> [] \<and> suffix p (ws ! u)) pats"
  proof (rule first_idx_cong)
    fix p assume "p \<in> set pats"
    then have "p \<in> set ws" using i(3) by blast
    obtain d wu where wu: "ws ! u = d # wu" using h(3) by (cases "ws ! u") auto
    have "suffix p (lsuf (set ws) wu) \<longleftrightarrow> suffix p wu"
      using lsuf_longest [OF \<open>p \<in> set ws\<close>] lsuf_suffix suffix_order.trans by blast
    then show "(?P p \<or> ?Q p) = (p \<noteq> [] \<and> suffix p (ws ! u))"
      unfolding f(2) wu by (auto simp: suffix_Cons)
  qed
  finally show ?thesis .
qed

lemma ac_visit_edges:
  assumes "bfs_inv ns ws pats D (u # rest)" and "ac_visit u ns rest = (ns', q')"
  shows "edges_done u (nxt (ns ! nat (fail (ns ! u)))) all_bytes (ac_inherit u ns) rest ns' q'"
    and "q' = rest @ kids ns u"
proof -
  note i = bfs_invD [OF assms(1)] and f = fail_done [OF assms(1)]
  note h = queue_head [OF i(2,4)]
  have e: "trie_edge ws u c (nxt (ac_inherit u ns ! u) c)" for c
    using i(6) [OF h(1,2)] by (simp add: raw_def ac_inherit_other)
  have "good_children u (ac_inherit u ns)"
    by (rule raw_children(1) [OF i(2) _ h(1) e]) (simp add: ac_inherit_other i(1))
  moreover have "nat (fail (ns ! u)) \<noteq> u" "nat (fail (ns ! u)) < length ns" using f(1) h(2,4) i(1) by auto
  ultimately
  show ed: "edges_done u (nxt (ns ! nat (fail (ns ! u)))) all_bytes (ac_inherit u ns) rest ns' q'"
    using ac_edges [of u "ac_inherit u ns", OF _ all_bytes(2)] assms(2)
    by (simp add: ac_visit_def ac_inherit_other)
  show "q' = rest @ kids ns u" using ed by (simp add: edges_done_def kids_def ac_inherit_other)
qed

lemma ac_visit_resolved:
  assumes "bfs_inv ns ws pats D (u # rest)" and "ac_visit u ns rest = (ns', q')"
  shows "resolved ns' ws pats u"
proof -
  note i = bfs_invD [OF assms(1)] and ed = ac_visit_edges [OF assms]
  note h = queue_head [OF i(2,4)]
  have nx: "nxt (ns' ! u) c = (if nxt (ns ! u) c < 0 then nxt (ns ! nat (fail (ns ! u))) c else nxt (ns ! u) c)" for c
    using ed(1) by (simp add: edges_done_def ac_inherit_other)
  have acc: "accept (ns' ! u) = accept (ac_inherit u ns ! u)"
    using ed(1) h(1) i(1) by (simp add: edges_done_def ac_inherit_other)
  have "node_is ws (nxt (ns' ! u) c) (lsuf (set ws) (ws ! u @ [c]))" for c
  proof -
    have e: "trie_edge ws u c (nxt (ns ! u) c)" using i(6) [OF h(1,2)] by (simp add: raw_def)
    show ?thesis
    proof (cases "nxt (ns ! u) c < 0")
      case True
      then have "ws ! u @ [c] \<notin> set ws" using e by (simp add: trie_edge_def)
      moreover obtain d wu where "ws ! u = d # wu" using h(3) by (cases "ws ! u") auto
      ultimately show ?thesis using fail_row [OF assms(1), of c] True by (simp add: nx)
    next
      case False
      then have n: "node_is ws (nxt (ns ! u) c) (ws ! u @ [c])" using e by (simp add: trie_edge_def)
      then have "ws ! u @ [c] \<in> set ws" by (metis node_is_def nth_mem)
      then show ?thesis using n False by (simp add: nx lsuf_ident)
    qed
  qed
  then show ?thesis using ac_inherit_accept [OF assms(1)] acc by (simp add: resolved_def)
qed

lemma ac_visit_fail:
  assumes "bfs_inv ns ws pats D (u # rest)" and "ac_visit u ns rest = (ns', q')" and "x \<in> set q'"
  shows "node_is ws (fail (ns' ! x)) (lsuf (set ws) (tl (ws ! x)))"
proof -
  note i = bfs_invD [OF assms(1)] and ed = ac_visit_edges [OF assms(1,2)]
  note h = queue_head [OF i(2,4)]
  have e: "trie_edge ws u c (nxt (ns ! u) c)" for c using i(6) [OF h(1,2)] by (simp add: raw_def)
  have "queue_ok ws (insert u D) q'"
    unfolding ed(2) by (rule queue_step [OF i(2,4) kids_spec [OF i(2,1) h(1) e]])
  then have x: "x < length ws" using assms(3) by (auto simp: queue_ok_def)
  show ?thesis
  proof (cases "\<exists>c. nxt (ns ! u) c = int x")
    case True
    then obtain c where c: "nxt (ns ! u) c = int x" ..
    then have "ws ! x = ws ! u @ [c]" using e [of c] by (simp add: trie_edge_def node_is_def)
    moreover have "fail (ns' ! x) = nxt (ns ! nat (fail (ns ! u))) c"
      using ed(1) c by (simp add: edges_done_def ac_inherit_other) (metis nat_int of_nat_0_le_iff)
    ultimately show ?thesis using fail_row [OF assms(1), of c] h(3) by simp
  next
    case False
    then have "x \<notin> set (kids ns u)" by (auto simp: kids_def)
    then have "x \<in> set (u # rest)" using assms(3) ed(2) by simp
    moreover have "fail (ns' ! x) = fail (ns ! x)"
      using ed(1) False x i(1) by (simp add: edges_done_def ac_inherit_other)
    ultimately show ?thesis using i(7) by simp
  qed
qed

lemma ac_visit_inv:
  assumes "bfs_inv ns ws pats D (u # rest)" and "ac_visit u ns rest = (ns', q')"
  shows "bfs_inv ns' ws pats (insert u D) q'"
proof -
  note i = bfs_invD [OF assms(1)] and ed = ac_visit_edges [OF assms]
  note h = queue_head [OF i(2,4)]
  have e: "trie_edge ws u c (nxt (ns ! u) c)" for c using i(6) [OF h(1,2)] by (simp add: raw_def)
  have len: "length ns' = length ws" using ed(1) i(1) by (simp add: edges_done_def ac_inherit_other)
  have q: "queue_ok ws (insert u D) q'"
    unfolding ed(2) by (rule queue_step [OF i(2,4) kids_spec [OF i(2,1) h(1) e]])
  have same: "nxt (ns' ! w) = nxt (ns ! w)" "accept (ns' ! w) = accept (ns ! w)"
    if "w < length ws" "w \<noteq> u" for w
    using ed(1) that i(1) by (simp_all add: edges_done_def ac_inherit_other)
  have "\<forall>w \<in> insert u D. resolved ns' ws pats w"
  proof
    fix w assume "w \<in> insert u D"
    then consider "w = u" | "w \<in> D" "w \<noteq> u" "w < length ws" using h(4) by auto
    then show "resolved ns' ws pats w"
      using ac_visit_resolved [OF assms] i(5) same by cases (simp_all add: resolved_def)
  qed
  moreover have "\<forall>w < length ws. w \<notin> insert u D \<longrightarrow> raw ns' ws pats w"
    using i(6) same by (simp add: raw_def)
  ultimately show ?thesis using i(2,3) len q ac_visit_fail [OF assms] by (simp add: bfs_inv_def)
qed

lemma ac_root_inv:
  assumes "trie_ok ns ws" and "accept_exact ns ws pats"
    and "fold ac_root_edge all_bytes (ns, []) = (ns', q)"
  shows "bfs_inv ns' ws pats {0} q"
proof -
  have len: "length ns = length ws" and tw: "trie_words ws"
    and e: "\<And>n c. n < length ws \<Longrightarrow> trie_edge ws n c (nxt (ns ! n) c)"
    using assms(1) by (simp_all add: trie_ok_def)
  have root: "0 < length ws" "ws ! 0 = []" using tw by (auto simp: trie_words_def)
  have "good_children 0 ns" by (rule raw_children(1) [OF tw len root(1) e [OF root(1)]])
  from gen_edges [OF this all_bytes(2)] assms(3)
  have ed: "edges_done 0 (\<lambda>_. 0) all_bytes ns [] ns' q" by (simp add: ac_root_edge_gen)
  then have q: "q = kids ns 0" and len': "length ns' = length ws"
    by (simp_all add: edges_done_def kids_def len)
  note k = kids_spec [OF tw len root(1) e [OF root(1)]]
  have nil: "node_is ws 0 []" using root by (simp add: node_is_def)
  have x0: "[c] \<notin> set ws \<Longrightarrow> lsuf (set ws) [c] = []" for c by simp
  have n0: "nxt (ns' ! 0) c = (if nxt (ns ! 0) c < 0 then 0 else nxt (ns ! 0) c)" for c
    using ed by (simp add: edges_done_def)
  have "node_is ws (nxt (ns' ! 0) c) (lsuf (set ws) [c])" for c
    using e [OF root(1), of c] nil root x0 [of c] lsuf_ident [of "[c]" "set ws"]
    by (auto simp: n0 trie_edge_def node_is_def) (metis nth_mem)
  moreover have acc: "accept (ns' ! n) = first_idx (\<lambda>p. p \<noteq> [] \<and> p = ws ! n) pats" if "n < length ws" for n
    using ed assms(2) that len by (simp add: edges_done_def accept_exact_def)
  moreover have "first_idx (\<lambda>p. p \<noteq> [] \<and> p = []) pats = first_idx (\<lambda>p. p \<noteq> [] \<and> suffix p []) pats"
    by (rule first_idx_cong) auto
  ultimately have "resolved ns' ws pats 0" using root by (simp add: resolved_def)
  moreover have "raw ns' ws pats n" if "n < length ws" "n \<noteq> 0" for n
    using ed e [OF that(1)] acc [OF that(1)] that len by (simp add: raw_def edges_done_def)
  moreover have "node_is ws (fail (ns' ! v)) (lsuf (set ws) (tl (ws ! v)))" if "v \<in> set q" for v
  proof -
    have "length (ws ! v) = 1" using that k(2) child_length [OF tw, of v 0] root by (simp add: q)
    moreover have "fail (ns' ! v) = 0" using ed that unfolding q kids_def edges_done_def by auto
    ultimately show ?thesis using nil trie_words_closed(1) [OF tw] by (cases "ws ! v") (simp_all add: lsuf_ident)
  qed
  ultimately show ?thesis
    using tw len' queue_root [OF tw k] q assms(2) by (simp add: bfs_inv_def accept_exact_def)
qed

section \<open>The finished table\<close>

text \<open>The loop ends, because every turn adds a node to \<open>D\<close>, and it ends with every row resolved.\<close>

definition ac_table :: "ac_node list \<Rightarrow> u8 list list \<Rightarrow> u8 list list \<Rightarrow> bool" where
  "ac_table ns ws pats \<longleftrightarrow> length ns = length ws \<and> trie_words ws \<and> set pats \<subseteq> set ws \<and>
     (\<forall>u < length ws. resolved ns ws pats u)"

lemma ac_bfs_ends:
  assumes "bfs_inv ns ws pats D q"
  shows "\<exists>ns'. ac_bfs q ns = Some ns' \<and> ac_table ns' ws pats"
  using assms
proof (induction "card ({..<length ws} - D)" arbitrary: ns D q rule: less_induct)
  case less
  note i = bfs_invD [OF less.prems]
  show ?case
  proof (cases q)
    case Nil
    have "v \<in> D" if "v < length ws" for v
      by (rule shallow_done [OF i(2,4), of "Suc (length (ws ! v))"]) (use Nil that in simp_all)
    then show ?thesis using Nil i(1,2,3,5) by (simp add: ac_bfs.simps ac_table_def)
  next
    case (Cons u rest)
    obtain ns1 q1 where v: "ac_visit u ns rest = (ns1, q1)" by fastforce
    note inv = ac_visit_inv [OF less.prems [unfolded Cons] v]
    note h = queue_head [OF i(2,4) [unfolded Cons]]
    have "{..<length ws} - insert u D \<subset> {..<length ws} - D" using h(1,2) by auto
    then have "card ({..<length ws} - insert u D) < card ({..<length ws} - D)"
      by (intro psubset_card_mono) auto
    from less.hyps [OF this inv] show ?thesis
      using Cons v by (simp add: ac_bfs.simps [of "u # rest"])
  qed
qed

lemma ac_build_spec:
  "ac_build sigs = Some None \<and> ac_insert_all 0 sigs [new_node] = None \<or>
   (\<exists>ns ws. ac_build sigs = Some (Some ns) \<and> ac_table ns ws (map pat sigs))"
proof (cases "ac_insert_all 0 sigs [new_node]")
  case (Some ns)
  have "accept_exact [new_node] [[]] []" by (simp add: accept_exact_def new_node_def)
  from ac_insert_all_spec [OF trie_ok_new this] Some
  obtain ws where ws: "trie_ok ns ws" "accept_exact ns ws (map pat sigs)" by auto
  obtain ns1 q where r: "fold ac_root_edge all_bytes (ns, []) = (ns1, q)" by fastforce
  from ac_bfs_ends [OF ac_root_inv [OF ws r]]
  show ?thesis using Some r by (auto simp: ac_build_def)
qed (simp add: ac_build_def)

section \<open>The scan\<close>

text \<open>After the bytes \<open>pre\<close> the state is the node of the longest suffix of \<open>pre\<close> in the trie.\<close>

definition occurs_end :: "u8 list \<Rightarrow> u8 list \<Rightarrow> u8 list \<Rightarrow> bool" where
  "occurs_end pre data p \<longleftrightarrow> p \<noteq> [] \<and> (\<exists>b bs. data = b @ bs \<and> b \<noteq> [] \<and> suffix p (pre @ b))"

lemma occurs_end_Nil: "occurs_end pre [] p \<longleftrightarrow> False"
  by (simp add: occurs_end_def)

lemma occurs_end_Cons:
  "occurs_end pre (x # data) p \<longleftrightarrow> p \<noteq> [] \<and> suffix p (pre @ [x]) \<or> occurs_end (pre @ [x]) data p"
  (is "?l \<longleftrightarrow> ?r")
proof
  assume ?l
  then obtain b bs where b: "x # data = b @ bs" "b \<noteq> []" "suffix p (pre @ b)" and p: "p \<noteq> []"
    by (auto simp: occurs_end_def)
  then obtain b' where "b = x # b'" by (cases b) auto
  with b p show ?r by (cases "b' = []") (auto simp: occurs_end_def)
next
  assume ?r
  then show ?l
  proof
    assume "p \<noteq> [] \<and> suffix p (pre @ [x])"
    then show ?l unfolding occurs_end_def by (intro conjI exI [of _ "[x]"] exI [of _ data]) auto
  next
    assume "occurs_end (pre @ [x]) data p"
    then obtain b bs where "data = b @ bs" "b \<noteq> []" "suffix p (pre @ x # b)" "p \<noteq> []" by (auto simp: occurs_end_def)
    then show ?l unfolding occurs_end_def by (intro conjI exI [of _ "x # b"] exI [of _ bs]) auto
  qed
qed

lemma occurs_end_sublist: "occurs_end [] data p \<longleftrightarrow> p \<noteq> [] \<and> sublist p data"
proof
  assume "p \<noteq> [] \<and> sublist p data"
  then obtain a c where "data = a @ p @ c" "p \<noteq> []" by (auto simp: sublist_def)
  then show "occurs_end [] data p"
    unfolding occurs_end_def by (intro conjI exI [of _ "a @ p"] exI [of _ c]) (auto simp: suffix_def)
next
  assume "occurs_end [] data p"
  then obtain b bs where "data = b @ bs" "suffix p b" "p \<noteq> []" by (auto simp: occurs_end_def)
  then show "p \<noteq> [] \<and> sublist p data"
    unfolding suffix_def sublist_def by (metis append.assoc)
qed

lemma lower_assoc: "lower (lower a b) c = lower a (lower b c)"
  by (auto simp: lower_def)

lemma scan_loop_step:
  assumes "best = - 1 \<or> 0 < best" and "m = accept (ns ! nat (nxt (ns ! st) b))" and "- 1 \<le> m"
  shows "scan_loop ns (b # data) st best =
    (if m = 0 then 0 else scan_loop ns data (nat (nxt (ns ! st) b)) (lower best m))"
proof -
  have "m < 0 \<Longrightarrow> m = - 1" using assms(3) by simp
  then show ?thesis using assms(1) by (auto simp: assms(2) [symmetric] Let_def lower_def)
qed

lemma scan_loop_spec:
  assumes "ac_table ns ws pats" and "st < length ws" and "ws ! st = lsuf (set ws) pre"
    and "best = - 1 \<or> 0 < best"
  shows "scan_loop ns data st best = lower best (first_idx (occurs_end pre data) pats)"
  using assms(2-4)
proof (induction data arbitrary: st pre best)
  case Nil
  have "first_idx (occurs_end pre []) pats < 0" by (simp add: first_idx_neg_iff occurs_end_Nil)
  then show ?case using Nil by (auto simp: lower_def dest: first_idx_neg_eq)
next
  case (Cons b data)
  let ?st = "nat (nxt (ns ! st) b)" and ?Q = "\<lambda>p. p \<noteq> [] \<and> suffix p (pre @ [b])"
  have tw: "trie_words ws" and sub: "set pats \<subseteq> set ws"
    and res: "resolved ns ws pats st" using assms(1) Cons.prems(1) by (simp_all add: ac_table_def)
  have st: "?st < length ws" "ws ! ?st = lsuf (set ws) (pre @ [b])"
    using res Cons.prems(2) trie_words_lsuf_snoc [OF tw, of pre b] by (auto simp: resolved_def node_is_def)
  then have "accept (ns ! ?st) = first_idx (\<lambda>p. p \<noteq> [] \<and> suffix p (lsuf (set ws) (pre @ [b]))) pats"
    using assms(1) by (simp add: ac_table_def resolved_def)
  also have "\<dots> = first_idx ?Q pats"
  proof (rule first_idx_cong)
    fix p assume "p \<in> set pats"
    then have "p \<in> set ws" using sub by blast
    then show "(p \<noteq> [] \<and> suffix p (lsuf (set ws) (pre @ [b]))) = ?Q p"
      using lsuf_longest lsuf_suffix suffix_order.trans by blast
  qed
  finally have m: "accept (ns ! ?st) = first_idx ?Q pats" .
  have tot: "first_idx (occurs_end pre (b # data)) pats = lower (first_idx ?Q pats) (first_idx (occurs_end (pre @ [b]) data) pats)"
    unfolding first_idx_disj [symmetric] by (rule first_idx_cong) (simp add: occurs_end_Cons)
  let ?m = "first_idx ?Q pats" and ?r = "first_idx (occurs_end (pre @ [b]) data) pats"
  have ge: "- 1 \<le> ?m" "- 1 \<le> ?r" by (rule first_idx_ge)+
  note step = scan_loop_step [OF Cons.prems(3) m [symmetric] ge(1)]
  show ?case
  proof (cases "?m = 0")
    case True
    then show ?thesis unfolding tot step using Cons.prems(3) by (auto simp: lower_def)
  next
    case False
    have "lower best ?m = - 1 \<or> 0 < lower best ?m" using False Cons.prems(3) ge(1) by (auto simp: lower_def)
    from Cons.IH [OF st this] show ?thesis unfolding tot step using False by (simp add: lower_assoc)
  qed
qed

theorem scan_signatures_ac_spec:
  assumes "ac_table ns ws pats"
  shows "scan_signatures_ac ns data = first_idx (\<lambda>p. p \<noteq> [] \<and> sublist p data) pats"
proof -
  have tw: "trie_words ws" using assms by (simp add: ac_table_def)
  have "scan_loop ns data 0 (- 1) = lower (- 1) (first_idx (occurs_end [] data) pats)"
    by (rule scan_loop_spec [OF assms])
      (use tw trie_words_closed(1) [OF tw] in \<open>auto simp: trie_words_def lsuf_ident\<close>)
  then show ?thesis by (simp add: scan_signatures_ac_def lower_def occurs_end_sublist [abs_def])
qed

end
