(* ===== verification/Scanner_Verdict.thy ===== *)
theory Scanner_Verdict
  imports Scanner_Correct
begin

text \<open>
  What the scanner of \<^verbatim>\<open>src/src/security/anti_virus.c\<close> answers.  The matcher contract says that
  a search returns the lowest-numbered signature that occurs in the data; the direct search
  and the search with the automaton both meet it, and the verdict of \<open>scan_buffer\<close> rests on
  the contract alone.
\<close>

section \<open>The direct search\<close>

lemma match_len_le: "match_len p d \<le> length p"
  by (induction p d rule: match_len.induct) auto

lemma match_len_prefix: "match_len p d = length p \<longleftrightarrow> prefix p d"
  by (induction p d rule: match_len.induct) auto

lemma find_from_sublist: "find_from p data \<longleftrightarrow> sublist p data"
proof (induction data)
  case (Cons d ds)
  have "sublist p (d # ds) \<Longrightarrow> length p \<le> Suc (length ds)" using sublist_length_le by fastforce
  then show ?case using Cons by (auto simp: match_len_prefix sublist_Cons_right)
qed auto

lemma sint_of_length: "n < 2 ^ 31 \<Longrightarrow> sint (of_nat n :: u32) = int n"
  by (simp add: sint_uint unsigned_of_nat take_bit_nat_eq_self signed_take_bit_eq_if_positive bit_iff_odd take_bit_int_eq_self)

lemma direct_loop_spec:
  assumes "length data < 2 ^ 31" and "\<forall>sg \<in> set sgs. pat sg \<noteq> []"
  shows "direct_loop s sgs data =
    (let k = first_idx (\<lambda>p. p \<noteq> [] \<and> sublist p data) (map pat sgs) in if k < 0 then - 1 else int s + k)"
  using assms(2)
proof (induction sgs arbitrary: s)
  case (Cons sg sgs)
  have "sublist (pat sg) data \<Longrightarrow> length (pat sg) \<le> length data" by (rule sublist_length_le)
  then show ?case
    using Cons sint_of_length [OF assms(1)] by (auto simp: find_from_sublist Let_def)
qed simp

section \<open>The matcher contract\<close>

definition usable_sigs :: "scan_sig list \<Rightarrow> bool" where
  "usable_sigs sigs \<longleftrightarrow> (\<forall>sg \<in> set sigs. pat sg \<noteq> [])"

locale sig_matcher =
  fixes sigs :: "scan_sig list" and run :: "u8 list \<Rightarrow> int" and ok :: "u8 list \<Rightarrow> bool"
  assumes hit: "ok data \<Longrightarrow> run data = first_idx (\<lambda>p. p \<noteq> [] \<and> sublist p data) (map pat sigs)"
    and usable: "ok data \<Longrightarrow> usable_sigs sigs"
begin

lemma hit_iff: "ok data \<Longrightarrow> 0 \<le> run data \<longleftrightarrow> (\<exists>sg \<in> set sigs. sublist (pat sg) data)"
proof -
  assume ok: "ok data"
  have "run data < 0 \<longleftrightarrow> (\<forall>p \<in> set (map pat sigs). \<not> (p \<noteq> [] \<and> sublist p data))"
    unfolding hit [OF ok] by (rule first_idx_neg_iff)
  then show ?thesis using usable [OF ok] unfolding usable_sigs_def not_less [symmetric] by simp
qed

lemma hit_lowest:
  assumes "ok data" and "0 \<le> run data"
  shows "nat (run data) < length sigs" and "sublist (pat (sigs ! nat (run data))) data"
    and "j < nat (run data) \<Longrightarrow> \<not> sublist (pat (sigs ! j)) data"
proof -
  let ?P = "\<lambda>p. p \<noteq> [] \<and> sublist p data"
  have r: "run data = first_idx ?P (map pat sigs)" by (rule hit [OF assms(1)])
  have "nat (run data) < length (map pat sigs) \<and> ?P (map pat sigs ! nat (run data))"
    unfolding r by (rule first_idx_nth) (use assms(2) r in simp)
  then show l: "nat (run data) < length sigs" and "sublist (pat (sigs ! nat (run data))) data" by auto
  assume j: "j < nat (run data)"
  then have "\<not> ?P (map pat sigs ! j)" unfolding r by (rule first_idx_least [rotated]) (use assms(2) r in simp)
  moreover have "pat (sigs ! j) \<noteq> []" using j l usable [OF assms(1)] by (simp add: usable_sigs_def)
  ultimately show "\<not> sublist (pat (sigs ! j)) data" using j l by simp
qed

end

interpretation direct: sig_matcher sigs "scan_signatures_direct sigs"
  "\<lambda>data. usable_sigs sigs \<and> length data < 2 ^ 31" for sigs
proof unfold_locales
  fix data :: "u8 list" assume "usable_sigs sigs \<and> length data < 2 ^ 31"
  then show "scan_signatures_direct sigs data = first_idx (\<lambda>p. p \<noteq> [] \<and> sublist p data) (map pat sigs)"
    using first_idx_neg_eq [of "\<lambda>p. p \<noteq> [] \<and> sublist p data" "map pat sigs"]
    unfolding scan_signatures_direct_def usable_sigs_def
    by (subst direct_loop_spec) (simp_all add: Let_def)
qed simp

text \<open>The search of a state: the automaton once it is built, the direct search otherwise.\<close>

definition av_match :: "scan_sig list \<Rightarrow> av \<Rightarrow> u8 list \<Rightarrow> int" where
  "av_match sigs a data =
     (if ac_ready a then scan_signatures_ac (ac_nodes a) data else scan_signatures_direct sigs data)"

definition av_ok :: "scan_sig list \<Rightarrow> av \<Rightarrow> bool" where
  "av_ok sigs a \<longleftrightarrow> (ac_ready a \<longrightarrow> ac_build sigs = Some (Some (ac_nodes a))) \<and> length (scan_detail a) = 64"

lemma ac_build_scan:
  "ac_build sigs = Some (Some ns) \<Longrightarrow>
    scan_signatures_ac ns data = first_idx (\<lambda>p. p \<noteq> [] \<and> sublist p data) (map pat sigs)"
proof -
  assume "ac_build sigs = Some (Some ns)"
  then obtain ws where "ac_table ns ws (map pat sigs)" using ac_build_spec [of sigs] by auto
  then show ?thesis by (rule scan_signatures_ac_spec)
qed

interpretation av: sig_matcher sigs "av_match sigs a"
  "\<lambda>data. av_ok sigs a \<and> usable_sigs sigs \<and> length data < 2 ^ 31" for sigs a
  by unfold_locales (auto simp: av_match_def av_ok_def ac_build_scan direct.hit)

section \<open>Room in the pool\<close>

lemma ac_insert_fits:
  assumes "length ns + length cs \<le> AC_MAX_NODES"
  shows "\<exists>ns' m. ac_insert cs node ns = Some (ns', m) \<and> length ns' \<le> length ns + length cs"
  using assms
proof (induction cs node ns rule: ac_insert.induct)
  case (2 c cs node ns)
  show ?case
  proof (cases "nxt (ns ! node) c < 0")
    case True
    let ?ns = "ns[node := (ns ! node)\<lparr>nxt := (nxt (ns ! node))(c := int (length ns))\<rparr>] @ [new_node]"
    have "\<exists>ns' m. ac_insert cs (length ns) ?ns = Some (ns', m) \<and> length ns' \<le> length ?ns + length cs"
      using "2.IH"(1) [OF True] "2.prems" by simp
    then show ?thesis using True "2.prems" by auto
  next
    case False
    then have "\<exists>ns' m. ac_insert cs (nat (nxt (ns ! node) c)) ns = Some (ns', m) \<and> length ns' \<le> length ns + length cs"
      using "2.IH"(2) [OF False] "2.prems" by simp
    then show ?thesis using False by auto
  qed
qed simp

lemma ac_insert_all_fits:
  assumes "length ns + sum_list (map (\<lambda>sg. length (pat sg)) sgs) \<le> AC_MAX_NODES"
  shows "\<exists>ns'. ac_insert_all s sgs ns = Some ns'"
  using assms
proof (induction sgs arbitrary: s ns)
  case (Cons sg sgs)
  then obtain ns' m where i: "ac_insert (pat sg) 0 ns = Some (ns', m)" "length ns' \<le> length ns + length (pat sg)"
    using ac_insert_fits [of ns "pat sg" 0] by auto
  have "\<exists>ns2. ac_insert_all (Suc s) sgs ns1 = Some ns2" if "length ns1 = length ns'" for ns1
    by (rule Cons.IH) (use Cons.prems i(2) that in simp)
  then show ?case using i(1) by simp
qed simp

section \<open>The verdict\<close>

lemma av_init_ok:
  assumes "av_ok sigs a"
  shows "\<exists>a'. av_init sigs a = Some a' \<and> av_ok sigs a' \<and> scan_detail a' = scan_detail a \<and> (ac_ready a' \<or> ac_overflow a')"
proof (cases "ac_ready a \<or> ac_overflow a")
  case True
  then show ?thesis using assms by (simp add: av_init_def)
next
  case False
  consider "ac_build sigs = Some None" | ns where "ac_build sigs = Some (Some ns)"
    using ac_build_spec [of sigs] by blast
  then show ?thesis using False assms by cases (simp_all add: av_init_def av_ok_def)
qed

text \<open>\<open>scan_buffer\<close> settles the state first, then searches and looks at the declared size.\<close>

lemma scan_buffer_search:
  assumes "av_ok sigs a"
  shows "\<exists>a1. av_ok sigs a1 \<and> (ac_ready a1 \<or> ac_overflow a1) \<and> cstr (scan_detail a1) = [] \<and>
    scan_buffer sigs data a = Some
      (if av_match sigs a1 data \<ge> 0
       then (SCAN_SIGNATURE, a1\<lparr>scan_detail := str_copy (scan_detail a1) (name (sigs ! nat (av_match sigs a1 data))) 64\<rparr>)
       else scan_structure data a1)"
proof -
  let ?a = "a\<lparr>scan_detail := (scan_detail a)[0 := 0]\<rparr>"
  have ok: "av_ok sigs ?a" using assms by (simp add: av_ok_def)
  have "cstr (scan_detail ?a) = []" using assms by (cases "scan_detail a") (auto simp: av_ok_def)
  moreover obtain a1 where "(if \<not> ac_ready ?a \<and> \<not> ac_overflow ?a then av_init sigs ?a else Some ?a) = Some a1"
      "av_ok sigs a1" "scan_detail a1 = scan_detail ?a" "ac_ready a1 \<or> ac_overflow a1"
    using av_init_ok [OF ok] ok by (cases "\<not> ac_ready ?a \<and> \<not> ac_overflow ?a") auto
  ultimately show ?thesis by (intro exI [of _ a1]) (simp add: scan_buffer_def Let_def av_match_def)
qed

definition claimed_size :: "u8 list \<Rightarrow> nat" where
  "claimed_size data = unat (le32 (data ! 8) (data ! 9) (data ! 10) (data ! 11))"

lemma scan_structure_verdict:
  assumes "length data < 2 ^ 31"
  shows "fst (scan_structure data a) =
    (if 16 \<le> length data \<and> length data < claimed_size data \<and> claimed_size data < 2 ^ 28
     then SCAN_MALFORMED else SCAN_CLEAN)"
proof -
  let ?l = "of_nat (length data) :: u32" and ?c = "le32 (data ! 8) (data ! 9) (data ! 10) (data ! 11)"
  have l: "unat ?l = length data" using assms by (simp add: unsigned_of_nat take_bit_nat_eq_self)
  have "16 \<le> ?l \<longleftrightarrow> 16 \<le> length data" unfolding word_le_nat_alt l by simp
  moreover have "?l < ?c \<longleftrightarrow> length data < claimed_size data" unfolding word_less_nat_alt l claimed_size_def ..
  moreover have "?c < 0x10000000 \<longleftrightarrow> claimed_size data < 2 ^ 28"
    unfolding word_less_nat_alt claimed_size_def by simp
  ultimately show ?thesis unfolding scan_structure_def Let_def by simp
qed

lemma scan_structure_av: "av_ok sigs a \<Longrightarrow> av_ok sigs (snd (scan_structure data a))"
  by (simp add: scan_structure_def Let_def av_ok_def)

text \<open>
  C8: \<open>scan_buffer\<close> always returns; it reports a signature exactly when some signature occurs in
  the data, and then its detail names the first of the table that does; otherwise it reports a
  malformed file exactly when a file of 16 bytes or more declares a size above its own and
  below \<open>2 ^ 28\<close>.  The automaton is built on the first call, or found not to fit.
\<close>

theorem scan_buffer_verdict:
  assumes "av_ok sigs a" and "usable_sigs sigs" and "length data < 2 ^ 31"
  shows "\<exists>r a'. scan_buffer sigs data a = Some (r, a') \<and> av_ok sigs a' \<and> (ac_ready a' \<or> ac_overflow a') \<and>
    (r = SCAN_SIGNATURE \<longleftrightarrow> (\<exists>sg \<in> set sigs. sublist (pat sg) data)) \<and>
    (r = SCAN_SIGNATURE \<longrightarrow> (\<exists>i < length sigs. sublist (pat (sigs ! i)) data \<and>
        (\<forall>j < i. \<not> sublist (pat (sigs ! j)) data) \<and>
        cstr (scan_detail a') = take 63 (cstr (name (sigs ! i))))) \<and>
    (r = SCAN_MALFORMED \<longleftrightarrow> (\<forall>sg \<in> set sigs. \<not> sublist (pat sg) data) \<and>
        16 \<le> length data \<and> length data < claimed_size data \<and> claimed_size data < 2 ^ 28)"
proof -
  obtain a1 where a1: "av_ok sigs a1" "ac_ready a1 \<or> ac_overflow a1" and
    eq: "scan_buffer sigs data a = Some
      (if av_match sigs a1 data \<ge> 0
       then (SCAN_SIGNATURE, a1\<lparr>scan_detail := str_copy (scan_detail a1) (name (sigs ! nat (av_match sigs a1 data))) 64\<rparr>)
       else scan_structure data a1)"
    using scan_buffer_search [OF assms(1), of data] by blast
  have ok: "av_ok sigs a1 \<and> usable_sigs sigs \<and> length data < 2 ^ 31" using a1 assms by simp
  let ?k = "nat (av_match sigs a1 data)"
  show ?thesis
  proof (cases "av_match sigs a1 data \<ge> 0")
    case True
    let ?a' = "a1\<lparr>scan_detail := str_copy (scan_detail a1) (name (sigs ! ?k)) 64\<rparr>"
    have "cstr (scan_detail ?a') = take 63 (cstr (name (sigs ! ?k)))"
      using a1(1) cstr_str_copy [of 64 "scan_detail a1"] by (simp add: av_ok_def)
    moreover have "\<exists>sg \<in> set sigs. sublist (pat sg) data" using av.hit_iff [OF ok] True by simp
    moreover have "av_ok sigs ?a'" using a1(1) by (simp add: av_ok_def)
    ultimately show ?thesis
      using eq True a1(2) av.hit_lowest [OF ok True]
      by (intro exI [of _ SCAN_SIGNATURE] exI [of _ ?a']) auto
  next
    case False
    then have "\<not> (\<exists>sg \<in> set sigs. sublist (pat sg) data)" using av.hit_iff [OF ok] by simp
    moreover have "ac_ready (snd (scan_structure data a1)) \<or> ac_overflow (snd (scan_structure data a1))"
      using a1(2) by (simp add: scan_structure_def Let_def)
    moreover obtain r a' where "scan_structure data a1 = (r, a')" by fastforce
    ultimately show ?thesis
      using eq False scan_structure_verdict [OF assms(3), of a1] scan_structure_av [OF a1(1), of data]
      by (intro exI [of _ r] exI [of _ a']) (simp split: if_splits)
  qed
qed

definition av_boot :: av where
  "av_boot = \<lparr>ac_nodes = [], ac_ready = False, ac_overflow = False, scan_detail = replicate 64 0\<rparr>"

theorem scan_buffer_verdict_witness:
  "\<exists>a'. scan_buffer scan_sigs (bytes ''>>VEXTRO-SCANNER-TEST-PATTERN<<'') av_boot = Some (SCAN_SIGNATURE, a')"
proof -
  let ?d = "bytes ''>>VEXTRO-SCANNER-TEST-PATTERN<<''"
  have ok: "av_ok scan_sigs av_boot" "usable_sigs scan_sigs" "length ?d < 2 ^ 31"
    by (simp_all add: av_ok_def av_boot_def usable_sigs_def scan_sigs_def bytes_def)
  have "?d = bytes ''>>'' @ pat (scan_sigs ! 1) @ bytes ''<<''" by (simp add: scan_sigs_def bytes_def)
  then have "sublist (pat (scan_sigs ! 1)) ?d" by (metis sublist_appendI)
  moreover have "scan_sigs ! 1 \<in> set scan_sigs" by (simp add: scan_sigs_def)
  ultimately show ?thesis using scan_buffer_verdict [OF ok] by blast
qed

text \<open>
  C9: When the patterns fit the pool, \<open>ac_build\<close> returns an automaton, and on every buffer shorter
  than \<open>2 ^ 31\<close> bytes the scan with it gives the answer of the direct search it replaced.
\<close>

theorem ac_build_agrees:
  assumes "usable_sigs sigs" and "sum_list (map (\<lambda>sg. length (pat sg)) sigs) < AC_MAX_NODES"
  shows "\<exists>ns. ac_build sigs = Some (Some ns) \<and>
    (\<forall>data. length data < 2 ^ 31 \<longrightarrow> scan_signatures_ac ns data = scan_signatures_direct sigs data)"
proof -
  have "\<exists>ns'. ac_insert_all 0 sigs [new_node] = Some ns'" by (rule ac_insert_all_fits) (use assms(2) in simp)
  then obtain ns where "ac_build sigs = Some (Some ns)" using ac_build_spec [of sigs] by auto
  then show ?thesis using ac_build_scan direct.hit assms(1) by auto
qed

theorem ac_build_agrees_witness:
  "\<exists>ns. ac_build scan_sigs = Some (Some ns) \<and>
    scan_signatures_ac ns (bytes ''VEXTRO'') = scan_signatures_direct scan_sigs (bytes ''VEXTRO'')"
proof -
  have "usable_sigs scan_sigs" by (simp add: usable_sigs_def scan_sigs_def bytes_def)
  moreover have "sum_list (map (\<lambda>sg. length (pat sg)) scan_sigs) < AC_MAX_NODES"
    by (simp add: scan_sigs_def bytes_def AC_MAX_NODES_def)
  moreover have "length (bytes ''VEXTRO'') < 2 ^ 31" by (simp add: bytes_def)
  ultimately show ?thesis using ac_build_agrees by blast
qed

text \<open>
  C10: The breadth-first pass of \<open>ac_build\<close> ends for every table, so the build always answers, and
  the answer is the overflow result exactly when some pattern did not fit the pool.
\<close>

theorem ac_build_total: "ac_build sigs \<noteq> None \<and> (ac_build sigs = Some None \<longleftrightarrow> ac_insert_all 0 sigs [new_node] = None)"
  using ac_build_spec [of sigs] by (auto simp: ac_build_def Let_def split: option.splits prod.splits)

end
