(* ===== verification/Policy.thy ===== *)
theory Policy
  imports Kstring
begin

text \<open>
  The security policy of \<^verbatim>\<open>src/src/security/anti_virus.c\<close>: the prompt level, the allowlist and
  the scanner switch, and the text file that keeps them.  The file system is left to the
  caller: \<open>policy_save\<close> returns the bytes it hands to \<open>fs_write_file\<close>, and \<open>policy_load\<close> takes
  what \<open>fs_read_file\<close> returned.
\<close>

section \<open>The allowlist\<close>

definition UAC_LEVELS :: int where "UAC_LEVELS = 4"
definition ALLOW_MAX :: nat where "ALLOW_MAX = 32"
definition ALLOW_NAME :: nat where "ALLOW_NAME = 32"

record policy =
  uac_level :: int
  allowlist_on :: bool
  scanner_on :: bool
  allow_names :: "u8 list list"
  allow_count :: nat

fun allow_find :: "u8 list \<Rightarrow> u8 list list \<Rightarrow> nat option" where
  "allow_find name [] = None"
| "allow_find name (a # as) =
     (if str_eq a name then Some 0 else map_option Suc (allow_find name as))"

definition allow_permits :: "u8 list \<Rightarrow> policy \<Rightarrow> bool" where
  "allow_permits name p \<longleftrightarrow>
     (if \<not> allowlist_on p then True
      else allow_find name (take (allow_count p) (allow_names p)) \<noteq> None)"

definition allow_add :: "u8 list \<Rightarrow> policy \<Rightarrow> bool \<times> policy" where
  "allow_add name p =
     (if allow_count p \<ge> ALLOW_MAX then (False, p)
      else if allow_find name (take (allow_count p) (allow_names p)) \<noteq> None then (True, p)
      else (True, p\<lparr>allow_names := (allow_names p)
                     [allow_count p := str_copy (allow_names p ! allow_count p) name ALLOW_NAME],
                   allow_count := allow_count p + 1\<rparr>))"

fun allow_shift :: "nat \<Rightarrow> nat \<Rightarrow> u8 list list \<Rightarrow> u8 list list" where
  "allow_shift k 0 as = as"
| "allow_shift k (Suc n) as = allow_shift (Suc k) n (as[k := str_copy (as ! k) (as ! Suc k) ALLOW_NAME])"

definition allow_remove :: "u8 list \<Rightarrow> policy \<Rightarrow> bool \<times> policy" where
  "allow_remove name p =
     (case allow_find name (take (allow_count p) (allow_names p)) of
        None \<Rightarrow> (False, p)
      | Some i \<Rightarrow> (True, p\<lparr>allow_names := allow_shift i (allow_count p - 1 - i) (allow_names p),
                          allow_count := allow_count p - 1\<rparr>))"

section \<open>The policy file\<close>

fun save_names :: "u8 list list \<Rightarrow> u8 list \<Rightarrow> u8 list" where
  "save_names [] out = out"
| "save_names (a # as) out =
     save_names as (str_append (str_append (str_append out (bytes ''allow='') 512) a 512) [10] 512)"

definition policy_save :: "policy \<Rightarrow> u8 list" where
  "policy_save p =
     (let out = str_copy (replicate 512 0) (bytes ''uac='') 512;
          out = str_append out (uint_to_str (of_int (uac_level p))) 512;
          out = str_append out (10 # bytes ''allowlist='') 512;
          out = str_append out (bytes (if allowlist_on p then ''1'' else ''0'')) 512;
          out = str_append out (10 # bytes ''scanner='') 512;
          out = str_append out (bytes (if scanner_on p then ''1'' else ''0'')) 512;
          out = str_append out [10] 512;
          out = save_names (take (allow_count p) (allow_names p)) out
      in take (str_len out) out)"

text \<open>One line of the file: at most 95 bytes are kept, the rest up to the newline is skipped.\<close>

fun read_line :: "nat \<Rightarrow> u8 list \<Rightarrow> u8 list \<times> u8 list" where
  "read_line k [] = ([], [])"
| "read_line k (c # d) =
     (if c = 10 then ([], d)
      else let (l, r) = read_line (k - 1) d in (if 0 < k then c # l else [], r))"

definition policy_line :: "u8 list \<Rightarrow> policy \<Rightarrow> policy" where
  "policy_line line p =
     (if str_starts_with line (bytes ''uac='') then
        (let v = sint (line ! 4) - 48 in if 0 \<le> v \<and> v < UAC_LEVELS then p\<lparr>uac_level := v\<rparr> else p)
      else if str_starts_with line (bytes ''allowlist='') then p\<lparr>allowlist_on := line ! 10 = 49\<rparr>
      else if str_starts_with line (bytes ''scanner='') then p\<lparr>scanner_on := line ! 8 = 49\<rparr>
      else if str_starts_with line (bytes ''allow='') then snd (allow_add (drop 6 line) p)
      else p)"

lemma read_line_shorter: "d \<noteq> [] \<Longrightarrow> length (snd (read_line k d)) < length d"
proof (induction k d rule: read_line.induct)
  case (2 k c d)
  then show ?case by (cases "d = []") (auto simp: Let_def split: prod.splits)
qed simp

function policy_lines :: "u8 list \<Rightarrow> policy \<Rightarrow> policy" where
  "policy_lines d p =
     (if d = [] then p
      else policy_lines (snd (read_line 95 d)) (policy_line (fst (read_line 95 d) @ [0]) p))"
  by pat_completeness auto
termination by (relation "measure (\<lambda>(d, p). length d)") (auto simp: read_line_shorter)

declare policy_lines.simps [simp del]

definition policy_load :: "u8 list option \<Rightarrow> policy \<Rightarrow> policy" where
  "policy_load file p =
     (case file of
        None \<Rightarrow> p
      | Some d \<Rightarrow> if d = [] then p else policy_lines d (p\<lparr>allow_count := 0\<rparr>))"

section \<open>The list the allowlist stands for\<close>

definition policy_inv :: "policy \<Rightarrow> bool" where
  "policy_inv p \<longleftrightarrow> length (allow_names p) = ALLOW_MAX \<and> allow_count p \<le> ALLOW_MAX \<and>
     (\<forall>a \<in> set (allow_names p). length a = ALLOW_NAME) \<and>
     (\<forall>i < allow_count p. length (cstr (allow_names p ! i)) < ALLOW_NAME) \<and>
     0 \<le> uac_level p \<and> uac_level p < UAC_LEVELS"

definition allow_list :: "policy \<Rightarrow> u8 list list" where
  "allow_list p = map cstr (take (allow_count p) (allow_names p))"

lemma allow_find_None: "allow_find name as = None \<longleftrightarrow> cstr name \<notin> set (map cstr as)"
  by (induction as) (auto simp: str_eq_iff)

lemma allow_find_Some:
  "allow_find name as = Some i \<Longrightarrow>
    i < length as \<and> cstr (as ! i) = cstr name \<and> cstr name \<notin> set (map cstr (take i as))"
proof (induction as arbitrary: i)
  case (Cons a as)
  then show ?case by (cases i) (auto simp: str_eq_iff split: if_splits)
qed simp

lemma allow_permits_list: "allow_permits name p \<longleftrightarrow> \<not> allowlist_on p \<or> cstr name \<in> set (allow_list p)"
  by (simp add: allow_permits_def allow_find_None [simplified] allow_list_def)

lemma allow_add_list:
  assumes "policy_inv p"
  shows "fst (allow_add name p) \<longleftrightarrow> length (allow_list p) < ALLOW_MAX"
    and "allow_list (snd (allow_add name p)) =
      (if length (allow_list p) \<ge> ALLOW_MAX \<or> cstr name \<in> set (allow_list p) then allow_list p
       else allow_list p @ [take 31 (cstr name)])"
    and "policy_inv (snd (allow_add name p))"
proof -
  have c: "allow_count p \<le> ALLOW_MAX" "length (allow_names p) = ALLOW_MAX"
    and w: "\<forall>a \<in> set (allow_names p). length a = ALLOW_NAME"
    using assms by (simp_all add: policy_inv_def)
  have len: "length (allow_list p) = allow_count p" using c by (simp add: allow_list_def)
  have f: "allow_find name (take (allow_count p) (allow_names p)) \<noteq> None \<longleftrightarrow> cstr name \<in> set (allow_list p)"
    using allow_find_None [of name "take (allow_count p) (allow_names p)"] by (simp add: allow_list_def del: not_None_eq)
  show "fst (allow_add name p) \<longleftrightarrow> length (allow_list p) < ALLOW_MAX"
    unfolding allow_add_def len by auto
  have copy: "cstr (str_copy (allow_names p ! allow_count p) name ALLOW_NAME) = take 31 (cstr name)"
    if "allow_count p < ALLOW_MAX"
    using that c w cstr_str_copy [of 32 "allow_names p ! allow_count p" name] by (simp add: ALLOW_NAME_def)
  show "allow_list (snd (allow_add name p)) =
      (if length (allow_list p) \<ge> ALLOW_MAX \<or> cstr name \<in> set (allow_list p) then allow_list p
       else allow_list p @ [take 31 (cstr name)])"
    unfolding len using f c copy
    by (simp add: allow_add_def allow_list_def take_Suc_conv_app_nth del: not_None_eq)
  show "policy_inv (snd (allow_add name p))"
    using assms copy unfolding allow_add_def policy_inv_def
    by (auto simp: nth_list_update less_Suc_eq ALLOW_NAME_def set_update_subset_insert dest!: subsetD [OF set_update_subset_insert])
qed

lemma allow_shift_spec:
  assumes "k + n < length as" and "\<forall>a \<in> set as. length a = ALLOW_NAME"
    and "\<forall>j. k < j \<and> j \<le> k + n \<longrightarrow> length (cstr (as ! j)) < ALLOW_NAME"
  shows "length (allow_shift k n as) = length as \<and> (\<forall>a \<in> set (allow_shift k n as). length a = ALLOW_NAME) \<and>
    (\<forall>j < length as. cstr (allow_shift k n as ! j) = cstr (as ! (if k \<le> j \<and> j < k + n then Suc j else j)))"
  using assms
proof (induction k n as rule: allow_shift.induct)
  case (2 k n as)
  let ?as = "as[k := str_copy (as ! k) (as ! Suc k) ALLOW_NAME]"
  have "length (cstr (as ! Suc k)) < ALLOW_NAME" using "2.prems"(3) by simp
  then have eq: "cstr (str_copy (as ! k) (as ! Suc k) ALLOW_NAME) = cstr (as ! Suc k)"
    using "2.prems"(1,2) cstr_str_copy [of 32 "as ! k" "as ! Suc k"] by (simp add: ALLOW_NAME_def)
  have w: "\<forall>a \<in> set ?as. length a = ALLOW_NAME"
    using "2.prems" set_update_subset_insert [of as k] by fastforce
  have n: "\<forall>j. Suc k < j \<and> j \<le> Suc k + n \<longrightarrow> length (cstr (?as ! j)) < ALLOW_NAME"
    using "2.prems"(3) by simp
  have "Suc k + n < length ?as" using "2.prems"(1) by simp
  note ih = "2.IH" [OF this w n]
  have "cstr (allow_shift (Suc k) n ?as ! j) = cstr (as ! (if k \<le> j \<and> j < k + Suc n then Suc j else j))"
    if "j < length as" for j
  proof -
    have "cstr (allow_shift (Suc k) n ?as ! j) = cstr (?as ! (if Suc k \<le> j \<and> j < Suc k + n then Suc j else j))"
      using ih that by simp
    also have "\<dots> = cstr (as ! (if k \<le> j \<and> j < k + Suc n then Suc j else j))"
      using eq that by (cases "j = k") auto
    finally show ?thesis .
  qed
  then show ?case using ih by simp
qed auto

lemma remove1_first:
  assumes "i < length xs" and "xs ! i = x" and "x \<notin> set (take i xs)"
  shows "remove1 x xs = take i xs @ drop (Suc i) xs"
proof -
  have "xs = take i xs @ x # drop (Suc i) xs" using assms(1,2) by (metis id_take_nth_drop)
  then show ?thesis using assms(3) by (metis remove1.simps(2) remove1_append)
qed

lemma allow_remove_list:
  assumes "policy_inv p"
  shows "fst (allow_remove name p) \<longleftrightarrow> cstr name \<in> set (allow_list p)"
    and "allow_list (snd (allow_remove name p)) = remove1 (cstr name) (allow_list p)"
    and "policy_inv (snd (allow_remove name p))"
proof -
  have c: "allow_count p \<le> ALLOW_MAX" "length (allow_names p) = ALLOW_MAX" "\<forall>a \<in> set (allow_names p). length a = ALLOW_NAME"
    and n: "\<forall>i < allow_count p. length (cstr (allow_names p ! i)) < ALLOW_NAME"
    using assms by (simp_all add: policy_inv_def)
  let ?f = "allow_find name (take (allow_count p) (allow_names p))"
  show r: "fst (allow_remove name p) \<longleftrightarrow> cstr name \<in> set (allow_list p)"
    using allow_find_None [of name "take (allow_count p) (allow_names p)"]
    by (auto simp: allow_remove_def allow_list_def split: option.splits)
  show "allow_list (snd (allow_remove name p)) = remove1 (cstr name) (allow_list p)" and "policy_inv (snd (allow_remove name p))"
  proof (atomize (full), cases ?f)
    case None
    then have "cstr name \<notin> set (allow_list p)" by (simp add: allow_find_None allow_list_def)
    then show "allow_list (snd (allow_remove name p)) = remove1 (cstr name) (allow_list p) \<and> policy_inv (snd (allow_remove name p))"
      using None assms by (simp add: allow_remove_def remove1_idem)
  next
    case (Some i)
    let ?as = "allow_shift i (allow_count p - 1 - i) (allow_names p)"
    note s = allow_find_Some [OF Some]
    have i: "i < allow_count p" using s by simp
    have "i + (allow_count p - 1 - i) < length (allow_names p)" using i c by simp
    moreover have "\<forall>j. i < j \<and> j \<le> i + (allow_count p - 1 - i) \<longrightarrow> length (cstr (allow_names p ! j)) < ALLOW_NAME"
      using i n by auto
    ultimately have spec: "length ?as = length (allow_names p) \<and> (\<forall>a \<in> set ?as. length a = ALLOW_NAME) \<and>
        (\<forall>j < length (allow_names p). cstr (?as ! j) =
          cstr (allow_names p ! (if i \<le> j \<and> j < i + (allow_count p - 1 - i) then Suc j else j)))"
      by (intro allow_shift_spec c(3))
    then have sh: "length ?as = length (allow_names p)" "\<forall>a \<in> set ?as. length a = ALLOW_NAME" by blast+
    have sh3: "cstr (?as ! j) = cstr (allow_names p ! (if i \<le> j then Suc j else j))" if "j < allow_count p - 1" for j
    proof -
      have "j < length (allow_names p)" "i \<le> j \<Longrightarrow> j < i + (allow_count p - 1 - i)" using that c i by auto
      then show ?thesis using spec by simp
    qed
    have L: "length (allow_list p) = allow_count p" using c by (simp add: allow_list_def)
    have nth: "j < allow_count p \<Longrightarrow> allow_list p ! j = cstr (allow_names p ! j)" for j
      using c by (simp add: allow_list_def)
    have "remove1 (cstr name) (allow_list p) = take i (allow_list p) @ drop (Suc i) (allow_list p)"
      by (rule remove1_first) (use s i L nth in \<open>auto simp: allow_list_def take_map\<close>)
    also have "\<dots> = map cstr (take (allow_count p - 1) ?as)"
      by (intro nth_equalityI) (use i c(1,2) L nth sh(1) sh3 in \<open>simp_all add: nth_append\<close>)
    finally have l: "allow_list (snd (allow_remove name p)) = remove1 (cstr name) (allow_list p)"
      by (simp add: allow_remove_def Some allow_list_def)
    have "length (cstr (?as ! j)) < ALLOW_NAME" if "j < allow_count p - 1" for j
      using sh3 [OF that] that n by simp
    then have "policy_inv (snd (allow_remove name p))"
      using assms sh(1,2) by (auto simp: allow_remove_def Some policy_inv_def)
    with l show "allow_list (snd (allow_remove name p)) = remove1 (cstr name) (allow_list p) \<and> policy_inv (snd (allow_remove name p))" ..
  qed
qed

section \<open>The text of a policy\<close>

definition flag_char :: "bool \<Rightarrow> u8" where "flag_char b = (if b then 49 else 48)"

definition name_line :: "u8 list \<Rightarrow> u8 list" where "name_line a = bytes ''allow='' @ a @ [10]"

definition policy_text :: "policy \<Rightarrow> u8 list" where
  "policy_text p = bytes ''uac='' @ [48 + of_int (uac_level p)] @ [10] @
     bytes ''allowlist='' @ [flag_char (allowlist_on p)] @ [10] @
     bytes ''scanner='' @ [flag_char (scanner_on p)] @ [10] @ concat (map name_line (allow_list p))"

definition out_is :: "u8 list \<Rightarrow> u8 list \<Rightarrow> bool" where
  "out_is out t \<longleftrightarrow> length out = 512 \<and> cstr out = take 511 t"

lemma out_append: "out_is out t \<Longrightarrow> out_is (str_append out s 512) (t @ cstr s)"
  using cstr_str_append [of out 512 s] by (simp add: out_is_def min_def)

lemma bytes_cstr: "cstr (bytes ''allow='') = bytes ''allow=''" "cstr [10] = [10]"
  by (simp_all add: bytes_def)

lemma out_names: "out_is out t \<Longrightarrow> out_is (save_names as out) (t @ concat (map (\<lambda>a. name_line (cstr a)) as))"
proof (induction as arbitrary: out t)
  case (Cons a as)
  have "out_is (str_append (str_append (str_append out (bytes ''allow='') 512) a 512) [10] 512)
      (((t @ cstr (bytes ''allow='')) @ cstr a) @ cstr [10])"
    by (intro out_append Cons.prems)
  from Cons.IH [OF this] show ?case by (simp only: bytes_cstr save_names.simps) (simp add: name_line_def)
qed simp

lemma uac_digit:
  assumes "policy_inv p"
  shows "cstr (uint_to_str (of_int (uac_level p))) = [48 + of_int (uac_level p)]"
proof -
  have "uac_level p = 0 \<or> uac_level p = 1 \<or> uac_level p = 2 \<or> uac_level p = 3"
    using assms by (auto simp: policy_inv_def UAC_LEVELS_def)
  then show ?thesis
    by (elim disjE) (simp_all add: uint_to_str_def uint_tmp.simps [of 1] uint_tmp.simps [of 2] uint_tmp.simps [of 3]
        uint_tmp.simps [of 0] uint_tmp.simps [of "Suc 0"])
qed

lemma policy_save_text:
  assumes "policy_inv p"
  shows "policy_save p = take 511 (policy_text p)"
proof -
  have start: "out_is (str_copy (replicate 512 0) (bytes ''uac='') 512) (cstr (bytes ''uac=''))"
    using cstr_str_copy [of 512 "replicate 512 0"] by (simp add: out_is_def)
  define out where "out = save_names (take (allow_count p) (allow_names p))
    (str_append (str_append (str_append (str_append (str_append (str_append
      (str_copy (replicate 512 0) (bytes ''uac='') 512)
      (uint_to_str (of_int (uac_level p))) 512) (10 # bytes ''allowlist='') 512)
      (bytes (if allowlist_on p then ''1'' else ''0'')) 512) (10 # bytes ''scanner='') 512)
      (bytes (if scanner_on p then ''1'' else ''0'')) 512) [10] 512)"
  have "out_is out (((((((cstr (bytes ''uac='') @ cstr (uint_to_str (of_int (uac_level p)))) @
      cstr (10 # bytes ''allowlist='')) @ cstr (bytes (if allowlist_on p then ''1'' else ''0''))) @
      cstr (10 # bytes ''scanner='')) @ cstr (bytes (if scanner_on p then ''1'' else ''0''))) @ cstr [10]) @
      concat (map (\<lambda>a. name_line (cstr a)) (take (allow_count p) (allow_names p))))" (is "out_is _ ?t")
    unfolding out_def by (intro out_names out_append start)
  moreover have "?t = policy_text p"
    unfolding uac_digit [OF assms] policy_text_def allow_list_def map_map comp_def
    by (simp add: bytes_def flag_char_def)
  ultimately have "out_is out (policy_text p)" by simp
  moreover have "policy_save p = cstr out"
    unfolding policy_save_def Let_def out_def [symmetric] str_len_cstr cstr_take_len ..
  ultimately show ?thesis by (simp add: out_is_def)
qed

section \<open>Reading the text back\<close>

lemma read_line_whole: "10 \<notin> set l \<Longrightarrow> length l \<le> k \<Longrightarrow> read_line k (l @ 10 # d) = (l, d)"
proof (induction l arbitrary: k)
  case (Cons c l)
  then show ?case by (cases k) auto
qed simp

lemma policy_lines_step:
  "10 \<notin> set l \<Longrightarrow> length l \<le> 95 \<Longrightarrow> policy_lines (l @ 10 # d) p = policy_lines d (policy_line (l @ [0]) p)"
  by (subst policy_lines.simps) (simp add: read_line_whole)

lemma policy_line_uac:
  assumes "0 \<le> v" and "v < UAC_LEVELS"
  shows "policy_line (bytes ''uac='' @ [48 + of_int v] @ [0]) p = p\<lparr>uac_level := v\<rparr>"
proof -
  have "v = 0 \<or> v = 1 \<or> v = 2 \<or> v = 3" using assms by (auto simp: UAC_LEVELS_def)
  then have "sint (48 + of_int v :: u8) = 48 + v" "(48 + of_int v :: u8) \<noteq> 0" by auto
  then show ?thesis using assms
    by (simp add: policy_line_def str_starts_with_iff bytes_def Let_def)
qed

lemma policy_line_flags:
  "policy_line (bytes ''allowlist='' @ [flag_char b] @ [0]) p = p\<lparr>allowlist_on := b\<rparr>"
  "policy_line (bytes ''scanner='' @ [flag_char b] @ [0]) p = p\<lparr>scanner_on := b\<rparr>"
  by (simp_all add: policy_line_def str_starts_with_iff bytes_def flag_char_def)

lemma policy_line_allow:
  "0 \<notin> set a \<Longrightarrow> policy_line (bytes ''allow='' @ a @ [0]) p = snd (allow_add (a @ [0]) p)"
  by (simp add: policy_line_def str_starts_with_iff bytes_def cstr_append_no_zero)

lemma allow_add_frame:
  "uac_level (snd (allow_add n p)) = uac_level p" "allowlist_on (snd (allow_add n p)) = allowlist_on p"
  "scanner_on (snd (allow_add n p)) = scanner_on p"
  by (simp_all add: allow_add_def)

definition same_flags :: "policy \<Rightarrow> policy \<Rightarrow> bool" where
  "same_flags p q \<longleftrightarrow> uac_level q = uac_level p \<and> allowlist_on q = allowlist_on p \<and> scanner_on q = scanner_on p"

lemma allow_add_new:
  assumes "policy_inv p" and "0 \<notin> set a" and "length a < ALLOW_NAME" and "a \<notin> set (allow_list p)"
    and "length (allow_list p) < ALLOW_MAX" and "q = snd (allow_add (a @ [0]) p)"
  shows "policy_inv q \<and> allow_list q = allow_list p @ [a] \<and> same_flags p q"
  using allow_add_list [OF assms(1), of "a @ [0]"] assms(2-6)
  by (simp add: cstr_append_zero same_flags_def allow_add_frame ALLOW_NAME_def)

lemma policy_lines_names:
  assumes "policy_inv p" and "\<forall>a \<in> set as. 0 \<notin> set a \<and> 10 \<notin> set a \<and> length a < ALLOW_NAME"
    and "distinct (allow_list p @ as)" and "length (allow_list p @ as) \<le> ALLOW_MAX"
  shows "\<exists>q. policy_inv q \<and> allow_list q = allow_list p @ as \<and> same_flags p q \<and>
    policy_lines (concat (map name_line as) @ d) p = policy_lines d q"
  using assms
proof (induction as arbitrary: p)
  case Nil
  then show ?case by (auto simp: same_flags_def)
next
  case (Cons a as)
  let ?p = "snd (allow_add (a @ [0]) p)"
  have a: "0 \<notin> set a" "10 \<notin> set a" "length a < ALLOW_NAME" using Cons.prems(2) by auto
  have p: "policy_inv ?p \<and> allow_list ?p = allow_list p @ [a] \<and> same_flags p ?p"
    by (rule allow_add_new [OF Cons.prems(1) a(1,3)]) (use Cons.prems(3,4) in auto)
  have "10 \<notin> set (bytes ''allow='' @ a)" "length (bytes ''allow='' @ a) \<le> 95"
    using a by (simp_all add: bytes_def ALLOW_NAME_def)
  from policy_lines_step [OF this]
  have "policy_lines (concat (map name_line (a # as)) @ d) p = policy_lines (concat (map name_line as) @ d) ?p"
    using policy_line_allow [OF a(1)] by (simp add: name_line_def)
  then show ?case
    using Cons.IH [of ?p] p Cons.prems(2-4) by (auto simp: same_flags_def)
qed

text \<open>A last line that lost its newline is read like any other.\<close>

lemma read_line_last: "10 \<notin> set l \<Longrightarrow> length l \<le> k \<Longrightarrow> read_line k l = (l, [])"
proof (induction l arbitrary: k)
  case (Cons c l)
  then show ?case by (cases k) auto
qed simp

lemma policy_lines_last_name:
  assumes "0 \<notin> set a" and "10 \<notin> set a" and "length a < ALLOW_NAME"
  shows "policy_lines (bytes ''allow='' @ a) p = snd (allow_add (a @ [0]) p)"
proof -
  have "read_line 95 (bytes ''allow='' @ a) = (bytes ''allow='' @ a, [])"
    using assms by (intro read_line_last) (simp_all add: bytes_def ALLOW_NAME_def)
  moreover have "bytes ''allow='' @ a \<noteq> []" by (simp add: bytes_def)
  ultimately show ?thesis using policy_line_allow [OF assms(1), of p]
    unfolding policy_lines.simps [of "bytes ''allow='' @ a"] by (simp only: if_False fst_conv snd_conv append_assoc) (simp add: policy_lines.simps [of "[]"])
qed

text \<open>The names a text yields weigh no more than the text.\<close>

definition weight :: "u8 list list \<Rightarrow> nat" where
  "weight as = sum_list (map (\<lambda>a. length a + 7) as)"

lemma read_line_length:
  "d \<noteq> [] \<Longrightarrow> length (fst (read_line k d)) + length (snd (read_line k d)) \<le> length d \<and>
    (snd (read_line k d) \<noteq> [] \<longrightarrow> length (fst (read_line k d)) + 1 + length (snd (read_line k d)) \<le> length d)"
proof (induction k d rule: read_line.induct)
  case (2 k c d)
  then show ?case by (cases "d = []") (auto simp: Let_def split: prod.splits)
qed simp

lemma length_cstr_zero: "length (cstr (l @ [0])) \<le> length l"
  by (induction l) auto

lemma policy_line_cases:
  obtains (same) "policy_line line p = p"
  | (level) v where "0 \<le> v" "v < UAC_LEVELS" "policy_line line p = p\<lparr>uac_level := v\<rparr>"
  | (list) b where "policy_line line p = p\<lparr>allowlist_on := b\<rparr>"
  | (scan) b where "policy_line line p = p\<lparr>scanner_on := b\<rparr>"
  | (name) "policy_line line p = snd (allow_add (drop 6 line) p)" "str_starts_with line (bytes ''allow='')"
proof -
  let ?u = "str_starts_with line (bytes ''uac='')" and ?a = "str_starts_with line (bytes ''allowlist='')"
    and ?s = "str_starts_with line (bytes ''scanner='')" and ?n = "str_starts_with line (bytes ''allow='')"
  let ?v = "sint (line ! 4) - 48"
  consider "?u" "0 \<le> ?v \<and> ?v < UAC_LEVELS" | "?u" "\<not> (0 \<le> ?v \<and> ?v < UAC_LEVELS)" | "\<not> ?u" "?a"
    | "\<not> ?u" "\<not> ?a" "?s" | "\<not> ?u" "\<not> ?a" "\<not> ?s" "?n" | "\<not> ?u" "\<not> ?a" "\<not> ?s" "\<not> ?n" by blast
  then show thesis
  proof cases
    case 1
    then show thesis by (intro level [of ?v]) (simp_all add: policy_line_def)
  next
    case 2
    then have "policy_line line p = p" unfolding policy_line_def Let_def by presburger
    then show thesis by (rule same)
  next
    case 3
    then show thesis by (intro list [of "line ! 10 = 49"]) (simp add: policy_line_def)
  next
    case 4
    then show thesis by (intro scan [of "line ! 8 = 49"]) (simp add: policy_line_def)
  next
    case 5
    then show thesis by (intro name) (simp_all add: policy_line_def)
  next
    case 6
    then show thesis by (intro same) (simp add: policy_line_def)
  qed
qed

lemma allow_line_weight:
  assumes "policy_inv p" and "str_starts_with (l @ [0]) (bytes ''allow='')"
    and q: "q = snd (allow_add (drop 6 (l @ [0])) p)"
  shows "policy_inv q \<and> weight (allow_list q) \<le> weight (allow_list p) + length l + 1"
proof -
  have "prefix (bytes ''allow='') (cstr (l @ [0]))" using assms(2) by (simp add: str_starts_with_iff bytes_def)
  from prefix_length_le [OF this] have l: "6 \<le> length l"
    using length_cstr_zero [of l] by (simp add: bytes_def)
  have d: "length (cstr (drop 6 (l @ [0]))) \<le> length l - 6"
    using l length_cstr_zero [of "drop 6 l"] by simp
  have "allow_list q = allow_list p \<or> allow_list q = allow_list p @ [take 31 (cstr (drop 6 (l @ [0])))]"
    using allow_add_list(2) [OF assms(1), of "drop 6 (l @ [0])"] unfolding q by presburger
  moreover have "policy_inv q" unfolding q by (rule allow_add_list(3) [OF assms(1)])
  ultimately show ?thesis using d l unfolding weight_def by auto
qed

lemma policy_line_weight:
  assumes "policy_inv p" and "q = policy_line (l @ [0]) p"
  shows "policy_inv q \<and> weight (allow_list q) \<le> weight (allow_list p) + length l + 1"
proof (cases rule: policy_line_cases [of "l @ [0]" p])
  case name
  then show ?thesis using allow_line_weight [OF assms(1)] assms(2) by simp
qed (use assms in \<open>simp_all add: policy_inv_def allow_list_def\<close>)

lemma policy_lines_weight:
  assumes "policy_inv p"
  shows "policy_inv (policy_lines d p) \<and> weight (allow_list (policy_lines d p)) \<le> weight (allow_list p) + length d + 1"
  using assms
proof (induction d p rule: policy_lines.induct)
  case (1 d p)
  show ?case
  proof (cases "d = []")
    case True
    then show ?thesis using 1 by (simp add: policy_lines.simps)
  next
    case False
    let ?l = "fst (read_line 95 d)" and ?r = "snd (read_line 95 d)"
    let ?p = "policy_line (?l @ [0]) p"
    have w: "policy_inv ?p \<and> weight (allow_list ?p) \<le> weight (allow_list p) + length ?l + 1"
      by (rule policy_line_weight [OF "1.prems" refl])
    have eq: "policy_lines d p = policy_lines ?r ?p" using False by (subst policy_lines.simps) simp
    show ?thesis
    proof (cases "?r = []")
      case True
      then show ?thesis unfolding eq using w read_line_length [OF False, of 95]
        by (simp add: policy_lines.simps [of "[]"])
    next
      case r: False
      then show ?thesis unfolding eq using "1.IH" [OF False] w read_line_length [OF False, of 95] by simp
    qed
  qed
qed

definition head_text :: "policy \<Rightarrow> u8 list" where
  "head_text p = bytes ''uac='' @ [48 + of_int (uac_level p)] @ [10] @
     bytes ''allowlist='' @ [flag_char (allowlist_on p)] @ [10] @
     bytes ''scanner='' @ [flag_char (scanner_on p)] @ [10]"

lemma policy_text_split: "policy_text p = head_text p @ concat (map name_line (allow_list p))"
  by (simp add: policy_text_def head_text_def)

lemma length_head_text: "length (head_text p) = 28"
  by (simp add: head_text_def bytes_def)

lemma length_name_lines: "length (concat (map name_line as)) = weight as"
  by (induction as) (simp_all add: weight_def name_line_def bytes_def)

lemma policy_lines_head:
  assumes "policy_inv p"
  shows "policy_lines (head_text p @ d) q =
    policy_lines d (q\<lparr>uac_level := uac_level p, allowlist_on := allowlist_on p, scanner_on := scanner_on p\<rparr>)"
proof -
  have u: "0 \<le> uac_level p" "uac_level p < UAC_LEVELS" using assms(1) by (simp_all add: policy_inv_def)
  then have "uac_level p = 0 \<or> uac_level p = 1 \<or> uac_level p = 2 \<or> uac_level p = 3" by (auto simp: UAC_LEVELS_def)
  then have nl: "(10 :: u8) \<noteq> 48 + of_int (uac_level p)" by auto
  have "policy_lines (head_text p @ d) q = policy_lines ((bytes ''uac='' @ [48 + of_int (uac_level p)]) @ 10 #
      ((bytes ''allowlist='' @ [flag_char (allowlist_on p)]) @ 10 #
       ((bytes ''scanner='' @ [flag_char (scanner_on p)]) @ 10 # d))) q"
    by (simp add: head_text_def)
  also have "\<dots> = policy_lines ((bytes ''allowlist='' @ [flag_char (allowlist_on p)]) @ 10 #
       ((bytes ''scanner='' @ [flag_char (scanner_on p)]) @ 10 # d)) (q\<lparr>uac_level := uac_level p\<rparr>)"
    using policy_line_uac [OF u] nl by (subst policy_lines_step) (simp_all add: bytes_def)
  also have "\<dots> = policy_lines ((bytes ''scanner='' @ [flag_char (scanner_on p)]) @ 10 # d)
      (q\<lparr>uac_level := uac_level p, allowlist_on := allowlist_on p\<rparr>)"
    using policy_line_flags by (subst policy_lines_step) (simp_all add: bytes_def flag_char_def)
  also have "\<dots> = policy_lines d (q\<lparr>uac_level := uac_level p, allowlist_on := allowlist_on p, scanner_on := scanner_on p\<rparr>)"
    using policy_line_flags by (subst policy_lines_step) (simp_all add: bytes_def flag_char_def)
  finally show ?thesis .
qed

definition clean_names :: "policy \<Rightarrow> bool" where
  "clean_names p \<longleftrightarrow> distinct (allow_list p) \<and> (\<forall>a \<in> set (allow_list p). 10 \<notin> set a)"

lemma clean_namesD:
  assumes "policy_inv p" and "clean_names p" and "a \<in> set (allow_list p)"
  shows "0 \<notin> set a \<and> 10 \<notin> set a \<and> length a < ALLOW_NAME"
proof -
  obtain i where "i < length (allow_list p)" "a = allow_list p ! i" using assms(3) by (metis in_set_conv_nth)
  then have "a = cstr (allow_names p ! i)" "i < allow_count p" by (simp_all add: allow_list_def)
  then show ?thesis using assms by (simp add: clean_names_def policy_inv_def)
qed

text \<open>The file holds the names when it is at most one byte too long, and then only the newline is cut.\<close>

lemma policy_lines_fit:
  assumes "policy_inv p" and "clean_names p" and "policy_inv q" and "allow_list q = []"
    and "weight (allow_list p) \<le> 484"
    and "r = policy_lines (take 483 (concat (map name_line (allow_list p)))) q"
  shows "policy_inv r \<and> allow_list r = allow_list p \<and> same_flags q r"
proof -
  note nm = clean_namesD [OF assms(1,2)]
  have m: "length (allow_list p) \<le> ALLOW_MAX" using assms(1) by (simp add: allow_list_def policy_inv_def)
  have d: "distinct (allow_list p)" using assms(2) by (simp add: clean_names_def)
  show ?thesis
  proof (cases "weight (allow_list p) \<le> 483")
    case True
    then have "r = policy_lines (concat (map name_line (allow_list p)) @ []) q"
      using assms(6) length_name_lines [of "allow_list p"] by simp
    then show ?thesis
      using policy_lines_names [of q "allow_list p" "[]"] nm d m assms(3,4) by (auto simp: policy_lines.simps [of "[]"])
  next
    case False
    then have w: "weight (allow_list p) = 484" using assms(5) by simp
    then obtain as a where as: "allow_list p = as @ [a]" by (cases "allow_list p" rule: rev_cases) (auto simp: weight_def)
    let ?t = "concat (map name_line as) @ (bytes ''allow='' @ a)"
    have "concat (map name_line (allow_list p)) = ?t @ [10]" by (simp add: as name_line_def)
    moreover from this have "length ?t = 483" using w length_name_lines [of "allow_list p"] by simp
    ultimately have "take 483 (concat (map name_line (allow_list p))) = ?t" by (metis append_eq_conv_conj)
    then have r: "r = policy_lines ?t q" using assms(6) by simp
    obtain q1 where q1: "policy_inv q1" "allow_list q1 = as" "same_flags q q1"
        "policy_lines ?t q = policy_lines (bytes ''allow='' @ a) q1"
      using policy_lines_names [of q as "bytes ''allow='' @ a"] nm d m assms(3,4) as by auto
    have a: "0 \<notin> set a" "10 \<notin> set a" "length a < ALLOW_NAME" using nm [of a] as by auto
    have "r = snd (allow_add (a @ [0]) q1)" unfolding r q1(4) by (rule policy_lines_last_name [OF a])
    from allow_add_new [OF q1(1) a(1,3) _ _ this] show ?thesis
      using q1(2,3) d m as by (simp add: same_flags_def)
  qed
qed

section \<open>Properties\<close>

text \<open>
  C11: Saving a policy and loading the file into any other policy gives the same allowlist and
  the same settings exactly when the text is at most 512 bytes, one more than the buffer
  holds; beyond that the loaded allowlist differs from the saved one.  Names are taken to be
  distinct and to contain no newline.
\<close>

theorem policy_save_load:
  assumes "policy_inv p" and "clean_names p" and "policy_inv q"
    and "r = policy_load (Some (policy_save p)) q"
  shows "policy_inv r \<and> (if length (policy_text p) \<le> 512
    then allow_list r = allow_list p \<and> same_flags p r else allow_list r \<noteq> allow_list p)"
proof -
  let ?n = "concat (map name_line (allow_list p))"
  let ?q = "q\<lparr>allow_count := 0, uac_level := uac_level p, allowlist_on := allowlist_on p, scanner_on := scanner_on p\<rparr>"
  have "policy_save p = head_text p @ take 483 ?n"
    using policy_save_text [OF assms(1)] by (simp add: policy_text_split length_head_text)
  moreover from this have "policy_save p \<noteq> []" by (simp add: head_text_def)
  ultimately have "r = policy_lines (head_text p @ take 483 ?n) (q\<lparr>allow_count := 0\<rparr>)"
    unfolding assms(4) policy_load_def by (simp only: option.case if_False)
  then have r: "r = policy_lines (take 483 ?n) ?q" using policy_lines_head [OF assms(1)] by simp
  have q: "policy_inv ?q" "allow_list ?q = []" "same_flags p ?q"
    using assms(1,3) by (simp_all add: policy_inv_def allow_list_def same_flags_def)
  have len: "length (policy_text p) = 28 + weight (allow_list p)"
    by (simp add: policy_text_split length_head_text length_name_lines)
  show ?thesis
  proof (cases "length (policy_text p) \<le> 512")
    case True
    then show ?thesis
      using policy_lines_fit [OF assms(1,2) q(1,2) _ r] q(3) len by (simp add: same_flags_def)
  next
    case False
    have "weight (allow_list r) \<le> weight (allow_list ?q) + length (take 483 ?n) + 1" and i: "policy_inv r"
      using policy_lines_weight [OF q(1), of "take 483 ?n"] unfolding r by blast+
    then have "weight (allow_list r) \<le> 484" unfolding q(2) by (simp add: weight_def)
    then show ?thesis using False len i by auto
  qed
qed

definition demo_names :: "nat \<Rightarrow> u8 list list" where
  "demo_names n = map (\<lambda>i. replicate 30 120 @ [65 + of_nat i, 0]) [0..<n] @ replicate (32 - n) (replicate 32 0)"

definition demo_policy :: "nat \<Rightarrow> policy" where
  "demo_policy n = \<lparr>uac_level = 2, allowlist_on = True, scanner_on = False, allow_names = demo_names n, allow_count = n\<rparr>"

theorem policy_save_load_witness:
  "allow_list (policy_load (Some (policy_save (demo_policy 12))) (demo_policy 0)) = allow_list (demo_policy 12) \<and>
   allow_list (policy_load (Some (policy_save (demo_policy 13))) (demo_policy 0)) \<noteq> allow_list (demo_policy 13)"
proof -
  have q: "policy_inv (demo_policy 0)" by code_simp
  have a: "policy_inv (demo_policy 12)" "clean_names (demo_policy 12)" "length (policy_text (demo_policy 12)) \<le> 512"
    by code_simp+
  have b: "policy_inv (demo_policy 13)" "clean_names (demo_policy 13)" "\<not> length (policy_text (demo_policy 13)) \<le> 512"
    by code_simp+
  show ?thesis
    using policy_save_load [OF a(1,2) q refl] policy_save_load [OF b(1,2) q refl] a(3) b(3) by simp
qed

text \<open>
  C12: Whatever bytes the policy file holds, loading it keeps the policy well formed: the level
  stays one of the four, the allowlist within its 32 entries and every name terminated.
\<close>

theorem policy_load_inv: "policy_inv p \<Longrightarrow> policy_inv (policy_load file p)"
proof -
  assume p: "policy_inv p"
  then have "policy_inv (p\<lparr>allow_count := 0\<rparr>)" by (simp add: policy_inv_def)
  then show ?thesis using p policy_lines_weight unfolding policy_load_def by (simp split: option.split)
qed

theorem policy_load_inv_witness: "policy_inv (policy_load (Some (bytes ''uac=9'')) (demo_policy 3))"
  by (rule policy_load_inv) code_simp

text \<open>
  C13: The allowlist operations implement those of a bounded list of names: \<open>allow_permits\<close> is
  membership, \<open>allow_add\<close> appends the first 31 bytes of a new name while there is room and
  reports whether there was, \<open>allow_remove\<close> drops the first occurrence and reports whether
  there was one.  Each keeps the policy well formed.
\<close>

theorem allow_refines:
  assumes "policy_inv p"
  shows "(allow_permits name p \<longleftrightarrow> \<not> allowlist_on p \<or> cstr name \<in> set (allow_list p)) \<and>
    policy_inv (snd (allow_add name p)) \<and> policy_inv (snd (allow_remove name p)) \<and>
    (fst (allow_add name p) \<longleftrightarrow> length (allow_list p) < ALLOW_MAX) \<and>
    allow_list (snd (allow_add name p)) =
      (if length (allow_list p) \<ge> ALLOW_MAX \<or> cstr name \<in> set (allow_list p) then allow_list p
       else allow_list p @ [take 31 (cstr name)]) \<and>
    (fst (allow_remove name p) \<longleftrightarrow> cstr name \<in> set (allow_list p)) \<and>
    allow_list (snd (allow_remove name p)) = remove1 (cstr name) (allow_list p)"
  using allow_permits_list allow_add_list [OF assms] allow_remove_list [OF assms] by simp

theorem allow_refines_witness:
  "allow_list (snd (allow_add (bytes ''paint'') (demo_policy 2))) = allow_list (demo_policy 2) @ [bytes ''paint'']"
proof -
  have "policy_inv (demo_policy 2)" by code_simp
  note r = allow_refines [OF this, of "bytes ''paint''"]
  have "\<not> (length (allow_list (demo_policy 2)) \<ge> ALLOW_MAX \<or> cstr (bytes ''paint'') \<in> set (allow_list (demo_policy 2)))"
    "take 31 (cstr (bytes ''paint'')) = bytes ''paint''"
    by code_simp+
  with r show ?thesis by simp
qed

text \<open>
  C14: A name that \<open>allow_add\<close> accepted is permitted afterwards, with the allowlist on, exactly
  when it has at most 31 bytes: a longer one is stored cut short and never matches again.
\<close>

theorem allow_add_permits:
  assumes "policy_inv p" and "allowlist_on p" and "fst (allow_add name p)"
  shows "allow_permits name (snd (allow_add name p)) \<longleftrightarrow> length (cstr name) < ALLOW_NAME"
proof -
  let ?q = "snd (allow_add name p)"
  note a = allow_add_list [OF assms(1), of name]
  have short: "length n < ALLOW_NAME" if "n \<in> set (allow_list ?q)" for n
    using that a(3) by (auto simp: allow_list_def policy_inv_def in_set_conv_nth)
  have "length (cstr name) < ALLOW_NAME \<Longrightarrow> cstr name \<in> set (allow_list ?q)"
    using a(1,2) assms(3) by (auto simp: ALLOW_NAME_def)
  then show ?thesis using short assms(2) by (auto simp: allow_permits_list allow_add_frame)
qed

theorem allow_add_permits_witness:
  "\<not> allow_permits (replicate 40 97) (snd (allow_add (replicate 40 97) (demo_policy 2)))"
proof -
  have "policy_inv (demo_policy 2)" "allowlist_on (demo_policy 2)" "fst (allow_add (replicate 40 97) (demo_policy 2))"
    "\<not> length (cstr (replicate 40 97)) < ALLOW_NAME"
    by code_simp+
  then show ?thesis using allow_add_permits by blast
qed

end
