(* ===== verification/Sched.thy ===== *)
theory Sched
  imports Kstring
begin

text \<open>
  The thread scheduler of \<^verbatim>\<open>src/src/sched/scheduler.c\<close> and \<^verbatim>\<open>sched.h\<close>.

  Pointers are 64-bit addresses, 0 the null pointer.  Control blocks and address spaces are
  partial maps from addresses, so that \<open>kmalloc\<close> and \<open>kfree\<close> extend and shrink the map; what the
  two allocators answer is an argument of the operation.  Trap frames and the return slots
  below them are stores of their own.  The processor registers the switch code writes (CR3,
  the two segment bases, the FPU area, TSS.RSP0) are fields of the state.

  A blocking call gives the processor away in a loop until its state changes, so it is split
  at the loop: the operation of the same name is what runs before the loop, and what runs
  after it is a definition of its own where there is something.
\<close>

section \<open>Data\<close>

definition SCHED_MAX_THREADS :: nat where "SCHED_MAX_THREADS = 64"
definition SCHED_NAME_LEN :: nat where "SCHED_NAME_LEN = 24"
definition SCHED_KSTACK :: u64 where "SCHED_KSTACK = 32 * 1024"
definition SCHED_MAX_CPUS :: nat where "SCHED_MAX_CPUS = 16"
definition PRIO_IDLE :: u32 where "PRIO_IDLE = 0"
definition PRIO_NORMAL :: u32 where "PRIO_NORMAL = 4"
definition PRIO_UI :: u32 where "PRIO_UI = 8"
definition PTE_ADDR_MASK :: u64 where "PTE_ADDR_MASK = 0x000FFFFFFFFFF000"
definition GDT_KCODE :: u64 where "GDT_KCODE = 0x08"
definition GDT_KDATA :: u64 where "GDT_KDATA = 0x10"
definition SEL_UCODE :: u64 where "SEL_UCODE = 0x28 OR 3"
definition SEL_UDATA :: u64 where "SEL_UDATA = 0x20 OR 3"

datatype thread_state = T_FREE | T_READY | T_RUNNING | T_SLEEPING | T_ZOMBIE

record gregs =
  r15 :: u64  r14 :: u64  r13 :: u64  r12 :: u64  r11 :: u64  r10 :: u64  r9 :: u64  r8 :: u64
  rbp :: u64  rdi :: u64  rsi :: u64  rdx :: u64  rcx :: u64  rbx :: u64  rax :: u64

record trap_frame = gregs +
  f_rip :: u64  f_cs :: u64  f_rflags :: u64  f_rsp :: u64  f_ss :: u64

record syscall_frame = gregs +
  user_rsp :: u64

record addr_space =
  pml4_phys :: u64
  refs :: u32

record tcb =
  t_rsp :: u64
  t_cr3 :: u64
  t_kstack_top :: u64
  t_kstack :: u64
  t_as :: u64
  t_pid :: u32
  t_prio :: u32
  t_state :: thread_state
  t_wake_at :: u64
  t_slices :: u64
  t_user :: bool
  t_waits_frame :: bool
  t_wait_chan :: u64
  t_exit_code :: u32
  t_cpu :: u32
  t_fsbase :: u64
  t_sframe :: "syscall_frame option"
  t_sfast :: bool
  t_name :: "u8 list"
  t_fx :: "u8 list"

record sched =
  threads :: "u64 list"
  cur_thread :: u64
  idle_thread :: u64
  next_pid :: u32
  preempt_count :: u32
  ticks :: u64
  switches :: u64
  running :: bool
  fx_template :: "u8 list"
  gs_base_live :: u64
  fsbase_want :: u64
  fsbase_live :: u64
  soft_yield :: bool
  rq :: "int list"
  cpus :: int
  dispatchers :: int
  tcbs :: "u64 \<rightharpoonup> tcb"
  spaces :: "u64 \<rightharpoonup> addr_space"
  kstacks :: "u64 list"
  frames :: "u64 \<rightharpoonup> trap_frame"
  slots :: "u64 \<rightharpoonup> u64"
  tss_rsp0 :: u64
  syscall_kstack :: u64
  vmm_current :: u64
  cr3 :: u64
  fpu :: "u8 list"
  msr_fs :: u64
  msr_gs :: u64

definition tcb_of :: "sched \<Rightarrow> u64 \<Rightarrow> tcb" where
  "tcb_of s t = the (tcbs s t)"

definition upd :: "u64 \<Rightarrow> (tcb \<Rightarrow> tcb) \<Rightarrow> sched \<Rightarrow> sched" where
  "upd t f s = s\<lparr>tcbs := (tcbs s)(t \<mapsto> f (tcb_of s t))\<rparr>"

definition zero_regs :: trap_frame where
  "zero_regs = \<lparr>r15 = 0, r14 = 0, r13 = 0, r12 = 0, r11 = 0, r10 = 0, r9 = 0, r8 = 0, rbp = 0, rdi = 0,
     rsi = 0, rdx = 0, rcx = 0, rbx = 0, rax = 0, f_rip = 0, f_cs = 0, f_rflags = 0, f_rsp = 0, f_ss = 0\<rparr>"

definition zero_tcb :: tcb where
  "zero_tcb = \<lparr>t_rsp = 0, t_cr3 = 0, t_kstack_top = 0, t_kstack = 0, t_as = 0, t_pid = 0, t_prio = 0,
     t_state = T_FREE, t_wake_at = 0, t_slices = 0, t_user = False, t_waits_frame = False, t_wait_chan = 0,
     t_exit_code = 0, t_cpu = 0, t_fsbase = 0, t_sframe = None, t_sfast = False,
     t_name = replicate SCHED_NAME_LEN 0, t_fx = replicate 512 0\<rparr>"

section \<open>Segment bases\<close>

definition sched_set_gs_base :: "u64 \<Rightarrow> sched \<Rightarrow> sched" where
  "sched_set_gs_base va s = (if gs_base_live s = va then s else s\<lparr>gs_base_live := va, msr_gs := va\<rparr>)"

definition sched_set_fsbase :: "u64 \<Rightarrow> sched \<Rightarrow> sched" where
  "sched_set_fsbase va s =
     (let s = (if cur_thread s \<noteq> 0 then upd (cur_thread s) (\<lambda>t. t\<lparr>t_fsbase := va\<rparr>) s else s)
      in s\<lparr>fsbase_want := va, fsbase_live := va, msr_fs := va\<rparr>)"

section \<open>Slots and ready queues\<close>

fun slot_from :: "nat \<Rightarrow> u64 list \<Rightarrow> u64 \<Rightarrow> int" where
  "slot_from i [] t = - 1"
| "slot_from i (x # xs) t = (if x = t then int i else slot_from (Suc i) xs t)"

definition sched_slot :: "sched \<Rightarrow> u64 \<Rightarrow> int" where
  "sched_slot s t = slot_from 0 (threads s) t"

definition sched_here :: u32 where "sched_here = 0"

definition sched_set_cpu_count :: "int \<Rightarrow> sched \<Rightarrow> sched" where
  "sched_set_cpu_count n s =
     (let n = (if n < 1 then 1 else n);
          n = (if n > int SCHED_MAX_CPUS then int SCHED_MAX_CPUS else n)
      in s\<lparr>cpus := n\<rparr>)"

definition sched_queue_depth :: "int \<Rightarrow> sched \<Rightarrow> int" where
  "sched_queue_depth cpu s = (if cpu < 0 \<or> cpu \<ge> int SCHED_MAX_CPUS then 0 else rq s ! nat cpu)"

fun home_loop :: "int list \<Rightarrow> nat list \<Rightarrow> nat \<Rightarrow> nat" where
  "home_loop q [] best = best"
| "home_loop q (c # cs) best = home_loop q cs (if q ! c < q ! best then c else best)"

definition sched_pick_home :: "u32 \<Rightarrow> sched \<Rightarrow> u32" where
  "sched_pick_home prio s =
     (if prio \<ge> PRIO_UI \<or> cpus s \<le> 1 then 0 else of_nat (home_loop (rq s) [1..<nat (cpus s)] 0))"

definition sched_rq_join :: "u64 \<Rightarrow> sched \<Rightarrow> sched" where
  "sched_rq_join t s =
     (let s = (if t_cpu (tcb_of s t) \<ge> of_nat SCHED_MAX_CPUS then upd t (\<lambda>x. x\<lparr>t_cpu := 0\<rparr>) s else s);
          c = unat (t_cpu (tcb_of s t))
      in s\<lparr>rq := (rq s)[c := rq s ! c + 1]\<rparr>)"

definition sched_rq_leave :: "u64 \<Rightarrow> sched \<Rightarrow> sched" where
  "sched_rq_leave t s =
     (if t_cpu (tcb_of s t) \<ge> of_nat SCHED_MAX_CPUS then s
      else let c = unat (t_cpu (tcb_of s t))
           in if rq s ! c > 0 then s\<lparr>rq := (rq s)[c := rq s ! c - 1]\<rparr> else s)"

section \<open>Choosing the next thread\<close>

fun pick_loop :: "bool \<Rightarrow> bool \<Rightarrow> nat list \<Rightarrow> sched \<Rightarrow> u64 \<Rightarrow> u64 \<times> sched" where
  "pick_loop first affine [] s best = (best, s)"
| "pick_loop first affine (i # is) s best =
     (let t = threads s ! i
      in if t = 0 then pick_loop first affine is s best
         else
           let s = (if first \<and> t_state (tcb_of s t) = T_SLEEPING \<and> ticks s \<ge> t_wake_at (tcb_of s t)
                    then upd t (\<lambda>x. x\<lparr>t_state := T_READY\<rparr>) s else s)
           in if t_state (tcb_of s t) \<noteq> T_READY \<and> t_state (tcb_of s t) \<noteq> T_RUNNING
              then pick_loop first affine is s best
              else if first \<and> affine \<and> t_cpu (tcb_of s t) \<noteq> sched_here
              then pick_loop first affine is s best
              else pick_loop first affine is s
                     (if best = 0 \<or> t_prio (tcb_of s t) > t_prio (tcb_of s best) then t else best))"

definition pick_order :: "int \<Rightarrow> nat list" where
  "pick_order start =
     map (\<lambda>n. nat ((start + int n) mod int SCHED_MAX_THREADS)) [1..<Suc SCHED_MAX_THREADS]"

definition sched_pick :: "sched \<Rightarrow> u64 \<times> sched" where
  "sched_pick s =
     (let start = (if cur_thread s \<noteq> 0 then sched_slot s (cur_thread s) else - 1);
          affine = dispatchers s > 1;
          (best, s) = pick_loop True affine (pick_order start) s 0
      in if best \<noteq> 0 \<or> \<not> affine then (best, s)
         else pick_loop False affine (pick_order start) s best)"

section \<open>The tick\<close>

text \<open>The parts of the switch, in the order of the code: write down, change over, load.\<close>

definition sched_save :: "u64 \<Rightarrow> sched \<Rightarrow> sched" where
  "sched_save sp s =
     upd (cur_thread s) (\<lambda>t. t\<lparr>t_rsp := sp, t_fx := fpu s,
       t_state := (if t_state t = T_RUNNING then T_READY else t_state t)\<rparr>) s"

definition sched_enter :: "u64 \<Rightarrow> sched \<Rightarrow> sched" where
  "sched_enter next s =
     upd next (\<lambda>t. t\<lparr>t_state := T_RUNNING, t_slices := t_slices t + 1\<rparr>)
       (s\<lparr>cur_thread := next, switches := switches s + 1\<rparr>)"

definition sched_load :: "u64 \<Rightarrow> sched \<Rightarrow> sched" where
  "sched_load next s =
     (let n = tcb_of s next
      in s\<lparr>tss_rsp0 := t_kstack_top n, syscall_kstack := t_kstack_top n, vmm_current := t_as n,
           cr3 := (if cr3 s AND PTE_ADDR_MASK \<noteq> t_cr3 n then t_cr3 n else cr3 s),
           fsbase_want := t_fsbase n, fpu := t_fx n\<rparr>)"

definition sched_switch :: "u64 \<Rightarrow> u64 \<Rightarrow> sched \<Rightarrow> u64 \<times> sched" where
  "sched_switch next sp s =
     (let s = sched_load next (sched_enter next (sched_save sp s)) in (t_rsp (tcb_of s next), s))"

definition sched_count :: "sched \<Rightarrow> sched" where
  "sched_count s = s\<lparr>soft_yield := False, ticks := (if soft_yield s then ticks s else ticks s + 1)\<rparr>"

definition sched_on_tick :: "u64 \<Rightarrow> sched \<Rightarrow> u64 \<times> sched" where
  "sched_on_tick sp s =
     (let soft = soft_yield s;
          s = sched_count s
      in if \<not> running s \<or> cur_thread s = 0 then (sp, s)
         else if 0 < sint (preempt_count s) \<and> \<not> soft then (sp, s)
         else let (next, s) = sched_pick s
              in if next = 0 \<or> next = cur_thread s
                 then (sp, if t_state (tcb_of s (cur_thread s)) = T_READY
                           then upd (cur_thread s) (\<lambda>t. t\<lparr>t_state := T_RUNNING\<rparr>) s else s)
                 else sched_switch next sp s)"

text \<open>The part of the timer entry after the call: the thread-local base is loaded when it changed.\<close>

definition sched_timer_stub :: "u64 \<Rightarrow> sched \<Rightarrow> u64 \<times> sched" where
  "sched_timer_stub sp s =
     (let (r, s) = sched_on_tick sp s
      in (r, if fsbase_want s = fsbase_live s then s
             else s\<lparr>fsbase_live := fsbase_want s, msr_fs := fsbase_want s\<rparr>))"

definition preempt_disable :: "sched \<Rightarrow> sched" where
  "preempt_disable s = s\<lparr>preempt_count := preempt_count s + 1\<rparr>"

definition preempt_enable :: "sched \<Rightarrow> sched" where
  "preempt_enable s = s\<lparr>preempt_count := preempt_count s - 1\<rparr>"

definition sched_yield :: "u64 \<Rightarrow> sched \<Rightarrow> u64 \<times> sched" where
  "sched_yield sp s = sched_timer_stub sp (s\<lparr>soft_yield := True\<rparr>)"

section \<open>Creating threads\<close>

definition sched_name :: "u64 \<Rightarrow> u8 list \<Rightarrow> sched \<Rightarrow> sched" where
  "sched_name t n s = upd t (\<lambda>x. x\<lparr>t_name := str_copy (t_name x) n SCHED_NAME_LEN\<rparr>) s"

definition sched_register :: "u64 \<Rightarrow> sched \<Rightarrow> int \<times> sched" where
  "sched_register t s =
     (let i = slot_from 0 (threads s) 0
      in if i \<ge> 0 then (i, s\<lparr>threads := (threads s)[nat i := t]\<rparr>) else (- 1, s))"

definition kfree_tcb :: "u64 \<Rightarrow> sched \<Rightarrow> sched" where
  "kfree_tcb t s = s\<lparr>tcbs := (tcbs s)(t := None)\<rparr>"

definition kstack_free :: "u64 \<Rightarrow> sched \<Rightarrow> sched" where
  "kstack_free k s = s\<lparr>kstacks := remove1 k (kstacks s)\<rparr>"

definition sched_init :: "u64 \<Rightarrow> u8 list \<Rightarrow> sched \<Rightarrow> sched" where
  "sched_init p fpu_reset s =
     (let s = s\<lparr>threads := replicate SCHED_MAX_THREADS 0, fpu := fpu_reset, fx_template := fpu_reset\<rparr>
      in if p = 0 then s
         else
           let s = s\<lparr>tcbs := (tcbs s)(p \<mapsto> zero_tcb)\<rparr>;
               s = upd p (\<lambda>t. t\<lparr>t_pid := next_pid s, t_prio := PRIO_UI, t_state := T_RUNNING, t_user := False,
                     t_as := 0, t_kstack := 0, t_cpu := 0, t_kstack_top := tss_rsp0 s,
                     t_cr3 := cr3 s AND PTE_ADDR_MASK, t_fx := fx_template s\<rparr>)
                     (s\<lparr>next_pid := next_pid s + 1\<rparr>);
               s = sched_name p (bytes ''compositor'') s;
               s = snd (sched_register p s);
               s = sched_rq_join p s
           in s\<lparr>cur_thread := p\<rparr>)"

definition TRAP_FRAME_SIZE :: u64 where "TRAP_FRAME_SIZE = 160"

definition frame_addr :: "u64 \<Rightarrow> u64" where
  "frame_addr k = ((k + SCHED_KSTACK) AND NOT 15) - TRAP_FRAME_SIZE"

definition sched_build_frame :: "u64 \<Rightarrow> u64 \<Rightarrow> u64 \<Rightarrow> bool \<Rightarrow> sched \<Rightarrow> u64 \<times> sched" where
  "sched_build_frame t entry stack_ptr user s =
     (let f = frame_addr (t_kstack (tcb_of s t))
      in (f, s\<lparr>frames := (frames s)(f \<mapsto> zero_regs\<lparr>f_rip := entry, f_cs := (if user then SEL_UCODE else GDT_KCODE),
                f_ss := (if user then SEL_UDATA else GDT_KDATA), f_rsp := stack_ptr, f_rflags := 0x202\<rparr>)\<rparr>))"

definition upd_frame :: "u64 \<Rightarrow> (trap_frame \<Rightarrow> trap_frame) \<Rightarrow> sched \<Rightarrow> sched" where
  "upd_frame f g s = s\<lparr>frames := (frames s)(f \<mapsto> g (the (frames s f)))\<rparr>"

text \<open>\<open>fell_off\<close> is the address of \<open>sched_thread_fell_off\<close>.\<close>

definition sched_entry_sp :: "u64 \<Rightarrow> u64 \<Rightarrow> sched \<Rightarrow> u64 \<times> sched" where
  "sched_entry_sp fell_off frame s = (frame - 8, s\<lparr>slots := (slots s)(frame - 8 \<mapsto> fell_off)\<rparr>)"

definition sched_new :: "u8 list \<Rightarrow> u32 \<Rightarrow> u64 \<Rightarrow> u64 \<Rightarrow> sched \<Rightarrow> u64 \<times> sched" where
  "sched_new name prio p k s =
     (if p = 0 then (0, s)
      else
        let s = s\<lparr>tcbs := (tcbs s)(p \<mapsto> zero_tcb\<lparr>t_kstack := k\<rparr>)\<rparr>
        in if k = 0 then (0, kfree_tcb p s)
           else
             let s = s\<lparr>kstacks := k # kstacks s\<rparr>;
                 s = upd p (\<lambda>t. t\<lparr>t_pid := next_pid s, t_prio := prio, t_state := T_READY,
                       t_kstack_top := (k + SCHED_KSTACK) AND NOT 15, t_cpu := sched_pick_home prio s,
                       t_fx := fx_template s\<rparr>) (s\<lparr>next_pid := next_pid s + 1\<rparr>);
                 s = sched_name p name s
             in (p, sched_rq_join p s))"

text \<open>How every spawn ends: the thread enters the table, or everything it took is given back.\<close>

definition sched_admit :: "u64 \<Rightarrow> sched \<Rightarrow> u64 \<times> sched" where
  "sched_admit t s =
     (let (i, s) = sched_register t s
      in if i < 0
         then let s = sched_rq_leave t s;
                  s = kstack_free (t_kstack (tcb_of s t)) s
              in (0, kfree_tcb t s)
         else (t, s))"

definition sched_spawn_kernel :: "u64 \<Rightarrow> u64 \<Rightarrow> u8 list \<Rightarrow> u32 \<Rightarrow> u64 \<Rightarrow> u64 \<Rightarrow> sched \<Rightarrow> u64 \<times> sched" where
  "sched_spawn_kernel fell_off fn name prio p k s =
     (let (t, s) = sched_new name prio p k s
      in if t = 0 then (0, s)
         else
           let s = upd t (\<lambda>x. x\<lparr>t_user := False, t_as := 0, t_cr3 := cr3 s AND PTE_ADDR_MASK\<rparr>) s;
               (frame, s) = sched_build_frame t fn 0 False s;
               (sp, s) = sched_entry_sp fell_off frame s;
               s = upd_frame frame (\<lambda>f. f\<lparr>f_rsp := sp\<rparr>) s;
               s = upd t (\<lambda>x. x\<lparr>t_rsp := frame\<rparr>) s
           in sched_admit t s)"

definition sched_spawn_kernel_arg ::
    "u64 \<Rightarrow> u64 \<Rightarrow> u64 \<Rightarrow> u8 list \<Rightarrow> u32 \<Rightarrow> u64 \<Rightarrow> u64 \<Rightarrow> sched \<Rightarrow> u64 \<times> sched" where
  "sched_spawn_kernel_arg fell_off fn arg name prio p k s =
     (let (t, s) = sched_new name prio p k s
      in if t = 0 then (0, s)
         else
           let s = upd t (\<lambda>x. x\<lparr>t_user := False, t_as := 0, t_cr3 := cr3 s AND PTE_ADDR_MASK\<rparr>) s;
               (frame, s) = sched_build_frame t fn 0 False s;
               (sp, s) = sched_entry_sp fell_off frame s;
               s = upd_frame frame (\<lambda>f. f\<lparr>f_rsp := sp, rdi := arg\<rparr>) s;
               s = upd t (\<lambda>x. x\<lparr>t_rsp := frame\<rparr>) s
           in sched_admit t s)"

definition sched_spawn_user ::
    "u64 \<Rightarrow> u64 \<Rightarrow> u64 \<Rightarrow> u8 list \<Rightarrow> u32 \<Rightarrow> u64 \<Rightarrow> u64 \<Rightarrow> sched \<Rightarrow> u64 \<times> sched" where
  "sched_spawn_user as entry user_stack name prio p k s =
     (let (t, s) = sched_new name prio p k s
      in if t = 0 then (0, s)
         else
           let s = upd t (\<lambda>x. x\<lparr>t_user := True, t_as := as, t_cr3 := pml4_phys (the (spaces s as))\<rparr>) s;
               (frame, s) = sched_build_frame t entry user_stack True s;
               s = upd t (\<lambda>x. x\<lparr>t_rsp := frame\<rparr>) s
           in sched_admit t s)"

definition add_ref :: "u64 \<Rightarrow> sched \<Rightarrow> sched" where
  "add_ref as s = s\<lparr>spaces := (spaces s)(as \<mapsto> (the (spaces s as))\<lparr>refs := refs (the (spaces s as)) + 1\<rparr>)\<rparr>"

definition sched_spawn_thread ::
    "u64 \<Rightarrow> u64 \<Rightarrow> u64 \<Rightarrow> u64 \<Rightarrow> u64 \<Rightarrow> u8 list \<Rightarrow> u64 \<Rightarrow> u64 \<Rightarrow> sched \<Rightarrow> u64 \<times> sched" where
  "sched_spawn_thread as entry user_stack arg fsbase name p k s =
     (if as = 0 then (0, s)
      else
        let (t, s) = sched_new name PRIO_NORMAL p k s
        in if t = 0 then (0, s)
           else
             let s = upd t (\<lambda>x. x\<lparr>t_user := True, t_as := as, t_cr3 := pml4_phys (the (spaces s as)),
                       t_fsbase := fsbase\<rparr>) s;
                 s = (if t_cpu (tcb_of s t) \<noteq> 0
                      then sched_rq_join t (upd t (\<lambda>x. x\<lparr>t_cpu := 0\<rparr>) (sched_rq_leave t s)) else s);
                 (frame, s) = sched_build_frame t entry user_stack True s;
                 s = upd_frame frame (\<lambda>f. f\<lparr>rdi := arg\<rparr>) s;
                 s = upd t (\<lambda>x. x\<lparr>t_rsp := frame\<rparr>) s;
                 (r, s) = sched_admit t s
             in (r, if r = 0 then s else add_ref as s))"

text \<open>The frame a forked or cloned thread resumes on, from its parent's system call frame.\<close>

definition child_frame :: "syscall_frame \<Rightarrow> u64 \<Rightarrow> trap_frame" where
  "child_frame p sp =
     \<lparr>r15 = r15 p, r14 = r14 p, r13 = r13 p, r12 = r12 p, r11 = r11 p, r10 = r10 p, r9 = r9 p, r8 = r8 p,
      rbp = rbp p, rdi = rdi p, rsi = rsi p, rdx = rdx p, rcx = rcx p, rbx = rbx p, rax = 0,
      f_rip = rcx p, f_cs = SEL_UCODE, f_rflags = (r11 p OR 0x202) AND NOT 0x8, f_rsp = sp, f_ss = SEL_UDATA\<rparr>"

definition sched_fork_thread :: "u64 \<Rightarrow> u64 \<Rightarrow> u64 \<Rightarrow> u64 \<Rightarrow> sched \<Rightarrow> u64 \<times> sched" where
  "sched_fork_thread parent child_as p k s =
     (if parent = 0 \<or> child_as = 0 then (0, s)
      else case t_sframe (tcb_of s parent) of
        None \<Rightarrow> (0, s)
      | Some pf \<Rightarrow>
          if \<not> t_sfast (tcb_of s parent) then (0, s)
          else
            let (t, s) = sched_new (t_name (tcb_of s parent)) (t_prio (tcb_of s parent)) p k s
            in if t = 0 then (0, s)
               else
                 let s = upd t (\<lambda>x. x\<lparr>t_user := True, t_as := child_as, t_cr3 := pml4_phys (the (spaces s child_as))\<rparr>) s;
                     f = frame_addr (t_kstack (tcb_of s t));
                     s = s\<lparr>frames := (frames s)(f \<mapsto> child_frame pf (user_rsp pf))\<rparr>;
                     s = upd t (\<lambda>x. x\<lparr>t_fx := t_fx (tcb_of s parent), t_rsp := f\<rparr>) s
                 in sched_admit t s)"

definition sched_clone_thread :: "u64 \<Rightarrow> u64 \<Rightarrow> u64 \<Rightarrow> u64 \<Rightarrow> u64 \<Rightarrow> sched \<Rightarrow> u64 \<times> sched" where
  "sched_clone_thread parent user_stack fsbase p k s =
     (if parent = 0 \<or> t_as (tcb_of s parent) = 0 then (0, s)
      else case t_sframe (tcb_of s parent) of
        None \<Rightarrow> (0, s)
      | Some pf \<Rightarrow>
          if \<not> t_sfast (tcb_of s parent) then (0, s)
          else
            let as = t_as (tcb_of s parent);
                (t, s) = sched_new (t_name (tcb_of s parent)) (t_prio (tcb_of s parent)) p k s
            in if t = 0 then (0, s)
               else
                 let s = upd t (\<lambda>x. x\<lparr>t_user := True, t_as := as, t_cr3 := pml4_phys (the (spaces s as)),
                           t_fsbase := fsbase, t_cpu := t_cpu (tcb_of s parent)\<rparr>) s;
                     f = frame_addr (t_kstack (tcb_of s t));
                     s = s\<lparr>frames := (frames s)(f \<mapsto> child_frame pf user_stack)\<rparr>;
                     s = upd t (\<lambda>x. x\<lparr>t_fx := t_fx (tcb_of s parent), t_rsp := f\<rparr>) s;
                     (r, s) = sched_admit t s
                 in (r, if r = 0 then s else add_ref as s))"

definition sched_start :: "bool \<Rightarrow> u64 \<Rightarrow> u64 \<Rightarrow> u64 \<Rightarrow> u64 \<Rightarrow> sched \<Rightarrow> sched" where
  "sched_start lapic_present fell_off idle_fn p k s =
     (if \<not> lapic_present then s
      else let (t, s) = sched_spawn_kernel fell_off idle_fn (bytes ''idle'') PRIO_IDLE p k s;
               s = s\<lparr>idle_thread := t\<rparr>
           in if t = 0 then s else s\<lparr>running := True\<rparr>)"

section \<open>Sleeping and waking\<close>

definition park :: "(tcb \<Rightarrow> tcb) \<Rightarrow> sched \<Rightarrow> sched" where
  "park f s = upd (cur_thread s) (\<lambda>t. (f t)\<lparr>t_state := T_SLEEPING\<rparr>) s"

definition sched_sleep_ms :: "u64 \<Rightarrow> sched \<Rightarrow> sched" where
  "sched_sleep_ms ms s =
     (if cur_thread s = 0 \<or> \<not> running s then s
      else park (\<lambda>t. t\<lparr>t_wake_at := ticks s + (if ms \<noteq> 0 then ms else 1)\<rparr>) s)"

text \<open>\<open>None\<close>: the call returns 0 at once; \<open>Some\<close>: the thread is parked.\<close>

definition sched_block_on :: "u64 \<Rightarrow> u32 \<Rightarrow> sched \<Rightarrow> sched option" where
  "sched_block_on chan timeout_ms s =
     (if cur_thread s = 0 \<or> \<not> running s then None
      else Some (park (\<lambda>t. t\<lparr>t_wait_chan := chan,
             t_wake_at := (if timeout_ms \<noteq> 0 then ticks s + ucast timeout_ms else - 1)\<rparr>) s))"

definition sched_block_on_return :: "sched \<Rightarrow> bool \<times> sched" where
  "sched_block_on_return s =
     (t_wait_chan (tcb_of s (cur_thread s)) = 0, upd (cur_thread s) (\<lambda>t. t\<lparr>t_wait_chan := 0\<rparr>) s)"

fun wake_loop :: "u64 \<Rightarrow> bool \<Rightarrow> u64 list \<Rightarrow> sched \<Rightarrow> sched" where
  "wake_loop chan all [] s = s"
| "wake_loop chan all (t # ts) s =
     (if t = 0 \<or> t_wait_chan (tcb_of s t) \<noteq> chan then wake_loop chan all ts s
      else let s = upd t (\<lambda>x. x\<lparr>t_wait_chan := 0\<rparr>) s;
               s = (if t_state (tcb_of s t) = T_SLEEPING then upd t (\<lambda>x. x\<lparr>t_state := T_READY\<rparr>) s else s)
           in if \<not> all then s else wake_loop chan all ts s)"

definition sched_wake_chan :: "u64 \<Rightarrow> bool \<Rightarrow> sched \<Rightarrow> sched" where
  "sched_wake_chan chan all s = wake_loop chan all (threads s) s"

definition sched_wait_frame :: "sched \<Rightarrow> sched" where
  "sched_wait_frame s =
     (if \<not> running s \<or> cur_thread s = 0 then s
      else park (\<lambda>t. t\<lparr>t_waits_frame := True, t_wake_at := - 1\<rparr>) s)"

fun pulse_loop :: "u64 list \<Rightarrow> sched \<Rightarrow> sched" where
  "pulse_loop [] s = s"
| "pulse_loop (t # ts) s =
     (if t \<noteq> 0 \<and> t_waits_frame (tcb_of s t)
      then let s = upd t (\<lambda>x. x\<lparr>t_waits_frame := False\<rparr>) s
           in pulse_loop ts (if t_state (tcb_of s t) = T_SLEEPING then upd t (\<lambda>x. x\<lparr>t_state := T_READY\<rparr>) s else s)
      else pulse_loop ts s)"

definition sched_frame_pulse :: "sched \<Rightarrow> sched" where
  "sched_frame_pulse s = pulse_loop (threads s) s"

definition sched_exit :: "u32 \<Rightarrow> sched \<Rightarrow> sched" where
  "sched_exit code s =
     (if cur_thread s = 0 then s
      else upd (cur_thread s) (\<lambda>t. t\<lparr>t_exit_code := code, t_state := T_ZOMBIE\<rparr>) s)"

definition sched_adopt_space :: "u64 \<Rightarrow> u64 \<Rightarrow> sched \<Rightarrow> sched" where
  "sched_adopt_space t as s =
     (if t = 0 \<or> as = 0 then s
      else let s = upd t (\<lambda>x. x\<lparr>t_as := as, t_cr3 := pml4_phys (the (spaces s as))\<rparr>) s
           in if t = cur_thread s then s\<lparr>vmm_current := as, cr3 := pml4_phys (the (spaces s as))\<rparr> else s)"

section \<open>Collecting finished threads\<close>

definition release_space :: "u64 \<Rightarrow> sched \<Rightarrow> sched" where
  "release_space as s =
     (if as = 0 then s
      else let a = the (spaces s as)
           in if refs a > 1 then s\<lparr>spaces := (spaces s)(as \<mapsto> a\<lparr>refs := refs a - 1\<rparr>)\<rparr>
              else s\<lparr>spaces := (spaces s)(as := None)\<rparr>)"

text \<open>\<open>hook\<close> is \<open>sched_reap_hook\<close>, installed by the desktop; the identity when it is null.\<close>

definition reap_one :: "(u64 \<Rightarrow> sched \<Rightarrow> sched) \<Rightarrow> nat \<Rightarrow> sched \<Rightarrow> sched" where
  "reap_one hook i s =
     (let t = threads s ! i
      in if t = 0 \<or> t_state (tcb_of s t) \<noteq> T_ZOMBIE \<or> t = cur_thread s then s
         else
           let s = hook t s;
               s = s\<lparr>threads := (threads s)[i := 0]\<rparr>;
               s = sched_rq_leave t s;
               s = release_space (t_as (tcb_of s t)) s;
               s = (if t_kstack (tcb_of s t) \<noteq> 0 then kstack_free (t_kstack (tcb_of s t)) s else s)
           in kfree_tcb t s)"

definition sched_reap :: "(u64 \<Rightarrow> sched \<Rightarrow> sched) \<Rightarrow> sched \<Rightarrow> sched" where
  "sched_reap hook s = fold (reap_one hook) [0..<SCHED_MAX_THREADS] s"

text \<open>\<open>sched_join\<close> before its loop: an answer at once, or the deadline it waits for.\<close>

definition sched_join :: "u64 \<Rightarrow> u32 \<Rightarrow> sched \<Rightarrow> u32 + u64" where
  "sched_join t timeout_ms s = (if t = 0 \<or> \<not> running s then Inl (- 1) else Inr (ticks s + ucast timeout_ms))"

text \<open>One turn of the loop of \<open>sched_join\<close>: an answer, or the caller parked for two ticks.\<close>

definition sched_join_turn :: "u64 \<Rightarrow> u64 \<Rightarrow> sched \<Rightarrow> u32 + sched" where
  "sched_join_turn t deadline s =
     (if t_state (tcb_of s t) = T_ZOMBIE \<or> t_state (tcb_of s t) = T_FREE then Inl (t_exit_code (tcb_of s t))
      else if ticks s > deadline then Inl (- 1)
      else if cur_thread s \<noteq> 0 \<and> running s then Inr (park (\<lambda>x. x\<lparr>t_wake_at := ticks s + 2\<rparr>) s)
      else Inr s)"

definition sched_thread_count :: "sched \<Rightarrow> nat" where
  "sched_thread_count s = length (filter (\<lambda>t. t \<noteq> 0 \<and> t_state (tcb_of s t) \<noteq> T_FREE) (threads s))"

end
