(* ===== verification/Sched_Pick.thy ===== *)
theory Sched_Pick
  imports Sched
begin

text \<open>
  What \<open>sched_pick\<close> chooses: the runnable thread of highest priority, and among equals the
  first after the running one in table order.  From it, round robin: a runnable thread that
  nothing outranks is dispatched within 64 ticks.
\<close>

section \<open>The store\<close>

lemma upd_sel [simp]:
  "threads (upd t f s) = threads s" "cur_thread (upd t f s) = cur_thread s" "rq (upd t f s) = rq s"
  "cpus (upd t f s) = cpus s" "spaces (upd t f s) = spaces s" "kstacks (upd t f s) = kstacks s"
  "ticks (upd t f s) = ticks s" "dispatchers (upd t f s) = dispatchers s" "running (upd t f s) = running s"
  "preempt_count (upd t f s) = preempt_count s" "soft_yield (upd t f s) = soft_yield s"
  "frames (upd t f s) = frames s" "fpu (upd t f s) = fpu s" "cr3 (upd t f s) = cr3 s"
  "next_pid (upd t f s) = next_pid s" "fx_template (upd t f s) = fx_template s"
  "fsbase_live (upd t f s) = fsbase_live s" "fsbase_want (upd t f s) = fsbase_want s" "msr_fs (upd t f s) = msr_fs s"
  by (simp_all add: upd_def)

lemma tcbs_upd: "tcbs (upd t f s) u = (if u = t then Some (f (tcb_of s t)) else tcbs s u)"
  by (simp add: upd_def)

lemma tcb_of_upd: "tcb_of (upd t f s) u = (if u = t then f (tcb_of s t) else tcb_of s u)"
  by (simp add: tcb_of_def upd_def)

definition live :: "sched \<Rightarrow> u64 set" where
  "live s = set (threads s) - {0}"

definition runnable :: "sched \<Rightarrow> u64 \<Rightarrow> bool" where
  "runnable s t \<longleftrightarrow> t \<in> live s \<and> (t_state (tcb_of s t) = T_READY \<or> t_state (tcb_of s t) = T_RUNNING)"

text \<open>The table holds each thread once, and the running thread is in it.\<close>

definition table_ok :: "sched \<Rightarrow> bool" where
  "table_ok s \<longleftrightarrow> length (threads s) = SCHED_MAX_THREADS \<and>
     (\<forall>i < SCHED_MAX_THREADS. \<forall>j < SCHED_MAX_THREADS. threads s ! i = threads s ! j \<longrightarrow> threads s ! i \<noteq> 0 \<longrightarrow> i = j) \<and>
     (\<forall>t \<in> live s. tcbs s t \<noteq> None) \<and> (cur_thread s \<noteq> 0 \<longrightarrow> cur_thread s \<in> live s)"

section \<open>Waking sleepers on the way\<close>

definition due :: "sched \<Rightarrow> u64 \<Rightarrow> bool" where
  "due s t \<longleftrightarrow> t_state (tcb_of s t) = T_SLEEPING \<and> t_wake_at (tcb_of s t) \<le> ticks s"

definition wake_due :: "u64 \<Rightarrow> sched \<Rightarrow> sched" where
  "wake_due t s = (if t \<noteq> 0 \<and> due s t then upd t (\<lambda>x. x\<lparr>t_state := T_READY\<rparr>) s else s)"

lemma wake_due_sel [simp]: "threads (wake_due t s) = threads s" "ticks (wake_due t s) = ticks s"
  by (simp_all add: wake_due_def)

lemma wake_due_tcb:
  "tcb_of (wake_due t s) u = (if u = t \<and> t \<noteq> 0 \<and> due s t then (tcb_of s t)\<lparr>t_state := T_READY\<rparr> else tcb_of s u)"
  by (simp add: wake_due_def tcb_of_upd)

lemma wake_due_due: "due (wake_due t s) u \<longleftrightarrow> due s u \<and> (u = t \<longrightarrow> t = 0)"
  by (auto simp: due_def wake_due_tcb)

lemma wake_fold_tcb:
  "tcb_of (fold wake_due ts s) u =
    (if u \<in> set ts \<and> u \<noteq> 0 \<and> due s u then (tcb_of s u)\<lparr>t_state := T_READY\<rparr> else tcb_of s u)"
proof (induction ts arbitrary: s u)
  case (Cons t ts)
  show ?case by (cases "u = t") (auto simp: Cons.IH wake_due_due wake_due_tcb)
qed simp

lemma wake_fold_sel [simp]:
  "threads (fold wake_due ts s) = threads s" "ticks (fold wake_due ts s) = ticks s"
  by (induction ts arbitrary: s) auto

section \<open>The best thread\<close>

definition elig :: "sched \<Rightarrow> u64 \<Rightarrow> bool" where
  "elig s t \<longleftrightarrow> t \<noteq> 0 \<and> (t_state (tcb_of s t) = T_READY \<or> t_state (tcb_of s t) = T_RUNNING)"

definition better :: "sched \<Rightarrow> u64 \<Rightarrow> u64 \<Rightarrow> u64" where
  "better s t b = (if elig s t \<and> (b = 0 \<or> t_prio (tcb_of s b) < t_prio (tcb_of s t)) then t else b)"

lemma wake_fold_prio: "t_prio (tcb_of (fold wake_due ts s) u) = t_prio (tcb_of s u)"
  by (simp add: wake_fold_tcb)

lemma pick_loop_step:
  assumes "t = threads s ! i"
  shows "pick_loop True False (i # is) s best = pick_loop True False is (wake_due t s) (better (wake_due t s) t best)"
  by (auto simp: assms Let_def better_def elig_def wake_due_def due_def)

lemma pick_loop_state:
  "snd (pick_loop True False is s best) = fold wake_due (map (\<lambda>i. threads s ! i) is) s"
proof (induction "is" arbitrary: s best)
  case (Cons i "is")
  show ?case by (simp add: pick_loop_step [OF refl] Cons.IH del: pick_loop.simps)
qed simp

lemma pick_loop_best:
  assumes "ts = map (\<lambda>i. threads s ! i) is"
  shows "fst (pick_loop True False is s best) = fold (better (fold wake_due ts s)) ts best"
  using assms
proof (induction "is" arbitrary: s best ts)
  case (Cons i "is")
  let ?t = "threads s ! i" and ?ts = "map (\<lambda>i. threads s ! i) is"
  let ?s = "wake_due ?t s"
  have "\<not> due ?s ?t \<or> ?t = 0" by (simp add: wake_due_due)
  then have "t_state (tcb_of (fold wake_due ?ts ?s) ?t) = t_state (tcb_of ?s ?t) \<or> ?t = 0"
    by (auto simp: wake_fold_tcb)
  then have "better (fold wake_due ?ts ?s) ?t best = better ?s ?t best"
    by (auto simp: better_def elig_def wake_fold_prio)
  then show ?case
    using Cons.IH [of ?ts ?s "better ?s ?t best"] Cons.prems
    by (simp add: pick_loop_step [OF refl] del: pick_loop.simps)
qed simp

text \<open>A fold that keeps the first of the greatest.\<close>

lemma fold_first_max:
  fixes key :: "'a \<Rightarrow> 'b::linorder"
  assumes nz: "\<And>t. E t \<Longrightarrow> t \<noteq> z" and "r = fold (\<lambda>t b. if E t \<and> (b = z \<or> key b < key t) then t else b) ts z"
  shows "(r = z \<longleftrightarrow> (\<forall>t \<in> set ts. \<not> E t)) \<and>
    (r \<noteq> z \<longrightarrow> E r \<and> (\<exists>k < length ts. ts ! k = r \<and>
      (\<forall>j < length ts. E (ts ! j) \<longrightarrow> key (ts ! j) \<le> key r \<and> (j < k \<longrightarrow> key (ts ! j) < key r))))"
  using assms(2)
proof (induction ts arbitrary: r rule: rev_induct)
  case (snoc t ts)
  define q where "q = fold (\<lambda>t b. if E t \<and> (b = z \<or> key b < key t) then t else b) ts z"
  note ih = snoc.IH [OF q_def]
  have r: "r = (if E t \<and> (q = z \<or> key q < key t) then t else q)"
    using snoc.prems unfolding q_def by (simp only: fold_append comp_apply fold.simps id_apply)
  consider (new) "E t" "q = z \<or> key q < key t" "r = t" | (old) "r = q" "q \<noteq> z" "E t \<longrightarrow> key t \<le> key q"
    | (none) "r = z" "q = z" "\<not> E t" using r not_less by metis
  then show ?case
  proof cases
    case new
    have less: "key (ts ! j) < key t" if "j < length ts" "E (ts ! j)" for j
    proof -
      have "q \<noteq> z" using ih that nth_mem by blast
      then have "key (ts ! j) \<le> key q" using ih that by blast
      then show ?thesis using new(2) \<open>q \<noteq> z\<close> by simp
    qed
    then have "\<forall>j < length (ts @ [t]). E ((ts @ [t]) ! j) \<longrightarrow> key ((ts @ [t]) ! j) \<le> key t \<and>
        (j < length ts \<longrightarrow> key ((ts @ [t]) ! j) < key t)"
      by (auto simp: nth_append less_Suc_eq intro: less_imp_le)
    then show ?thesis using new nz [OF new(1)] by (intro conjI) (auto intro!: exI [of _ "length ts"])
  next
    case old
    then obtain k where k: "k < length ts" "ts ! k = q" "E q"
      "\<And>j. j < length ts \<Longrightarrow> E (ts ! j) \<Longrightarrow> key (ts ! j) \<le> key q \<and> (j < k \<longrightarrow> key (ts ! j) < key q)"
      using ih by blast
    then have "\<forall>j < length (ts @ [t]). E ((ts @ [t]) ! j) \<longrightarrow> key ((ts @ [t]) ! j) \<le> key q \<and>
        (j < k \<longrightarrow> key ((ts @ [t]) ! j) < key q)"
      using old(3) by (auto simp: nth_append less_Suc_eq)
    moreover have "(ts @ [t]) ! k = q" "k < length (ts @ [t])" using k by (simp_all add: nth_append)
    moreover have "\<not> (\<forall>u \<in> set (ts @ [t]). \<not> E u)" using k(1,2,3) nth_mem by fastforce
    ultimately show ?thesis using old k(3) by blast
  next
    case none
    then show ?thesis using ih by simp
  qed
qed simp

section \<open>The rotation\<close>

text \<open>How far after the running thread a slot is searched.\<close>

definition rot :: "sched \<Rightarrow> u64 \<Rightarrow> nat" where
  "rot s t = nat ((sched_slot s t - sched_slot s (cur_thread s) - 1) mod 64)"

lemma slot_from_nth:
  "t \<in> set xs \<Longrightarrow> \<exists>k < length xs. slot_from i xs t = int (i + k) \<and> xs ! k = t"
proof (induction xs arbitrary: i)
  case (Cons x xs)
  show ?case
  proof (cases "x = t")
    case False
    then obtain k where "k < length xs" "slot_from (Suc i) xs t = int (Suc i + k)" "xs ! k = t" using Cons.IH [of "Suc i"] Cons.prems by auto
    then show ?thesis using False by (intro exI [of _ "Suc k"]) auto
  qed auto
qed simp

lemma sched_slot_live:
  assumes "table_ok s" and "t \<in> live s"
  shows "0 \<le> sched_slot s t" and "sched_slot s t < 64" and "threads s ! nat (sched_slot s t) = t"
proof -
  have "length (threads s) = 64" "t \<in> set (threads s)"
    using assms by (simp_all add: live_def table_ok_def SCHED_MAX_THREADS_def)
  with slot_from_nth [of t "threads s" 0]
  obtain k where "k < 64" "sched_slot s t = int k" "threads s ! k = t" unfolding sched_slot_def by auto
  then show "0 \<le> sched_slot s t" and "sched_slot s t < 64" and "threads s ! nat (sched_slot s t) = t" by simp_all
qed

lemma sched_slot_unique:
  assumes "table_ok s" and "i < 64" and "threads s ! i = t" and "t \<noteq> 0"
  shows "sched_slot s t = int i"
proof -
  have t: "t \<in> live s" using assms nth_mem [of i "threads s"] by (auto simp: live_def table_ok_def SCHED_MAX_THREADS_def)
  note l = sched_slot_live [OF assms(1) t]
  have "nat (sched_slot s t) = i"
    using assms l unfolding table_ok_def SCHED_MAX_THREADS_def by (metis nat_less_iff of_nat_numeral)
  then show ?thesis using l(1) by simp
qed

lemma pick_order_nth: "k < 64 \<Longrightarrow> pick_order start ! k = nat ((start + 1 + int k) mod 64)"
  by (simp add: pick_order_def SCHED_MAX_THREADS_def add.assoc del: upt_rec_numeral upt_Suc)

lemma length_pick_order [simp]: "length (pick_order start) = 64"
  by (simp add: pick_order_def SCHED_MAX_THREADS_def del: upt_rec_numeral upt_Suc)

lemma order_rot:
  assumes "table_ok s" and "cur_thread s \<noteq> 0" and "k < 64"
    and "t = threads s ! (pick_order (sched_slot s (cur_thread s)) ! k)" and "t \<noteq> 0"
  shows "rot s t = k"
proof -
  let ?c = "sched_slot s (cur_thread s)"
  have c: "0 \<le> ?c" "?c < 64" using sched_slot_live [OF assms(1)] assms(1,2) by (auto simp: table_ok_def)
  have i: "nat ((?c + 1 + int k) mod 64) < 64" by (simp add: nat_less_iff)
  have "sched_slot s t = int (nat ((?c + 1 + int k) mod 64))"
    by (rule sched_slot_unique [OF assms(1) i _ assms(5)]) (simp add: assms(4) pick_order_nth [OF assms(3)])
  then have "sched_slot s t = (?c + 1 + int k) mod 64" by simp
  then have "(sched_slot s t - ?c - 1) mod 64 = int k mod 64" by (simp add: mod_simps algebra_simps)
  then show ?thesis using assms(3) by (simp add: rot_def)
qed

lemma order_covers:
  assumes "table_ok s" and "cur_thread s \<noteq> 0" and "t \<in> live s"
  shows "rot s t < 64" and "threads s ! (pick_order (sched_slot s (cur_thread s)) ! rot s t) = t"
proof -
  let ?c = "sched_slot s (cur_thread s)"
  show r: "rot s t < 64" by (simp add: rot_def nat_less_iff)
  have "(?c + 1 + int (rot s t)) mod 64 = sched_slot s t mod 64" by (simp add: rot_def mod_simps)
  also have "\<dots> = sched_slot s t" using sched_slot_live [OF assms(1,3)] by simp
  finally show "threads s ! (pick_order ?c ! rot s t) = t"
    using sched_slot_live [OF assms(1,3)] by (simp add: pick_order_nth [OF r])
qed

section \<open>What is picked\<close>

definition woken :: "sched \<Rightarrow> sched" where
  "woken s = fold wake_due (map (\<lambda>i. threads s ! i) (pick_order (sched_slot s (cur_thread s)))) s"

lemma pick_set:
  assumes "table_ok s" and "cur_thread s \<noteq> 0"
  shows "set (map (\<lambda>i. threads s ! i) (pick_order (sched_slot s (cur_thread s)))) \<union> {0} = live s \<union> {0}"
proof
  have "i < 64" if "i \<in> set (pick_order (sched_slot s (cur_thread s)))" for i
    using that by (auto simp: pick_order_def SCHED_MAX_THREADS_def nat_less_iff simp del: upt_rec_numeral upt_Suc)
  then show "set (map (\<lambda>i. threads s ! i) (pick_order (sched_slot s (cur_thread s)))) \<union> {0} \<subseteq> live s \<union> {0}"
    using assms(1) by (auto simp: live_def table_ok_def SCHED_MAX_THREADS_def)
  show "live s \<union> {0} \<subseteq> set (map (\<lambda>i. threads s ! i) (pick_order (sched_slot s (cur_thread s)))) \<union> {0}"
  proof
    fix t assume t: "t \<in> live s \<union> {0}"
    let ?o = "pick_order (sched_slot s (cur_thread s))"
    have "t \<in> set (map (\<lambda>i. threads s ! i) ?o)" if "t \<in> live s"
    proof -
      have "?o ! rot s t \<in> set ?o" using order_covers(1) [OF assms that] by simp
      then have "threads s ! (?o ! rot s t) \<in> set (map (\<lambda>i. threads s ! i) ?o)" by simp
      then show ?thesis by (simp only: order_covers(2) [OF assms that])
    qed
    then show "t \<in> set (map (\<lambda>i. threads s ! i) ?o) \<union> {0}" using t by blast
  qed
qed

lemma woken_tcb:
  assumes "table_ok s" and "cur_thread s \<noteq> 0"
  shows "tcb_of (woken s) t = (if t \<in> live s \<and> due s t then (tcb_of s t)\<lparr>t_state := T_READY\<rparr> else tcb_of s t)"
proof -
  have "t \<in> set (map (\<lambda>i. threads s ! i) (pick_order (sched_slot s (cur_thread s)))) \<and> t \<noteq> 0 \<longleftrightarrow> t \<in> live s"
    using pick_set [OF assms] by (auto simp: live_def)
  then show ?thesis unfolding woken_def wake_fold_tcb by metis
qed

lemma live_woken [simp]: "live (woken s) = live s" "threads (woken s) = threads s" "ticks (woken s) = ticks s"
  by (simp_all add: live_def woken_def)

lemma sched_pick_woken:
  assumes "table_ok s" and "cur_thread s \<noteq> 0" and "dispatchers s \<le> 1" and "sched_pick s = (b, s')"
  shows "s' = woken s" and "b = 0 \<longleftrightarrow> (\<forall>t. \<not> runnable s' t)"
    and "b \<noteq> 0 \<Longrightarrow> runnable s' b"
    and "runnable s' t \<Longrightarrow> t_prio (tcb_of s' t) \<le> t_prio (tcb_of s' b) \<and>
      (t_prio (tcb_of s' t) = t_prio (tcb_of s' b) \<longrightarrow> rot s b \<le> rot s t)"
proof -
  let ?o = "pick_order (sched_slot s (cur_thread s))"
  let ?ts = "map (\<lambda>i. threads s ! i) ?o"
  have p: "sched_pick s = pick_loop True False ?o s 0"
    using assms(2,3) by (simp add: sched_pick_def Let_def split: prod.splits)
  show s': "s' = woken s" using pick_loop_state [of ?o s 0] assms(4) p by (simp add: woken_def)
  have b: "b = fold (better s') ?ts 0"
    using pick_loop_best [of ?ts s ?o 0] assms(4) p s' by (simp add: woken_def)
  have el: "elig s' t \<and> t \<in> set ?ts \<longleftrightarrow> runnable s' t" for t
    using pick_set [OF assms(1,2)] unfolding s' by (auto simp: elig_def runnable_def live_def)
  have bet: "better s' = (\<lambda>t b. if elig s' t \<and> (b = 0 \<or> t_prio (tcb_of s' b) < t_prio (tcb_of s' t)) then t else b)"
    by (simp add: better_def fun_eq_iff)
  have m: "(b = 0 \<longleftrightarrow> (\<forall>t \<in> set ?ts. \<not> elig s' t)) \<and>
    (b \<noteq> 0 \<longrightarrow> elig s' b \<and> (\<exists>k < length ?ts. ?ts ! k = b \<and>
      (\<forall>j < length ?ts. elig s' (?ts ! j) \<longrightarrow> t_prio (tcb_of s' (?ts ! j)) \<le> t_prio (tcb_of s' b) \<and>
        (j < k \<longrightarrow> t_prio (tcb_of s' (?ts ! j)) < t_prio (tcb_of s' b)))))"
    by (rule fold_first_max [of "elig s'" 0 b "\<lambda>t. t_prio (tcb_of s' t)" ?ts, OF _ b [unfolded bet]]) (simp add: elig_def)
  show z: "b = 0 \<longleftrightarrow> (\<forall>t. \<not> runnable s' t)" using m el by blast
  show "b \<noteq> 0 \<Longrightarrow> runnable s' b" using m el nth_mem by metis
  assume t: "runnable s' t"
  then have "b \<noteq> 0" using z by blast
  then obtain k where k: "k < 64" "?ts ! k = b"
    "\<And>j. j < 64 \<Longrightarrow> elig s' (?ts ! j) \<Longrightarrow> t_prio (tcb_of s' (?ts ! j)) \<le> t_prio (tcb_of s' b) \<and>
      (j < k \<longrightarrow> t_prio (tcb_of s' (?ts ! j)) < t_prio (tcb_of s' b))"
    using m [simplified length_map length_pick_order] by blast
  have l: "t \<in> live s" using t s' by (simp add: runnable_def)
  note c = order_covers [OF assms(1,2) l]
  have "rot s b = k" by (rule order_rot [OF assms(1,2) k(1)]) (use k(1,2) \<open>b \<noteq> 0\<close> in auto)
  moreover have "?ts ! rot s t = t" "elig s' t" using c t el by auto
  ultimately show "t_prio (tcb_of s' t) \<le> t_prio (tcb_of s' b) \<and>
      (t_prio (tcb_of s' t) = t_prio (tcb_of s' b) \<longrightarrow> rot s b \<le> rot s t)"
    using k(3) [OF c(1)] by (metis less_irrefl not_less)
qed

section \<open>Round robin\<close>

text \<open>
  A tick with the scheduler on, preemption allowed and nobody due: the thread that runs next
  is the best one, the table and all priorities stay, and so does what is runnable.
\<close>

definition calm :: "sched \<Rightarrow> nat \<Rightarrow> bool" where
  "calm s n \<longleftrightarrow> table_ok s \<and> cur_thread s \<noteq> 0 \<and> running s \<and> \<not> 0 < sint (preempt_count s) \<and> \<not> soft_yield s \<and>
     dispatchers s \<le> 1 \<and> unat (ticks s) + n < 2 ^ 64 \<and>
     (\<forall>t \<in> live s. t_state (tcb_of s t) = T_SLEEPING \<longrightarrow> unat (ticks s) + n < unat (t_wake_at (tcb_of s t)))"

definition top :: "sched \<Rightarrow> u64 \<Rightarrow> bool" where
  "top s t \<longleftrightarrow> runnable s t \<and> (\<forall>u. runnable s u \<longrightarrow> t_prio (tcb_of s u) \<le> t_prio (tcb_of s t))"

lemmas switch_defs = sched_switch_def sched_save_def sched_enter_def sched_load_def Let_def

lemma sched_load_sel [simp]:
  "threads (sched_load n s) = threads s" "cur_thread (sched_load n s) = cur_thread s"
  "running (sched_load n s) = running s" "preempt_count (sched_load n s) = preempt_count s"
  "soft_yield (sched_load n s) = soft_yield s" "dispatchers (sched_load n s) = dispatchers s"
  "ticks (sched_load n s) = ticks s" "tcbs (sched_load n s) = tcbs s" "tcb_of (sched_load n s) t = tcb_of s t"
  "rq (sched_load n s) = rq s" "cpus (sched_load n s) = cpus s" "spaces (sched_load n s) = spaces s"
  "kstacks (sched_load n s) = kstacks s" "frames (sched_load n s) = frames s"
  "fsbase_live (sched_load n s) = fsbase_live s" "msr_fs (sched_load n s) = msr_fs s"
  by (simp_all add: sched_load_def Let_def tcb_of_def)

lemma sched_enter_sel [simp]:
  "threads (sched_enter n s) = threads s" "cur_thread (sched_enter n s) = n"
  "running (sched_enter n s) = running s" "preempt_count (sched_enter n s) = preempt_count s"
  "soft_yield (sched_enter n s) = soft_yield s" "dispatchers (sched_enter n s) = dispatchers s"
  "ticks (sched_enter n s) = ticks s" "rq (sched_enter n s) = rq s" "cpus (sched_enter n s) = cpus s"
  "spaces (sched_enter n s) = spaces s" "kstacks (sched_enter n s) = kstacks s" "frames (sched_enter n s) = frames s"
  "fsbase_live (sched_enter n s) = fsbase_live s" "msr_fs (sched_enter n s) = msr_fs s" "cr3 (sched_enter n s) = cr3 s"
  by (simp_all add: sched_enter_def)

lemma sched_enter_tcb:
  "tcb_of (sched_enter n s) u =
    (if u = n then (tcb_of s n)\<lparr>t_state := T_RUNNING, t_slices := t_slices (tcb_of s n) + 1\<rparr> else tcb_of s u)"
  "tcbs (sched_enter n s) u = None \<longleftrightarrow> u \<noteq> n \<and> tcbs s u = None"
  by (simp_all add: sched_enter_def tcb_of_upd tcbs_upd) (simp_all add: tcb_of_def)

lemma sched_save_sel [simp]:
  "threads (sched_save sp s) = threads s" "cur_thread (sched_save sp s) = cur_thread s"
  "running (sched_save sp s) = running s" "preempt_count (sched_save sp s) = preempt_count s"
  "soft_yield (sched_save sp s) = soft_yield s" "dispatchers (sched_save sp s) = dispatchers s"
  "ticks (sched_save sp s) = ticks s" "rq (sched_save sp s) = rq s" "cpus (sched_save sp s) = cpus s"
  "spaces (sched_save sp s) = spaces s" "kstacks (sched_save sp s) = kstacks s" "frames (sched_save sp s) = frames s"
  "fsbase_live (sched_save sp s) = fsbase_live s" "msr_fs (sched_save sp s) = msr_fs s" "cr3 (sched_save sp s) = cr3 s"
  by (simp_all add: sched_save_def)

lemma sched_save_tcb:
  "tcb_of (sched_save sp s) u =
    (if u = cur_thread s then (tcb_of s u)\<lparr>t_rsp := sp, t_fx := fpu s,
       t_state := (if t_state (tcb_of s u) = T_RUNNING then T_READY else t_state (tcb_of s u))\<rparr> else tcb_of s u)"
  "tcbs (sched_save sp s) u = None \<longleftrightarrow> u \<noteq> cur_thread s \<and> tcbs s u = None"
  by (simp_all add: sched_save_def tcb_of_upd tcbs_upd)

lemma sched_switch_sel:
  assumes "sched_switch n sp s = (r, s')"
  shows "threads s' = threads s" "cur_thread s' = n" "running s' = running s"
    "preempt_count s' = preempt_count s" "soft_yield s' = soft_yield s" "dispatchers s' = dispatchers s"
    "ticks s' = ticks s" "rq s' = rq s" "cpus s' = cpus s" "spaces s' = spaces s" "kstacks s' = kstacks s"
    "frames s' = frames s" "fsbase_live s' = fsbase_live s" "msr_fs s' = msr_fs s"
  using assms by (auto simp: sched_switch_def Let_def)

lemma sched_switch_tcbs:
  assumes "sched_switch n sp s = (r, s')"
  shows "tcb_of s' u = tcb_of (sched_enter n (sched_save sp s)) u"
    and "tcbs s' u = None \<longleftrightarrow> tcbs s u = None \<and> u \<noteq> n \<and> u \<noteq> cur_thread s"
  using assms by (auto simp: sched_switch_def Let_def sched_enter_tcb sched_save_tcb)

lemma woken_sel:
  "cur_thread (woken s) = cur_thread s" "running (woken s) = running s" "preempt_count (woken s) = preempt_count s"
  "soft_yield (woken s) = soft_yield s" "dispatchers (woken s) = dispatchers s"
  "fpu (woken s) = fpu s" "cr3 (woken s) = cr3 s" "fsbase_live (woken s) = fsbase_live s" "msr_fs (woken s) = msr_fs s"
  "rq (woken s) = rq s" "cpus (woken s) = cpus s" "spaces (woken s) = spaces s" "kstacks (woken s) = kstacks s"
  "frames (woken s) = frames s" "slots (woken s) = slots s"
proof -
  have "cur_thread (fold wake_due ts s) = cur_thread s \<and> running (fold wake_due ts s) = running s \<and>
    preempt_count (fold wake_due ts s) = preempt_count s \<and> soft_yield (fold wake_due ts s) = soft_yield s \<and>
    dispatchers (fold wake_due ts s) = dispatchers s \<and> fpu (fold wake_due ts s) = fpu s \<and>
    cr3 (fold wake_due ts s) = cr3 s \<and> fsbase_live (fold wake_due ts s) = fsbase_live s \<and>
    msr_fs (fold wake_due ts s) = msr_fs s \<and> rq (fold wake_due ts s) = rq s \<and> cpus (fold wake_due ts s) = cpus s \<and>
    spaces (fold wake_due ts s) = spaces s \<and> kstacks (fold wake_due ts s) = kstacks s \<and>
    frames (fold wake_due ts s) = frames s \<and> slots (fold wake_due ts s) = slots s" for ts
    by (induction ts arbitrary: s) (simp_all add: wake_due_def upd_def)
  then show "cur_thread (woken s) = cur_thread s" "running (woken s) = running s" "preempt_count (woken s) = preempt_count s"
    "soft_yield (woken s) = soft_yield s" "dispatchers (woken s) = dispatchers s"
    "fpu (woken s) = fpu s" "cr3 (woken s) = cr3 s" "fsbase_live (woken s) = fsbase_live s" "msr_fs (woken s) = msr_fs s"
    "rq (woken s) = rq s" "cpus (woken s) = cpus s" "spaces (woken s) = spaces s" "kstacks (woken s) = kstacks s"
    "frames (woken s) = frames s" "slots (woken s) = slots s"
    by (simp_all add: woken_def)
qed

lemma tcbs_woken_None: "table_ok s \<Longrightarrow> cur_thread s \<noteq> 0 \<Longrightarrow> tcbs (woken s) t = None \<longleftrightarrow> tcbs s t = None"
proof -
  have "(\<forall>u \<in> set ts. u \<noteq> 0 \<longrightarrow> tcbs s u \<noteq> None) \<Longrightarrow> tcbs (fold wake_due ts s) t = None \<longleftrightarrow> tcbs s t = None" for ts
    by (induction ts arbitrary: s) (auto simp: wake_due_def tcbs_upd)
  moreover assume "table_ok s" "cur_thread s \<noteq> 0"
  ultimately show ?thesis using pick_set [of s] unfolding woken_def table_ok_def by blast
qed

text \<open>The state a tick is decided in: time advanced, the soft-yield flag taken, sleepers woken.\<close>

lemma sched_count_sel [simp]:
  "threads (sched_count s) = threads s" "cur_thread (sched_count s) = cur_thread s" "tcbs (sched_count s) = tcbs s"
  "running (sched_count s) = running s" "preempt_count (sched_count s) = preempt_count s" "soft_yield (sched_count s) = False"
  "dispatchers (sched_count s) = dispatchers s" "tcb_of (sched_count s) t = tcb_of s t" "live (sched_count s) = live s"
  "table_ok (sched_count s) = table_ok s" "rot (sched_count s) t = rot s t" "fpu (sched_count s) = fpu s" "cr3 (sched_count s) = cr3 s"
  "fsbase_live (sched_count s) = fsbase_live s" "msr_fs (sched_count s) = msr_fs s" "rq (sched_count s) = rq s" "cpus (sched_count s) = cpus s"
  "spaces (sched_count s) = spaces s" "kstacks (sched_count s) = kstacks s" "frames (sched_count s) = frames s"
  by (simp_all add: sched_count_def tcb_of_def live_def table_ok_def rot_def sched_slot_def)

lemma sched_on_tick_cases:
  assumes "sched_on_tick sp s = (r, s')"
  obtains (off) "r = sp" "s' = sched_count s" "\<not> running s \<or> cur_thread s = 0 \<or> 0 < sint (preempt_count s) \<and> \<not> soft_yield s"
  | (stay) b s1 where "running s" "cur_thread s \<noteq> 0" "\<not> (0 < sint (preempt_count s) \<and> \<not> soft_yield s)"
      "sched_pick (sched_count s) = (b, s1)" "b = 0 \<or> b = cur_thread s1" "r = sp"
      "s' = (if t_state (tcb_of s1 (cur_thread s1)) = T_READY
             then upd (cur_thread s1) (\<lambda>t. t\<lparr>t_state := T_RUNNING\<rparr>) s1 else s1)"
  | (switch) b s1 where "running s" "cur_thread s \<noteq> 0" "\<not> (0 < sint (preempt_count s) \<and> \<not> soft_yield s)"
      "sched_pick (sched_count s) = (b, s1)" "b \<noteq> 0" "b \<noteq> cur_thread s1" "sched_switch b sp s1 = (r, s')"
proof -
  obtain b s1 where p: "sched_pick (sched_count s) = (b, s1)" by fastforce
  have "sched_on_tick sp s =
     (if \<not> running s \<or> cur_thread s = 0 then (sp, sched_count s)
      else if 0 < sint (preempt_count s) \<and> \<not> soft_yield s then (sp, sched_count s)
      else if b = 0 \<or> b = cur_thread s1
        then (sp, if t_state (tcb_of s1 (cur_thread s1)) = T_READY
                  then upd (cur_thread s1) (\<lambda>t. t\<lparr>t_state := T_RUNNING\<rparr>) s1 else s1)
        else sched_switch b sp s1)"
    unfolding sched_on_tick_def Let_def p by simp
  then have eq: "(r, s') = \<dots>" using assms by simp
  consider (a) "\<not> running s \<or> cur_thread s = 0 \<or> 0 < sint (preempt_count s) \<and> \<not> soft_yield s"
    | (b) "running s" "cur_thread s \<noteq> 0" "\<not> (0 < sint (preempt_count s) \<and> \<not> soft_yield s)" "b = 0 \<or> b = cur_thread s1"
    | (c) "running s" "cur_thread s \<noteq> 0" "\<not> (0 < sint (preempt_count s) \<and> \<not> soft_yield s)" "b \<noteq> 0" "b \<noteq> cur_thread s1"
    by blast
  then show thesis
  proof cases
    case a
    then have "(r, s') = (sp, sched_count s)" using eq by presburger
    then show thesis using a off by blast
  next
    case b
    then have "(r, s') = (sp, if t_state (tcb_of s1 (cur_thread s1)) = T_READY
        then upd (cur_thread s1) (\<lambda>t. t\<lparr>t_state := T_RUNNING\<rparr>) s1 else s1)" using eq by presburger
    then show thesis using b p stay by blast
  next
    case c
    then have "(r, s') = sched_switch b sp s1" using eq by presburger
    then show thesis using c p switch by metis
  qed
qed

lemma stub_sel:
  assumes "sched_timer_stub sp s = (r, s')"
  obtains s2 where "sched_on_tick sp s = (r, s2)" "threads s' = threads s2" "cur_thread s' = cur_thread s2"
    "tcbs s' = tcbs s2" "running s' = running s2" "preempt_count s' = preempt_count s2"
    "soft_yield s' = soft_yield s2" "dispatchers s' = dispatchers s2" "ticks s' = ticks s2" "rq s' = rq s2"
    "cpus s' = cpus s2" "spaces s' = spaces s2" "kstacks s' = kstacks s2" "fsbase_live s' = fsbase_want s2"
    "fsbase_want s' = fsbase_want s2" "msr_fs s' = (if fsbase_want s2 = fsbase_live s2 then msr_fs s2 else fsbase_want s2)"
    "fpu s' = fpu s2" "cr3 s' = cr3 s2" "tss_rsp0 s' = tss_rsp0 s2" "syscall_kstack s' = syscall_kstack s2"
    "vmm_current s' = vmm_current s2"
proof -
  obtain r2 s2 where o: "sched_on_tick sp s = (r2, s2)" by fastforce
  then have "r2 = r" "s' = (if fsbase_want s2 = fsbase_live s2 then s2
      else s2\<lparr>fsbase_live := fsbase_want s2, msr_fs := fsbase_want s2\<rparr>)"
    using assms by (simp_all add: sched_timer_stub_def)
  then show thesis using o by (intro that [of s2]) simp_all
qed

lemma same_view:
  assumes "threads s' = threads s2" "tcbs s' = tcbs s2"
  shows "live s' = live s2" "tcb_of s' t = tcb_of s2 t" "runnable s' t \<longleftrightarrow> runnable s2 t"
    "sched_slot s' t = sched_slot s2 t"
  using assms by (simp_all add: live_def tcb_of_def runnable_def sched_slot_def)

text \<open>With nobody due, waking sleepers changes nothing.\<close>

lemma woken_calm:
  assumes "calm s (Suc n)"
  shows "tcb_of (woken (sched_count s)) t = tcb_of s t" and "unat (ticks (sched_count s)) = unat (ticks s) + 1"
proof -
  let ?s = "sched_count s"
  have u: "unat (ticks s) + 1 < 2 ^ 64" using assms by (simp add: calm_def)
  then show t: "unat (ticks ?s) = unat (ticks s) + 1"
    using assms by (simp add: calm_def sched_count_def unat_word_ariths)
  have "\<not> due ?s t" if "t \<in> live s"
    using assms that t by (auto simp: due_def calm_def word_le_nat_alt)
  moreover have "table_ok ?s" "cur_thread ?s \<noteq> 0" using assms by (simp_all add: calm_def)
  ultimately show "tcb_of (woken ?s) t = tcb_of s t" using woken_tcb [of ?s t] by auto
qed

lemma calm_pick:
  assumes "calm s (Suc n)" and "top s t" and "sched_pick (sched_count s) = (b, w)"
  shows "w = woken (sched_count s)" and "b \<noteq> 0" and "top s b" and "rot s b \<le> rot s t"
proof -
  have c: "table_ok s" "cur_thread s \<noteq> 0" "dispatchers s \<le> 1" using assms(1) by (simp_all add: calm_def)
  note pick = sched_pick_woken [OF _ _ _ assms(3), simplified, OF c]
  show w: "w = woken (sched_count s)" by (rule pick(1))
  note wt = woken_calm(1) [OF assms(1), folded w]
  have rw: "runnable w x \<longleftrightarrow> runnable s x" for x by (simp add: runnable_def wt) (simp add: w)
  show "b \<noteq> 0" using pick(2) assms(2) rw by (auto simp: top_def)
  then have "runnable s b" using pick(3) rw by blast
  then show "top s b" using pick(4) rw assms(2) unfolding top_def wt by (meson order_trans)
  show "rot s b \<le> rot s t" using pick(4) [of t] rw assms(2) \<open>runnable s b\<close> unfolding top_def wt by (metis antisym)
qed

text \<open>What a calm tick does to one thread: nothing, or it exchanges running and ready.\<close>

definition swapped :: "tcb \<Rightarrow> tcb \<Rightarrow> bool" where
  "swapped x y \<longleftrightarrow> t_prio y = t_prio x \<and> t_wake_at y = t_wake_at x \<and>
     (t_state y = t_state x \<or> {t_state x, t_state y} \<subseteq> {T_READY, T_RUNNING})"

lemma calm_on_tick:
  assumes "calm s (Suc n)" and "sched_on_tick sp s = (r, s')" and "top s t"
  shows "(threads s' = threads s \<and> running s' = running s \<and> preempt_count s' = preempt_count s \<and>
      soft_yield s' = False \<and> dispatchers s' = dispatchers s \<and> ticks s' = ticks (sched_count s)) \<and>
    swapped (tcb_of s u) (tcb_of s' u) \<and> (tcbs s' u = None \<longrightarrow> tcbs s u = None) \<and>
    top s (cur_thread s') \<and> rot s (cur_thread s') \<le> rot s t"
  using assms(2)
proof (cases rule: sched_on_tick_cases)
  case off
  then show ?thesis
    using assms(1) by (simp add: calm_def)
next
  case (stay b s1)
  note pick = calm_pick [OF assms(1,3) stay(4)] and wt = woken_calm(1) [OF assms(1)]
  have t: "table_ok s" "cur_thread s \<noteq> 0" using assms(1) by (simp_all add: calm_def)
  have "b = cur_thread s" using stay(5) pick(1,2) by (simp add: woken_sel)
  then show ?thesis
    using pick(3,4) tcbs_woken_None [of "sched_count s" u] t unfolding stay(7) pick(1)
    by (simp add: woken_sel tcb_of_upd tcbs_upd wt swapped_def)
next
  case (switch b s1)
  note pick = calm_pick [OF assms(1,3) switch(4)] and wt = woken_calm(1) [OF assms(1)]
  have t: "table_ok s" "cur_thread s \<noteq> 0" using assms(1) by (simp_all add: calm_def)
  note sel = sched_switch_sel [OF switch(7)] sched_switch_tcbs [OF switch(7)]
  have "t_state (tcb_of s b) = T_READY \<or> t_state (tcb_of s b) = T_RUNNING"
    using pick(3) by (simp add: top_def runnable_def)
  then show ?thesis
    using pick(3,4) tcbs_woken_None [of "sched_count s" u] t unfolding sel pick(1)
    by (auto simp: woken_sel sched_enter_tcb sched_save_tcb wt swapped_def)
qed

lemma calm_tick:
  assumes "calm s (Suc n)" and "sched_timer_stub sp s = (r, s')" and "top s t"
  shows "threads s' = threads s" and "calm s' n" and "runnable s' u \<longleftrightarrow> runnable s u"
    and "t_prio (tcb_of s' u) = t_prio (tcb_of s u)" and "top s (cur_thread s')" and "rot s (cur_thread s') \<le> rot s t"
proof -
  obtain s2 where o: "sched_on_tick sp s = (r, s2)" and v: "threads s' = threads s2" "cur_thread s' = cur_thread s2"
    "tcbs s' = tcbs s2" "running s' = running s2" "preempt_count s' = preempt_count s2"
    "soft_yield s' = soft_yield s2" "dispatchers s' = dispatchers s2" "ticks s' = ticks s2"
    using stub_sel [OF assms(2)] by metis
  have c: "threads s2 = threads s \<and> running s2 = running s \<and> preempt_count s2 = preempt_count s \<and>
      soft_yield s2 = False \<and> dispatchers s2 = dispatchers s \<and> ticks s2 = ticks (sched_count s)"
    "swapped (tcb_of s x) (tcb_of s2 x)" "tcbs s2 x = None \<Longrightarrow> tcbs s x = None"
    "top s (cur_thread s2)" "rot s (cur_thread s2) \<le> rot s t" for x
    using calm_on_tick [OF assms(1) o assms(3), of x] by blast+
  have l: "live s' = live s" using v c(1) by (simp add: live_def)
  have tc: "swapped (tcb_of s x) (tcb_of s' x)" for x using c(2) [of x] v(3) by (simp add: tcb_of_def)
  show "threads s' = threads s" and "top s (cur_thread s')" and "rot s (cur_thread s') \<le> rot s t"
    using v c by simp_all
  show "t_prio (tcb_of s' u) = t_prio (tcb_of s u)" using tc by (simp add: swapped_def)
  show "runnable s' u \<longleftrightarrow> runnable s u" using tc [of u] l by (auto simp: runnable_def swapped_def)
  have "cur_thread s' \<in> live s" using c(4) v(2) by (simp add: top_def runnable_def)
  moreover have "\<forall>x \<in> live s'. tcbs s' x \<noteq> None"
    using assms(1) c(3) unfolding l v(3) calm_def table_ok_def by blast
  ultimately have "table_ok s'" "cur_thread s' \<noteq> 0"
    using assms(1) l v(1) c(1) unfolding table_ok_def calm_def by (simp_all add: live_def)
  moreover have "t_state (tcb_of s' x) = T_SLEEPING \<longrightarrow> unat (ticks s') + n < unat (t_wake_at (tcb_of s' x))"
    if "x \<in> live s" for x
    using assms(1) tc [of x] that woken_calm(2) [OF assms(1)] v(8) c(1) by (auto simp: calm_def swapped_def)
  ultimately show "calm s' n" using assms(1) woken_calm(2) [OF assms(1)] l v c(1) by (simp add: calm_def)
qed

fun hard_ticks :: "u64 list \<Rightarrow> sched \<Rightarrow> sched" where
  "hard_ticks [] s = s"
| "hard_ticks (sp # sps) s = hard_ticks sps (snd (sched_timer_stub sp s))"

lemma rot_advance:
  assumes "table_ok s" and "cur_thread s \<noteq> 0" and "b \<in> live s" and "t \<in> live s" and "b \<noteq> t"
    and "rot s b \<le> rot s t" and "threads s' = threads s" and "cur_thread s' = b"
  shows "rot s' t < rot s t"
proof -
  let ?c = "sched_slot s (cur_thread s)" and ?b = "sched_slot s b" and ?t = "sched_slot s t"
  have sl: "sched_slot s' x = sched_slot s x" for x using assms(7) by (simp add: sched_slot_def)
  have n: "rot s b \<noteq> rot s t" using order_covers(2) [OF assms(1,2)] assms(3-5) by metis
  then have lt: "rot s b < rot s t" using assms(6) by simp
  have "int (rot s t) - int (rot s b) - 1 = (int (rot s t) - int (rot s b) - 1) mod 64"
    using lt order_covers(1) [OF assms(1,2,4)] by simp
  also have "\<dots> = ((?t - ?c - 1) mod 64 - (?b - ?c - 1) mod 64 - 1) mod 64" by (simp add: rot_def)
  also have "\<dots> = ((?t - ?c - 1) - (?b - ?c - 1) - 1) mod 64" by (metis mod_diff_eq mod_diff_left_eq)
  also have "\<dots> = (?t - ?b - 1) mod 64" by simp
  finally have "int (rot s' t) = int (rot s t) - int (rot s b) - 1" using assms(8) sl by (simp add: rot_def)
  then show ?thesis by simp
qed

lemma round_robin:
  assumes "calm s n" and "top s t" and "rot s t < n" and "length sps = n"
  shows "\<exists>k. 0 < k \<and> k \<le> n \<and> cur_thread (hard_ticks (take k sps) s) = t"
  using assms
proof (induction n arbitrary: s sps)
  case (Suc n)
  obtain sp rest where sps: "sps = sp # rest" "length rest = n" using Suc.prems(4) by (cases sps) auto
  obtain r s' where st: "sched_timer_stub sp s = (r, s')" by fastforce
  note c = calm_tick [OF Suc.prems(1) st Suc.prems(2)]
  show ?case
  proof (cases "cur_thread s' = t")
    case True
    then show ?thesis using sps st by (intro exI [of _ 1]) simp
  next
    case False
    have s: "table_ok s" "cur_thread s \<noteq> 0" using Suc.prems(1) by (simp_all add: calm_def)
    have "rot s' t < rot s t"
      by (rule rot_advance [OF s _ _ False c(6,1) refl]) (use c(5) Suc.prems(2) in \<open>simp_all add: top_def runnable_def\<close>)
    moreover have "top s' t" using c(3,4) Suc.prems(2) by (simp add: top_def)
    ultimately obtain k where "0 < k" "k \<le> n" "cur_thread (hard_ticks (take k rest) s') = t"
      using Suc.IH [OF c(2) _ _ sps(2)] Suc.prems(3) by auto
    then show ?thesis using sps st by (intro exI [of _ "Suc k"]) simp
  qed
qed simp

section \<open>Properties\<close>

text \<open>
  C17: With one dispatching processor, \<open>sched_pick\<close> wakes exactly the sleepers whose deadline has
  passed and changes nothing else; it returns no thread exactly when none is runnable then,
  and otherwise a runnable thread of the greatest priority, the first such in table order
  starting one past the running thread.
\<close>

theorem sched_pick_best:
  assumes "table_ok s" and "cur_thread s \<noteq> 0" and "dispatchers s \<le> 1" and "sched_pick s = (b, s')"
  shows "threads s' = threads s \<and> cur_thread s' = cur_thread s \<and>
    (\<forall>t. tcb_of s' t = (if t \<in> live s \<and> due s t then (tcb_of s t)\<lparr>t_state := T_READY\<rparr> else tcb_of s t)) \<and>
    (b = 0 \<longleftrightarrow> (\<forall>t. \<not> runnable s' t)) \<and> (b \<noteq> 0 \<longrightarrow> runnable s' b) \<and>
    (\<forall>t. runnable s' t \<longrightarrow> t_prio (tcb_of s' t) \<le> t_prio (tcb_of s' b) \<and>
      (t_prio (tcb_of s' t) = t_prio (tcb_of s' b) \<longrightarrow> rot s b \<le> rot s t))"
proof -
  note p = sched_pick_woken [OF assms]
  show ?thesis using p(2-4) woken_tcb [OF assms(1,2)] unfolding p(1) by (simp add: woken_sel)
qed

definition demo_tcb :: "thread_state \<Rightarrow> u32 \<Rightarrow> u64 \<Rightarrow> tcb" where
  "demo_tcb st prio wake = zero_tcb\<lparr>t_state := st, t_prio := prio, t_wake_at := wake\<rparr>"

text \<open>Three threads: the compositor running, a thread asleep until tick 5, one ready; the clock is at 5.\<close>

definition demo_sched :: sched where
  "demo_sched = \<lparr>threads = [4096, 8192, 12288] @ replicate 61 0, cur_thread = 4096, idle_thread = 0, next_pid = 4,
     preempt_count = 0, ticks = 5, switches = 0, running = True, fx_template = [], gs_base_live = 0,
     fsbase_want = 0, fsbase_live = 0, soft_yield = False, rq = 3 # replicate 15 0, cpus = 1, dispatchers = 1,
     tcbs = [4096 \<mapsto> demo_tcb T_RUNNING 4 0, 8192 \<mapsto> demo_tcb T_SLEEPING 4 5, 12288 \<mapsto> demo_tcb T_READY 4 0],
     spaces = Map.empty, kstacks = [], frames = Map.empty, slots = Map.empty, tss_rsp0 = 0, syscall_kstack = 0,
     vmm_current = 0, cr3 = 0, fpu = [], msr_fs = 0, msr_gs = 0\<rparr>"

lemma demo_sched_live: "live demo_sched = {4096, 8192, 12288}"
  by (auto simp: live_def demo_sched_def)

lemma demo_sched_ok: "table_ok demo_sched"
proof -
  have "distinct [4096, 8192, 12288 :: u64]" by simp
  then have "\<forall>i < 64. \<forall>j < 64. threads demo_sched ! i = threads demo_sched ! j \<longrightarrow> threads demo_sched ! i \<noteq> 0 \<longrightarrow> i = j"
    by (auto simp: demo_sched_def nth_append nth_Cons' split: if_splits)
  then show ?thesis
    by (simp add: table_ok_def demo_sched_live SCHED_MAX_THREADS_def) (simp add: demo_sched_def)
qed

theorem sched_pick_best_witness:
  "fst (sched_pick demo_sched) \<noteq> 0 \<and> t_state (tcb_of (snd (sched_pick demo_sched)) 8192) = T_READY"
proof -
  obtain b s' where p: "sched_pick demo_sched = (b, s')" by fastforce
  have c: "cur_thread demo_sched \<noteq> 0" "dispatchers demo_sched \<le> 1" by (simp_all add: demo_sched_def)
  have d: "due demo_sched 8192" by (simp add: due_def tcb_of_def demo_sched_def demo_tcb_def)
  note q = sched_pick_best [OF demo_sched_ok c p]
  have r: "t_state (tcb_of s' 8192) = T_READY" using q d by (simp add: demo_sched_live)
  moreover have "8192 \<in> live s'" using q by (simp add: live_def demo_sched_def)
  ultimately show ?thesis using q p by (auto simp: runnable_def)
qed

text \<open>
  C18: Round robin.  Take a state with the scheduler on, preemption allowed and no sleeper due in
  the next 64 ticks.  A runnable thread that no runnable thread outranks is the running one
  after at most 64 ticks, whatever stack pointers the ticks interrupt.
\<close>

theorem sched_round_robin:
  assumes "calm s 64" and "top s t" and "length sps = 64"
  shows "\<exists>k. 0 < k \<and> k \<le> 64 \<and> cur_thread (hard_ticks (take k sps) s) = t"
proof -
  have "rot s t < 64" by (rule order_covers) (use assms(1,2) in \<open>simp_all add: calm_def top_def runnable_def\<close>)
  then show ?thesis using round_robin [OF assms(1,2) _ assms(3)] by simp
qed

definition demo_calm :: sched where
  "demo_calm = demo_sched\<lparr>tcbs := (tcbs demo_sched)(8192 \<mapsto> demo_tcb T_READY 4 0)\<rparr>"

theorem sched_round_robin_witness:
  "\<exists>k \<le> 64. cur_thread (hard_ticks (take k (replicate 64 77)) demo_calm) = 12288"
proof -
  have l: "live demo_calm = {4096, 8192, 12288}" using demo_sched_live by (simp add: demo_calm_def live_def)
  have t: "tcb_of demo_calm 4096 = demo_tcb T_RUNNING 4 0" "tcb_of demo_calm 8192 = demo_tcb T_READY 4 0"
    "tcb_of demo_calm 12288 = demo_tcb T_READY 4 0"
    by (simp_all add: tcb_of_def demo_calm_def demo_sched_def)
  have "table_ok demo_calm" using demo_sched_ok by (simp add: table_ok_def demo_calm_def live_def)
  then have "calm demo_calm 64"
    by (simp add: calm_def l t) (simp add: demo_calm_def demo_sched_def demo_tcb_def)
  moreover have "top demo_calm 12288" by (auto simp: top_def runnable_def l t demo_tcb_def)
  ultimately show ?thesis using sched_round_robin [of demo_calm 12288 "replicate 64 77"] by auto
qed

end
