(* ===== verification/Sched_Inv.thy ===== *)
theory Sched_Inv
  imports Sched_Pick
begin

text \<open>
  The scheduler's invariant and that every operation keeps it: the thread table holds live
  control blocks, at most the current thread is running, no two threads share a kernel stack,
  an address space is alive as long as a thread runs in it and its count is the number of
  those threads.  Separately, the depth of every ready queue is the number of threads homed
  there, which every operation but \<open>sched_clone_thread\<close> keeps.
\<close>

section \<open>The invariant\<close>

definition users :: "sched \<Rightarrow> u64 \<Rightarrow> u64 set" where
  "users s as = {t \<in> live s. t_as (tcb_of s t) = as}"

definition homed :: "sched \<Rightarrow> nat \<Rightarrow> u64 set" where
  "homed s c = {t \<in> live s. unat (t_cpu (tcb_of s t)) = c}"

definition base_inv :: "sched \<Rightarrow> bool" where
  "base_inv s \<longleftrightarrow> table_ok s \<and> (\<forall>t \<in> live s. t_state (tcb_of s t) = T_RUNNING \<longrightarrow> t = cur_thread s) \<and>
     (\<forall>t \<in> live s. unat (t_cpu (tcb_of s t)) < SCHED_MAX_CPUS) \<and>
     length (rq s) = SCHED_MAX_CPUS \<and> (\<forall>c < SCHED_MAX_CPUS. 0 \<le> rq s ! c) \<and>
     1 \<le> cpus s \<and> cpus s \<le> int SCHED_MAX_CPUS"

definition stack_inv :: "sched \<Rightarrow> bool" where
  "stack_inv s \<longleftrightarrow> distinct (kstacks s) \<and>
     (\<forall>t \<in> live s. t_kstack (tcb_of s t) \<noteq> 0 \<longrightarrow> t_kstack (tcb_of s t) \<in> set (kstacks s)) \<and>
     (\<forall>t \<in> live s. \<forall>u \<in> live s. t_kstack (tcb_of s t) \<noteq> 0 \<longrightarrow> t_kstack (tcb_of s t) = t_kstack (tcb_of s u) \<longrightarrow> t = u)"

definition space_inv :: "sched \<Rightarrow> bool" where
  "space_inv s \<longleftrightarrow> (\<forall>as. as \<noteq> 0 \<longrightarrow> users s as \<noteq> {} \<longrightarrow>
     (\<exists>a. spaces s as = Some a \<and> unat (refs a) = card (users s as)))"

definition sched_inv :: "sched \<Rightarrow> bool" where
  "sched_inv s \<longleftrightarrow> base_inv s \<and> stack_inv s \<and> space_inv s"

definition rq_inv :: "sched \<Rightarrow> bool" where
  "rq_inv s \<longleftrightarrow> (\<forall>c < SCHED_MAX_CPUS. rq s ! c = int (card (homed s c)))"

lemma live_finite [simp]: "finite (live s)"
  by (simp add: live_def)

lemma users_finite [simp]: "finite (users s as)" "finite (homed s c)"
  by (simp_all add: users_def homed_def)

lemma card_live: "table_ok s \<Longrightarrow> card (live s) \<le> 64"
proof -
  assume "table_ok s"
  then have "card (set (threads s)) \<le> 64" using card_length [of "threads s"] by (simp add: table_ok_def SCHED_MAX_THREADS_def)
  moreover have "card (live s) \<le> card (set (threads s))" unfolding live_def by (intro card_mono) auto
  ultimately show ?thesis by simp
qed

section \<open>Operations that only touch live control blocks\<close>

text \<open>Same table, queues, spaces and stacks, and every control block keeps its home, space and stack.\<close>

definition same_shape :: "sched \<Rightarrow> sched \<Rightarrow> bool" where
  "same_shape s s' \<longleftrightarrow> threads s' = threads s \<and> rq s' = rq s \<and> cpus s' = cpus s \<and> spaces s' = spaces s \<and>
     kstacks s' = kstacks s \<and>
     (\<forall>t \<in> live s. (tcbs s t \<noteq> None \<longrightarrow> tcbs s' t \<noteq> None) \<and> t_cpu (tcb_of s' t) = t_cpu (tcb_of s t) \<and>
        t_as (tcb_of s' t) = t_as (tcb_of s t) \<and> t_kstack (tcb_of s' t) = t_kstack (tcb_of s t))"

lemma same_shape_refl [simp]: "same_shape s s"
  by (simp add: same_shape_def)

lemma same_shape_live: "same_shape s s' \<Longrightarrow> live s' = live s"
  by (simp add: same_shape_def live_def)

lemma same_shape_trans [trans]: "same_shape s s1 \<Longrightarrow> same_shape s1 s2 \<Longrightarrow> same_shape s s2"
  using same_shape_live [of s s1] by (auto simp: same_shape_def)

lemma same_shape_upd:
  "(\<And>x. t_cpu (f x) = t_cpu x \<and> t_as (f x) = t_as x \<and> t_kstack (f x) = t_kstack x) \<Longrightarrow> same_shape s (upd t f s)"
  by (simp add: same_shape_def tcb_of_upd tcbs_upd)

lemma same_shape_users:
  assumes "same_shape s s'"
  shows "users s' as = users s as" and "homed s' c = homed s c"
  using assms same_shape_live [OF assms] by (auto simp: same_shape_def users_def homed_def)

definition run_ok :: "sched \<Rightarrow> bool" where
  "run_ok s \<longleftrightarrow> (cur_thread s \<noteq> 0 \<longrightarrow> cur_thread s \<in> live s) \<and>
     (\<forall>t \<in> live s. t_state (tcb_of s t) = T_RUNNING \<longrightarrow> t = cur_thread s)"

lemma sched_inv_run_ok: "sched_inv s \<Longrightarrow> run_ok s"
  by (simp add: sched_inv_def base_inv_def table_ok_def run_ok_def)

lemma same_shape_inv:
  assumes "same_shape s s'" and "sched_inv s" and "run_ok s'"
  shows "sched_inv s'" and "rq_inv s \<Longrightarrow> rq_inv s'"
proof -
  note l = same_shape_live [OF assms(1)] and u = same_shape_users [OF assms(1)]
  have e: "threads s' = threads s" "rq s' = rq s" "cpus s' = cpus s" "spaces s' = spaces s" "kstacks s' = kstacks s"
    and t: "\<And>t. t \<in> live s \<Longrightarrow> (tcbs s t \<noteq> None \<longrightarrow> tcbs s' t \<noteq> None) \<and> t_cpu (tcb_of s' t) = t_cpu (tcb_of s t) \<and>
        t_as (tcb_of s' t) = t_as (tcb_of s t) \<and> t_kstack (tcb_of s' t) = t_kstack (tcb_of s t)"
    using assms(1) unfolding same_shape_def by blast+
  have "table_ok s'" using assms(2,3) t l e(1) unfolding sched_inv_def base_inv_def table_ok_def run_ok_def by simp
  then have "base_inv s'" using assms(2,3) t l e unfolding sched_inv_def base_inv_def run_ok_def by simp
  moreover have "stack_inv s'" using assms(2) t l e unfolding sched_inv_def stack_inv_def by simp
  moreover have "space_inv s'" using assms(2) u(1) e(4) unfolding sched_inv_def space_inv_def by simp
  ultimately show "sched_inv s'" by (simp add: sched_inv_def)
  show "rq_inv s \<Longrightarrow> rq_inv s'" using u(2) e(2) by (simp add: rq_inv_def)
qed

text \<open>Changes outside the thread state.\<close>

lemma same_shape_outer:
  assumes "threads s' = threads s" "rq s' = rq s" "cpus s' = cpus s" "spaces s' = spaces s" "kstacks s' = kstacks s" "tcbs s' = tcbs s"
  shows "same_shape s s'"
  using assms by (simp add: same_shape_def tcb_of_def)

lemma run_ok_outer: "threads s' = threads s \<Longrightarrow> tcbs s' = tcbs s \<Longrightarrow> cur_thread s' = cur_thread s \<Longrightarrow> run_ok s' = run_ok s"
  by (simp add: run_ok_def live_def tcb_of_def)

lemma run_ok_upd:
  "run_ok s \<Longrightarrow> (\<And>x. t_state (f x) = T_RUNNING \<Longrightarrow> t_state x = T_RUNNING \<or> t = cur_thread s) \<Longrightarrow> run_ok (upd t f s)"
  by (auto simp: run_ok_def live_def tcb_of_upd split: if_splits)

section \<open>The tick\<close>

lemma woken_shape:
  assumes "table_ok s" and "cur_thread s \<noteq> 0"
  shows "same_shape s (woken s)"
  using tcbs_woken_None [OF assms] woken_tcb [OF assms] by (simp add: same_shape_def woken_sel)

lemma woken_run_ok:
  assumes "table_ok s" and "cur_thread s \<noteq> 0" and "run_ok s"
  shows "run_ok (woken s)"
  using assms(3) woken_tcb [OF assms(1,2)] by (auto simp: run_ok_def woken_sel split: if_splits)

lemma switch_shape:
  assumes "sched_switch b sp s = (r, s')"
  shows "same_shape s s'"
  using sched_switch_sel [OF assms] sched_switch_tcbs [OF assms]
  by (simp add: same_shape_def sched_enter_tcb sched_save_tcb)

lemma switch_run_ok:
  assumes "sched_switch b sp s = (r, s')" and "run_ok s" and "b \<in> live s"
  shows "run_ok s'"
proof -
  have l: "live s' = live s" "cur_thread s' = b" using sched_switch_sel [OF assms(1)] by (simp_all add: live_def)
  have "t = b" if "t \<in> live s" "t_state (tcb_of s' t) = T_RUNNING" for t
  proof (rule ccontr)
    assume "t \<noteq> b"
    then have "t_state (tcb_of (sched_save sp s) t) = T_RUNNING"
      using that(2) unfolding sched_switch_tcbs(1) [OF assms(1)] sched_enter_tcb by simp
    moreover have "t_state (tcb_of (sched_save sp s) t) \<noteq> T_RUNNING"
    proof (cases "t = cur_thread s")
      case True
      then show ?thesis by (simp add: sched_save_tcb)
    next
      case False
      then have "t_state (tcb_of s t) \<noteq> T_RUNNING" using that(1) assms(2) unfolding run_ok_def by blast
      then show ?thesis using False by (simp add: sched_save_tcb)
    qed
    ultimately show False by simp
  qed
  then show ?thesis using assms(3) l by (simp add: run_ok_def)
qed

lemma on_tick_inv:
  assumes "sched_inv s" and "dispatchers s \<le> 1" and "sched_on_tick sp s = (r, s')"
  shows "same_shape s s' \<and> run_ok s' \<and> dispatchers s' = dispatchers s"
  using assms(3)
proof (cases rule: sched_on_tick_cases)
  case off
  then show ?thesis using sched_inv_run_ok [OF assms(1)]
    by (simp add: same_shape_outer run_ok_outer [of "sched_count s" s])
next
  case (stay b s1)
  have t: "table_ok (sched_count s)" using assms(1) by (simp add: sched_inv_def base_inv_def)
  note p = sched_pick_woken [OF t _ _ stay(4), simplified, OF stay(2) assms(2)]
  have "same_shape s (sched_count s)" by (simp add: same_shape_outer)
  also have "same_shape (sched_count s) s1" unfolding p(1) by (rule woken_shape [OF t]) (simp add: stay(2))
  also have "same_shape s1 s'" unfolding stay(7) by (simp add: same_shape_upd)
  finally have "same_shape s s'" .
  moreover have "run_ok s1" unfolding p(1)
    by (rule woken_run_ok [OF t]) (use stay(2) sched_inv_run_ok [OF assms(1)] in \<open>simp_all add: run_ok_outer [of "sched_count s" s]\<close>)
  then have "run_ok s'" unfolding stay(7) by (simp add: run_ok_upd)
  moreover have "dispatchers s' = dispatchers s" unfolding stay(7) p(1) by (simp add: woken_sel)
  ultimately show ?thesis by simp
next
  case (switch b s1)
  have t: "table_ok (sched_count s)" using assms(1) by (simp add: sched_inv_def base_inv_def)
  note p = sched_pick_woken [OF t _ _ switch(4), simplified, OF switch(2) assms(2)]
  have "same_shape s (sched_count s)" by (simp add: same_shape_outer)
  also have "same_shape (sched_count s) s1" unfolding p(1) by (rule woken_shape [OF t]) (simp add: switch(2))
  also have "same_shape s1 s'" by (rule switch_shape [OF switch(7)])
  finally have "same_shape s s'" .
  moreover have "run_ok s1" unfolding p(1)
    by (rule woken_run_ok [OF t]) (use switch(2) sched_inv_run_ok [OF assms(1)] in \<open>simp_all add: run_ok_outer [of "sched_count s" s]\<close>)
  then have "run_ok s'" using switch_run_ok [OF switch(7)] p(3) switch(5) by (simp add: runnable_def)
  moreover have "dispatchers s' = dispatchers s" unfolding sched_switch_sel [OF switch(7)] p(1) by (simp add: woken_sel)
  ultimately show ?thesis by simp
qed

lemma stub_inv:
  assumes "sched_inv s" and "dispatchers s \<le> 1" and "sched_timer_stub sp s = (r, s')"
  shows "same_shape s s' \<and> run_ok s' \<and> dispatchers s' = dispatchers s"
proof -
  obtain s2 where o: "sched_on_tick sp s = (r, s2)" and v: "threads s' = threads s2" "cur_thread s' = cur_thread s2"
    "tcbs s' = tcbs s2" "dispatchers s' = dispatchers s2" "rq s' = rq s2" "cpus s' = cpus s2" "spaces s' = spaces s2"
    "kstacks s' = kstacks s2"
    using stub_sel [OF assms(3)] by metis
  have "same_shape s s2 \<and> run_ok s2 \<and> dispatchers s2 = dispatchers s" by (rule on_tick_inv [OF assms(1,2) o])
  moreover have "same_shape s2 s'" by (rule same_shape_outer) (use v in simp_all)
  ultimately show ?thesis using same_shape_trans run_ok_outer [OF v(1,3,2)] v(4) by auto
qed

section \<open>Sleeping and waking\<close>

lemma park_shape: "(\<And>x. t_cpu (f x) = t_cpu x \<and> t_as (f x) = t_as x \<and> t_kstack (f x) = t_kstack x) \<Longrightarrow> same_shape s (park f s)"
  unfolding park_def by (rule same_shape_upd) simp

lemma park_run_ok: "run_ok s \<Longrightarrow> run_ok (park f s)"
  unfolding park_def by (rule run_ok_upd) simp_all

lemma wake_loop_ok:
  "run_ok s \<Longrightarrow> same_shape s (wake_loop chan all ts s) \<and> run_ok (wake_loop chan all ts s) \<and>
    dispatchers (wake_loop chan all ts s) = dispatchers s"
proof (induction ts arbitrary: s)
  case (Cons t ts)
  let ?a = "upd t (\<lambda>x. x\<lparr>t_wait_chan := 0\<rparr>) s"
  let ?b = "if t_state (tcb_of ?a t) = T_SLEEPING then upd t (\<lambda>x. x\<lparr>t_state := T_READY\<rparr>) ?a else ?a"
  have "same_shape s ?a" "same_shape ?a ?b" by (simp_all add: same_shape_upd)
  then have sh: "same_shape s ?b" by (rule same_shape_trans)
  have "run_ok ?a" by (rule run_ok_upd [OF Cons.prems]) simp
  then have r: "run_ok ?b" using run_ok_upd [of ?a "\<lambda>x. x\<lparr>t_state := T_READY\<rparr>" t] by simp
  have d: "dispatchers ?b = dispatchers s" by simp
  show ?case
  proof (cases "t = 0 \<or> t_wait_chan (tcb_of s t) \<noteq> chan")
    case True
    then show ?thesis using Cons by simp
  next
    case False
    then have "wake_loop chan all (t # ts) s = (if \<not> all then ?b else wake_loop chan all ts ?b)"
      by (simp only: wake_loop.simps Let_def if_False)
    then show ?thesis using Cons.IH [OF r] sh r d same_shape_trans [OF sh] by presburger
  qed
qed simp

lemma pulse_loop_ok:
  "run_ok s \<Longrightarrow> same_shape s (pulse_loop ts s) \<and> run_ok (pulse_loop ts s) \<and> dispatchers (pulse_loop ts s) = dispatchers s"
proof (induction ts arbitrary: s)
  case (Cons t ts)
  let ?a = "upd t (\<lambda>x. x\<lparr>t_waits_frame := False\<rparr>) s"
  let ?b = "if t_state (tcb_of ?a t) = T_SLEEPING then upd t (\<lambda>x. x\<lparr>t_state := T_READY\<rparr>) ?a else ?a"
  have "same_shape s ?a" "same_shape ?a ?b" by (simp_all add: same_shape_upd)
  then have sh: "same_shape s ?b" by (rule same_shape_trans)
  have "run_ok ?a" by (rule run_ok_upd [OF Cons.prems]) simp
  then have r: "run_ok ?b" using run_ok_upd [of ?a "\<lambda>x. x\<lparr>t_state := T_READY\<rparr>" t] by simp
  have d: "dispatchers ?b = dispatchers s" by simp
  have "pulse_loop (t # ts) s = (if t \<noteq> 0 \<and> t_waits_frame (tcb_of s t) then pulse_loop ts ?b else pulse_loop ts s)"
    by (simp only: pulse_loop.simps Let_def)
  then show ?case using Cons.IH [OF r] Cons.IH [OF Cons.prems] d same_shape_trans [OF sh] by presburger
qed simp

section \<open>Creating threads\<close>

text \<open>
  A thread under construction: its control block, stack and queue place are taken, the rest of
  the state is as before.  It is counted on queue \<open>h\<close> and calls \<open>c\<close> home.
\<close>

definition prepared :: "sched \<Rightarrow> u64 \<Rightarrow> u64 \<Rightarrow> u64 \<Rightarrow> nat \<Rightarrow> nat \<Rightarrow> sched \<Rightarrow> bool" where
  "prepared s p k as c h s1 \<longleftrightarrow> threads s1 = threads s \<and> cur_thread s1 = cur_thread s \<and> cpus s1 = cpus s \<and>
     spaces s1 = spaces s \<and> dispatchers s1 = dispatchers s \<and> kstacks s1 = k # kstacks s \<and>
     rq s1 = (rq s)[h := rq s ! h + 1] \<and> c < SCHED_MAX_CPUS \<and> h < SCHED_MAX_CPUS \<and>
     (\<forall>t. t \<noteq> p \<longrightarrow> tcbs s1 t = tcbs s t) \<and>
     (\<exists>x. tcbs s1 p = Some x \<and> t_state x = T_READY \<and> t_kstack x = k \<and> t_as x = as \<and> unat (t_cpu x) = c)"

lemma home_loop_less: "\<forall>c \<in> set cs. c < n \<Longrightarrow> best < n \<Longrightarrow> home_loop q cs best < n"
  by (induction cs arbitrary: best) auto

lemma sched_pick_home_less:
  assumes "1 \<le> cpus s" and "cpus s \<le> int SCHED_MAX_CPUS"
  shows "unat (sched_pick_home prio s) < SCHED_MAX_CPUS"
proof -
  have "home_loop (rq s) [1..<nat (cpus s)] 0 < nat (cpus s)" by (rule home_loop_less) (use assms in auto)
  then have "home_loop (rq s) [1..<nat (cpus s)] 0 < 16" using assms(2) by (simp add: SCHED_MAX_CPUS_def)
  then show ?thesis
    by (simp add: sched_pick_home_def SCHED_MAX_CPUS_def unsigned_of_nat take_bit_nat_eq_self)
qed

lemma sched_new_null: "p = 0 \<or> k = 0 \<Longrightarrow> p \<notin> dom (tcbs s) \<Longrightarrow> sched_new name prio p k s = (0, s)"
  by (auto simp: sched_new_def Let_def kfree_tcb_def)

lemma cpu_bound: "unat (c :: u32) < SCHED_MAX_CPUS \<longleftrightarrow> \<not> of_nat SCHED_MAX_CPUS \<le> c"
  by (simp add: word_le_nat_alt SCHED_MAX_CPUS_def not_le)

lemma rq_join_prepared:
  assumes "unat (t_cpu (tcb_of s t)) < SCHED_MAX_CPUS"
  shows "sched_rq_join t s = s\<lparr>rq := (rq s)[unat (t_cpu (tcb_of s t)) := rq s ! unat (t_cpu (tcb_of s t)) + 1]\<rparr>"
  using assms by (simp add: sched_rq_join_def cpu_bound Let_def)

lemma sched_new_prepared:
  assumes "base_inv s" and "p \<noteq> 0" and "k \<noteq> 0" and "sched_new name prio p k s = (t, s1)"
  shows "t = p" and "prepared s p k 0 (unat (sched_pick_home prio s)) (unat (sched_pick_home prio s)) s1"
proof -
  let ?h = "unat (sched_pick_home prio s)"
  have h: "?h < SCHED_MAX_CPUS" using assms(1) by (intro sched_pick_home_less) (simp_all add: base_inv_def)
  define s2 where "s2 = sched_name p name (upd p (\<lambda>t. t\<lparr>t_pid := next_pid s, t_prio := prio, t_state := T_READY,
      t_kstack_top := (k + SCHED_KSTACK) AND NOT 15, t_cpu := sched_pick_home prio s, t_fx := fx_template s\<rparr>)
      (s\<lparr>tcbs := (tcbs s)(p \<mapsto> zero_tcb\<lparr>t_kstack := k\<rparr>), kstacks := k # kstacks s, next_pid := next_pid s + 1\<rparr>))"
  have ph: "sched_pick_home prio (s\<lparr>tcbs := x, kstacks := y\<rparr>) = sched_pick_home prio s" for x y
    by (simp add: sched_pick_home_def)
  have r: "(t, s1) = (p, sched_rq_join p s2)"
    using assms(2-4) by (auto simp: sched_new_def Let_def s2_def ph)
  then show "t = p" by simp
  have x: "\<exists>x. tcbs s2 p = Some x \<and> t_state x = T_READY \<and> t_kstack x = k \<and> t_as x = 0 \<and> unat (t_cpu x) = ?h"
    by (simp add: s2_def sched_name_def tcbs_upd tcb_of_upd) (simp add: tcb_of_def zero_tcb_def)
  then have c: "unat (t_cpu (tcb_of s2 p)) = ?h" by (auto simp: tcb_of_def)
  have e: "threads s2 = threads s" "cur_thread s2 = cur_thread s" "cpus s2 = cpus s" "spaces s2 = spaces s"
    "dispatchers s2 = dispatchers s" "kstacks s2 = k # kstacks s" "rq s2 = rq s" "\<And>t. t \<noteq> p \<Longrightarrow> tcbs s2 t = tcbs s t"
    by (simp_all add: s2_def sched_name_def tcbs_upd)
  show "prepared s p k 0 ?h ?h s1"
    using r e x h rq_join_prepared [of s2 p] unfolding c prepared_def by simp
qed

lemma prepared_upd:
  assumes "prepared s p k as c h s1"
    and "\<And>x. t_as x = as \<Longrightarrow> unat (t_cpu x) = c \<Longrightarrow> t_state (f x) = t_state x \<and> t_kstack (f x) = t_kstack x \<and>
      t_as (f x) = as' \<and> unat (t_cpu (f x)) = c'" and "c' < SCHED_MAX_CPUS"
  shows "prepared s p k as' c' h (upd p f s1)"
  using assms by (auto simp: prepared_def tcbs_upd tcb_of_def)

definition outer :: "sched \<Rightarrow> sched \<Rightarrow> bool" where
  "outer s1 s2 \<longleftrightarrow> threads s2 = threads s1 \<and> cur_thread s2 = cur_thread s1 \<and> cpus s2 = cpus s1 \<and>
     spaces s2 = spaces s1 \<and> dispatchers s2 = dispatchers s1 \<and> kstacks s2 = kstacks s1 \<and> rq s2 = rq s1 \<and> tcbs s2 = tcbs s1"

lemma prepared_outer: "prepared s p k as c h s1 \<Longrightarrow> outer s1 s2 \<Longrightarrow> prepared s p k as c h s2"
  by (simp add: prepared_def outer_def)

text \<open>The table with one more thread in a free slot.\<close>

lemma live_insert:
  assumes "table_ok s" and "i < SCHED_MAX_THREADS" and "threads s ! i = 0" and "p \<noteq> 0" and "threads s' = (threads s)[i := p]"
  shows "live s' = insert p (live s)"
proof -
  have i: "i < length (threads s)" using assms(1,2) by (simp add: table_ok_def)
  have "set (threads s) - {0} = set ((threads s)[i := 0]) - {0}" using assms(3) by (metis list_update_id)
  also have "insert p (\<dots>) = set ((threads s)[i := p]) - {0}"
  proof -
    have "set ((threads s)[i := x]) = insert x (set (take i (threads s)) \<union> set (drop (Suc i) (threads s)))" for x
      using i by (simp add: upd_conv_take_nth_drop)
    then show ?thesis using assms(4) by auto
  qed
  finally show ?thesis using assms(5) by (simp add: live_def)
qed

lemma free_slot:
  assumes "slot_from 0 xs 0 = i" and "0 \<le> i"
  shows "nat i < length xs" and "xs ! nat i = 0"
proof -
  have "0 \<in> set xs"
  proof (rule ccontr)
    have "0 \<notin> set xs \<Longrightarrow> slot_from j xs 0 = - 1" for j by (induction xs arbitrary: j) auto
    moreover assume "0 \<notin> set xs"
    ultimately show False using assms by simp
  qed
  from slot_from_nth [OF this, of 0] assms show "nat i < length xs" and "xs ! nat i = 0" by auto
qed

definition gave_back :: "sched \<Rightarrow> nat \<Rightarrow> nat \<Rightarrow> sched \<Rightarrow> bool" where
  "gave_back s c h s' \<longleftrightarrow> threads s' = threads s \<and> cur_thread s' = cur_thread s \<and> cpus s' = cpus s \<and>
     spaces s' = spaces s \<and> dispatchers s' = dispatchers s \<and> kstacks s' = kstacks s \<and> tcbs s' = tcbs s \<and>
     length (rq s') = length (rq s) \<and> (\<forall>d < SCHED_MAX_CPUS. 0 \<le> rq s' ! d) \<and> (c = h \<longrightarrow> rq s' = rq s)"

definition placed :: "sched \<Rightarrow> u64 \<Rightarrow> u64 \<Rightarrow> u64 \<Rightarrow> nat \<Rightarrow> nat \<Rightarrow> sched \<Rightarrow> bool" where
  "placed s p k as c h s' \<longleftrightarrow> (\<exists>s1 i. prepared s p k as c h s1 \<and> i < SCHED_MAX_THREADS \<and> threads s ! i = 0 \<and>
     s' = s1\<lparr>threads := (threads s1)[i := p]\<rparr>)"

lemma admit_cases:
  assumes "base_inv s" and "p \<noteq> 0" and "p \<notin> dom (tcbs s)" and "prepared s p k as c h s1" and "sched_admit p s1 = (r, s')"
  shows "r = 0 \<and> gave_back s c h s' \<or> r = p \<and> placed s p k as c h s'"
proof -
  let ?i = "slot_from 0 (threads s1) 0"
  have th: "threads s1 = threads s" "length (threads s) = SCHED_MAX_THREADS"
    using assms(1,4) by (simp_all add: prepared_def base_inv_def table_ok_def)
  show ?thesis
  proof (cases "0 \<le> ?i")
    case True
    then have "(r, s') = (p, s1\<lparr>threads := (threads s1)[nat ?i := p]\<rparr>)"
      using assms(5) by (auto simp: sched_admit_def sched_register_def Let_def)
    moreover have "nat ?i < SCHED_MAX_THREADS" "threads s ! nat ?i = 0"
      using free_slot [OF refl True] th by simp_all
    ultimately show ?thesis using assms(4) unfolding placed_def by blast
  next
    case False
    define s2 where "s2 = sched_rq_leave p s1"
    obtain x where x: "tcbs s1 p = Some x" "t_kstack x = k" "unat (t_cpu x) = c" "c < SCHED_MAX_CPUS" "h < SCHED_MAX_CPUS"
      and rq1: "rq s1 = (rq s)[h := rq s ! h + 1]"
      and e: "\<And>t. t \<noteq> p \<Longrightarrow> tcbs s1 t = tcbs s t" "kstacks s1 = k # kstacks s"
      "cur_thread s1 = cur_thread s" "cpus s1 = cpus s" "spaces s1 = spaces s" "dispatchers s1 = dispatchers s"
      using assms(4) unfolding prepared_def by blast
    have s2: "s2 = (if 0 < rq s1 ! c then s1\<lparr>rq := (rq s1)[c := rq s1 ! c - 1]\<rparr> else s1)"
      using x cpu_bound [of "t_cpu x"] by (simp add: s2_def sched_rq_leave_def tcb_of_def Let_def)
    then have "t_kstack (tcb_of s2 p) = k" using x by (simp add: tcb_of_def)
    then have "(r, s') = (0, s2\<lparr>kstacks := remove1 k (kstacks s2), tcbs := (tcbs s2)(p := None)\<rparr>)"
      using False assms(5) by (auto simp: sched_admit_def sched_register_def kstack_free_def kfree_tcb_def s2_def Let_def)
    then have r: "r = 0" "s' = s2\<lparr>kstacks := remove1 k (kstacks s2), tcbs := (tcbs s2)(p := None)\<rparr>" by auto
    have "tcbs s p = None" using assms(3) by auto
    then have "tcbs s' = tcbs s" using e(1) by (auto simp: r(2) s2 fun_eq_iff)
    moreover have len: "length (rq s) = SCHED_MAX_CPUS" "\<forall>d < SCHED_MAX_CPUS. 0 \<le> rq s ! d"
      using assms(1) by (simp_all add: base_inv_def)
    moreover have "c = h \<longrightarrow> rq s' = rq s"
      using len x(4) rq1 by (auto simp: r(2) s2)
    moreover have "\<forall>d < SCHED_MAX_CPUS. 0 \<le> rq s' ! d"
      using len x(4,5) rq1 by (auto simp: r(2) s2 nth_list_update split: if_splits)
    ultimately have "gave_back s c h s'" using e th(1) rq1 by (simp add: gave_back_def r(2) s2)
    then show ?thesis using r(1) by simp
  qed
qed

lemma gave_back_inv:
  assumes "sched_inv s" and "gave_back s c h s'"
  shows "sched_inv s'" and "c = h \<Longrightarrow> rq_inv s \<Longrightarrow> rq_inv s'"
proof -
  have e: "threads s' = threads s" "cur_thread s' = cur_thread s" "cpus s' = cpus s" "spaces s' = spaces s"
    "kstacks s' = kstacks s" "tcbs s' = tcbs s" "length (rq s') = length (rq s)" "\<forall>d < SCHED_MAX_CPUS. 0 \<le> rq s' ! d"
    "c = h \<longrightarrow> rq s' = rq s"
    using assms(2) by (simp_all add: gave_back_def)
  have v: "live s' = live s" "tcb_of s' t = tcb_of s t" "users s' as = users s as" "homed s' d = homed s d" for t as d
    using e by (simp_all add: live_def tcb_of_def users_def homed_def)
  show "sched_inv s'"
    using assms(1) e v by (simp add: sched_inv_def base_inv_def table_ok_def stack_inv_def space_inv_def)
  show "c = h \<Longrightarrow> rq_inv s \<Longrightarrow> rq_inv s'" using e v by (simp add: rq_inv_def)
qed

lemma live_known: "table_ok s \<Longrightarrow> p \<notin> dom (tcbs s) \<Longrightarrow> p \<notin> live s"
  by (auto simp: table_ok_def)

lemma placed_view:
  assumes "sched_inv s" and "p \<noteq> 0" and "p \<notin> dom (tcbs s)" and "placed s p k as c h s'"
  shows "live s' = insert p (live s)" and "p \<notin> live s" and "t \<in> live s \<Longrightarrow> tcbs s' t = tcbs s t"
    and "t \<in> live s \<Longrightarrow> tcb_of s' t = tcb_of s t"
    and "\<exists>x. tcbs s' p = Some x \<and> t_state x = T_READY \<and> t_kstack x = k \<and> t_as x = as \<and> unat (t_cpu x) = c"
    and "cur_thread s' = cur_thread s \<and> cpus s' = cpus s \<and> spaces s' = spaces s \<and> dispatchers s' = dispatchers s \<and>
      kstacks s' = k # kstacks s \<and> rq s' = (rq s)[h := rq s ! h + 1] \<and> c < SCHED_MAX_CPUS \<and> h < SCHED_MAX_CPUS"
    and "\<exists>i < SCHED_MAX_THREADS. threads s ! i = 0 \<and> threads s' = (threads s)[i := p]"
proof -
  obtain s1 i where p: "prepared s p k as c h s1" and i: "i < SCHED_MAX_THREADS" "threads s ! i = 0"
    and s': "s' = s1\<lparr>threads := (threads s1)[i := p]\<rparr>" using assms(4) unfolding placed_def by blast
  have t: "table_ok s" using assms(1) by (simp add: sched_inv_def base_inv_def)
  have th: "threads s' = (threads s)[i := p]" using p s' by (simp add: prepared_def)
  show "live s' = insert p (live s)" by (rule live_insert [OF t i assms(2) th])
  show n: "p \<notin> live s" by (rule live_known [OF t assms(3)])
  show tc: "t \<in> live s \<Longrightarrow> tcbs s' t = tcbs s t" using p s' n by (auto simp: prepared_def)
  then show "t \<in> live s \<Longrightarrow> tcb_of s' t = tcb_of s t" by (simp add: tcb_of_def)
  show "\<exists>x. tcbs s' p = Some x \<and> t_state x = T_READY \<and> t_kstack x = k \<and> t_as x = as \<and> unat (t_cpu x) = c"
    using p s' by (simp add: prepared_def)
  show "cur_thread s' = cur_thread s \<and> cpus s' = cpus s \<and> spaces s' = spaces s \<and> dispatchers s' = dispatchers s \<and>
      kstacks s' = k # kstacks s \<and> rq s' = (rq s)[h := rq s ! h + 1] \<and> c < SCHED_MAX_CPUS \<and> h < SCHED_MAX_CPUS"
    using p s' by (simp add: prepared_def)
  show "\<exists>i < SCHED_MAX_THREADS. threads s ! i = 0 \<and> threads s' = (threads s)[i := p]" using i th by blast
qed

lemma placed_sets:
  assumes "sched_inv s" and "p \<noteq> 0" and "p \<notin> dom (tcbs s)" and "placed s p k as c h s'"
  shows "users s' a = (if a = as then insert p (users s a) else users s a)" and "p \<notin> users s a"
    and "homed s' d = (if d = c then insert p (homed s d) else homed s d)" and "p \<notin> homed s d"
proof -
  note v = placed_view [OF assms]
  have x: "t_as (tcb_of s' p) = as" "unat (t_cpu (tcb_of s' p)) = c" using v(5) by (auto simp: tcb_of_def)
  have eq: "{t \<in> insert p (live s). P (tcb_of s' t)} =
      (if P (tcb_of s' p) then insert p {t \<in> live s. P (tcb_of s t)} else {t \<in> live s. P (tcb_of s t)})" for P
    using v(2,4) by auto
  show "users s' a = (if a = as then insert p (users s a) else users s a)" and "p \<notin> users s a"
    using eq [of "\<lambda>y. t_as y = a"] x v(2) by (simp_all add: users_def v(1))
  show "homed s' d = (if d = c then insert p (homed s d) else homed s d)" and "p \<notin> homed s d"
    using eq [of "\<lambda>y. unat (t_cpu y) = d"] x v(2) by (simp_all add: homed_def v(1))
qed

lemma placed_base:
  assumes "sched_inv s" and "p \<noteq> 0" and "p \<notin> dom (tcbs s)" and "placed s p k as c h s'"
  shows "base_inv s'"
proof -
  note v = placed_view [OF assms]
  have b: "base_inv s" using assms(1) by (simp add: sched_inv_def)
  obtain i where i: "i < SCHED_MAX_THREADS" "threads s ! i = 0" "threads s' = (threads s)[i := p]" using v(7) by blast
  have len: "length (threads s) = SCHED_MAX_THREADS" using b by (simp add: base_inv_def table_ok_def)
  have uniq: "m = n" if "m < SCHED_MAX_THREADS" "n < SCHED_MAX_THREADS" "threads s' ! m = threads s' ! n" "threads s' ! m \<noteq> 0" for m n
  proof -
    have o: "threads s ! j \<noteq> p" if "j < SCHED_MAX_THREADS" for j
      using v(2) that len assms(2) nth_mem [of j "threads s"] by (auto simp: live_def)
    show ?thesis
      using that i o b len unfolding i(3) base_inv_def table_ok_def
      by (cases "m = i"; cases "n = i") auto
  qed
  have "\<forall>t \<in> live s'. tcbs s' t \<noteq> None" using v(1,3,5) b by (auto simp: base_inv_def table_ok_def)
  moreover have "cur_thread s' \<noteq> 0 \<longrightarrow> cur_thread s' \<in> live s'" using v(1,6) b by (simp add: base_inv_def table_ok_def)
  ultimately have "table_ok s'" using uniq i(3) len unfolding table_ok_def by simp
  moreover have "\<forall>t \<in> live s'. t_state (tcb_of s' t) = T_RUNNING \<longrightarrow> t = cur_thread s'"
    using v(1,2,4,5,6) b by (auto simp: base_inv_def tcb_of_def)
  moreover have "\<forall>t \<in> live s'. unat (t_cpu (tcb_of s' t)) < SCHED_MAX_CPUS"
    using v(1,2,4,5,6) b by (auto simp: base_inv_def tcb_of_def)
  ultimately show ?thesis using v(6) b by (auto simp: base_inv_def nth_list_update)
qed

lemma placed_stack:
  assumes "sched_inv s" and "p \<noteq> 0" and "p \<notin> dom (tcbs s)" and "placed s p k as c h s'" and "k \<notin> set (kstacks s)"
  shows "stack_inv s'"
proof -
  note v = placed_view [OF assms(1-4)]
  have st: "stack_inv s" using assms(1) by (simp add: sched_inv_def)
  have x: "t_kstack (tcb_of s' p) = k" using v(5) by (auto simp: tcb_of_def)
  have o: "t_kstack (tcb_of s' t) = t_kstack (tcb_of s t)" "t_kstack (tcb_of s t) \<noteq> 0 \<Longrightarrow> t_kstack (tcb_of s t) \<noteq> k"
    if "t \<in> live s" for t
    using v(2,4) that st assms(5) by (auto simp: stack_inv_def)
  have ks: "kstacks s' = k # kstacks s" using v(6) by simp
  have "distinct (kstacks s')" using ks st assms(5) by (simp add: stack_inv_def)
  moreover have "\<forall>t \<in> insert p (live s). t_kstack (tcb_of s' t) \<noteq> 0 \<longrightarrow> t_kstack (tcb_of s' t) \<in> set (kstacks s')"
    using st o(1) x ks by (simp add: stack_inv_def)
  moreover have "t = u" if "t \<in> insert p (live s)" "u \<in> insert p (live s)" "t_kstack (tcb_of s' t) \<noteq> 0"
    "t_kstack (tcb_of s' t) = t_kstack (tcb_of s' u)" for t u
  proof (cases "t = p")
    case True
    then show ?thesis using that o [of u] x by (cases "u = p") auto
  next
    case False
    then show ?thesis using that o [of t] o [of u] x st by (cases "u = p") (auto simp: stack_inv_def)
  qed
  ultimately show ?thesis unfolding stack_inv_def v(1) by blast
qed

lemma placed_rq:
  assumes "sched_inv s" and "p \<noteq> 0" and "p \<notin> dom (tcbs s)" and "placed s p k as c h s'" and "rq_inv s"
  shows "rq_inv s' \<longleftrightarrow> c = h"
proof -
  note v = placed_view [OF assms(1-4)] and u = placed_sets [OF assms(1-4)]
  have len: "length (rq s) = SCHED_MAX_CPUS" using assms(1) by (simp add: sched_inv_def base_inv_def)
  have cd: "card (homed s' d) = (if d = c then card (homed s d) + 1 else card (homed s d))" for d
    using u(3,4) [of d] by (cases "d = c") auto
  show ?thesis
  proof
    assume "rq_inv s'"
    then have "rq s' ! c = int (card (homed s' c))" using v(6) by (simp add: rq_inv_def)
    then show "c = h" using v(6) cd [of c] assms(5) len by (simp add: rq_inv_def nth_list_update split: if_splits)
  next
    assume "c = h"
    then show "rq_inv s'" using v(6) cd assms(5) len by (simp add: rq_inv_def nth_list_update)
  qed
qed

section \<open>What each spawn leaves\<close>

definition fresh :: "sched \<Rightarrow> u64 \<Rightarrow> u64 \<Rightarrow> bool" where
  "fresh s p k \<longleftrightarrow> p \<notin> dom (tcbs s) \<and> k \<notin> set (kstacks s)"

definition outcome :: "sched \<Rightarrow> u64 \<Rightarrow> u64 \<Rightarrow> u64 \<Rightarrow> nat \<Rightarrow> nat \<Rightarrow> u64 \<Rightarrow> sched \<Rightarrow> bool" where
  "outcome s p k as c h r s' \<longleftrightarrow> r = 0 \<and> gave_back s c h s' \<or> r = p \<and> p \<noteq> 0 \<and> placed s p k as c h s'"

lemma gave_back_refl: "base_inv s \<Longrightarrow> gave_back s c h s"
  by (simp add: gave_back_def base_inv_def)

lemma outcome_admit:
  assumes "base_inv s" and "fresh s p k" and "p \<noteq> 0" and "prepared s p k as c h s1" and "sched_admit p s1 = (r, s')"
  shows "outcome s p k as c h r s'"
  using admit_cases [OF assms(1,3) _ assms(4,5)] assms(2,3) by (auto simp: outcome_def fresh_def)

text \<open>A spawn starts with \<open>sched_new\<close>: it returns at once, or goes on from a prepared thread.\<close>

lemma outcome_new:
  assumes "base_inv s" and "fresh s p k" and "sched_new name prio p k s = (t, s1)"
    and "t = 0 \<Longrightarrow> r = 0 \<and> s' = s1"
    and "\<And>h. t = p \<Longrightarrow> p \<noteq> 0 \<Longrightarrow> h = unat (sched_pick_home prio s) \<Longrightarrow> prepared s p k 0 h h s1 \<Longrightarrow>
      outcome s p k as (c h) (d h) r s'"
  shows "outcome s p k as (c (unat (sched_pick_home prio s))) (d (unat (sched_pick_home prio s))) r s'"
proof (cases "p = 0 \<or> k = 0")
  case True
  then have "t = 0" "s1 = s" using sched_new_null [of p k s] assms(2,3) by (auto simp: fresh_def)
  then show ?thesis using assms(1,4) gave_back_refl by (simp add: outcome_def)
next
  case False
  then show ?thesis using sched_new_prepared [OF assms(1) _ _ assms(3)] assms(5) by simp
qed

text \<open>The common shape of the spawns: fill in the block, write the frame, record it, admit.\<close>

lemma outcome_build:
  assumes "base_inv s" and "fresh s p k" and "sched_new name prio p k s = (t, s1)"
    and "t = 0 \<Longrightarrow> r = 0 \<and> s' = s1"
    and "t \<noteq> 0 \<Longrightarrow> outer (upd t f s1) s2 \<and> sched_admit t (upd t g s2) = (r, s')"
    and f: "\<And>x. t_state (f x) = t_state x \<and> t_kstack (f x) = t_kstack x \<and> t_as (f x) = as \<and> t_cpu (f x) = t_cpu x"
    and g: "\<And>x. t_state (g x) = t_state x \<and> t_kstack (g x) = t_kstack x \<and> t_as (g x) = t_as x \<and> t_cpu (g x) = t_cpu x"
  shows "\<exists>c. outcome s p k as c c r s'"
proof -
  have "outcome s p k as (unat (sched_pick_home prio s)) (unat (sched_pick_home prio s)) r s'"
  proof (rule outcome_new [OF assms(1-4), where c = "\<lambda>h. h" and d = "\<lambda>h. h"])
    fix h assume t: "t = p" "p \<noteq> 0" and pr: "prepared s p k 0 h h s1"
    have h: "h < SCHED_MAX_CPUS" using pr by (simp add: prepared_def)
    have o: "outer (upd p f s1) s2" "sched_admit p (upd p g s2) = (r, s')" using assms(5) t by auto
    have "prepared s p k as h h (upd p f s1)" by (rule prepared_upd [OF pr _ h]) (simp add: f)
    then have "prepared s p k as h h s2" by (rule prepared_outer [OF _ o(1)])
    then have "prepared s p k as h h (upd p g s2)" by (rule prepared_upd [OF _ _ h]) (simp add: g)
    then show "outcome s p k as h h r s'" by (rule outcome_admit [OF assms(1,2) t(2) _ o(2)])
  qed
  then show ?thesis by blast
qed

lemma spawn_kernel_outcome:
  assumes "base_inv s" and "fresh s p k" and "sched_spawn_kernel fo fn name prio p k s = (r, s')"
  shows "\<exists>c. outcome s p k 0 c c r s'"
proof -
  obtain t s1 where n: "sched_new name prio p k s = (t, s1)" by fastforce
  let ?f = "\<lambda>x. x\<lparr>t_user := False, t_as := 0, t_cr3 := cr3 s1 AND PTE_ADDR_MASK\<rparr>"
  let ?a = "frame_addr (t_kstack (tcb_of (upd t ?f s1) t))"
  let ?s = "upd_frame ?a (\<lambda>f. f\<lparr>f_rsp := ?a - 8\<rparr>) (snd (sched_entry_sp fo ?a (snd (sched_build_frame t fn 0 False (upd t ?f s1)))))"
  show ?thesis
  proof (rule outcome_build [OF assms(1,2) n, of r s' ?f ?s "\<lambda>x. x\<lparr>t_rsp := ?a\<rparr>"])
    show "t = 0 \<Longrightarrow> r = 0 \<and> s' = s1" using assms(3) n by (simp add: sched_spawn_kernel_def)
    assume "t \<noteq> 0"
    then show "outer (upd t ?f s1) ?s \<and> sched_admit t (upd t (\<lambda>x. x\<lparr>t_rsp := ?a\<rparr>) ?s) = (r, s')"
      using assms(3) n unfolding sched_spawn_kernel_def
      by (simp add: Let_def outer_def sched_build_frame_def sched_entry_sp_def upd_frame_def)
  qed simp_all
qed

lemma spawn_kernel_arg_outcome:
  assumes "base_inv s" and "fresh s p k" and "sched_spawn_kernel_arg fo fn arg name prio p k s = (r, s')"
  shows "\<exists>c. outcome s p k 0 c c r s'"
proof -
  obtain t s1 where n: "sched_new name prio p k s = (t, s1)" by fastforce
  let ?f = "\<lambda>x. x\<lparr>t_user := False, t_as := 0, t_cr3 := cr3 s1 AND PTE_ADDR_MASK\<rparr>"
  let ?a = "frame_addr (t_kstack (tcb_of (upd t ?f s1) t))"
  let ?s = "upd_frame ?a (\<lambda>f. f\<lparr>f_rsp := ?a - 8, rdi := arg\<rparr>) (snd (sched_entry_sp fo ?a (snd (sched_build_frame t fn 0 False (upd t ?f s1)))))"
  show ?thesis
  proof (rule outcome_build [OF assms(1,2) n, of r s' ?f ?s "\<lambda>x. x\<lparr>t_rsp := ?a\<rparr>"])
    show "t = 0 \<Longrightarrow> r = 0 \<and> s' = s1" using assms(3) n by (simp add: sched_spawn_kernel_arg_def)
    assume "t \<noteq> 0"
    then show "outer (upd t ?f s1) ?s \<and> sched_admit t (upd t (\<lambda>x. x\<lparr>t_rsp := ?a\<rparr>) ?s) = (r, s')"
      using assms(3) n unfolding sched_spawn_kernel_arg_def
      by (simp add: Let_def outer_def sched_build_frame_def sched_entry_sp_def upd_frame_def)
  qed simp_all
qed

lemma spawn_user_outcome:
  assumes "base_inv s" and "fresh s p k" and "sched_spawn_user as entry us name prio p k s = (r, s')"
  shows "\<exists>c. outcome s p k as c c r s'"
proof -
  obtain t s1 where n: "sched_new name prio p k s = (t, s1)" by fastforce
  let ?f = "\<lambda>x. x\<lparr>t_user := True, t_as := as, t_cr3 := pml4_phys (the (spaces s1 as))\<rparr>"
  let ?a = "frame_addr (t_kstack (tcb_of (upd t ?f s1) t))"
  let ?s = "snd (sched_build_frame t entry us True (upd t ?f s1))"
  show ?thesis
  proof (rule outcome_build [OF assms(1,2) n, of r s' ?f ?s "\<lambda>x. x\<lparr>t_rsp := ?a\<rparr>"])
    show "t = 0 \<Longrightarrow> r = 0 \<and> s' = s1" using assms(3) n by (simp add: sched_spawn_user_def)
    assume "t \<noteq> 0"
    then show "outer (upd t ?f s1) ?s \<and> sched_admit t (upd t (\<lambda>x. x\<lparr>t_rsp := ?a\<rparr>) ?s) = (r, s')"
      using assms(3) n unfolding sched_spawn_user_def by (simp add: Let_def outer_def sched_build_frame_def)
  qed simp_all
qed

lemma fork_outcome:
  assumes "base_inv s" and "fresh s p k" and "sched_fork_thread parent as p k s = (r, s')"
  shows "r = 0 \<and> s' = s \<or> as \<noteq> 0 \<and> (\<exists>c. outcome s p k as c c r s')"
proof (cases "parent = 0 \<or> as = 0 \<or> t_sframe (tcb_of s parent) = None \<or> \<not> t_sfast (tcb_of s parent)")
  case True
  then have "sched_fork_thread parent as p k s = (0, s)"
    unfolding sched_fork_thread_def by (cases "t_sframe (tcb_of s parent)") auto
  then show ?thesis using assms(3) by simp
next
  case False
  then obtain pf where pf: "t_sframe (tcb_of s parent) = Some pf" by auto
  obtain t s1 where n: "sched_new (t_name (tcb_of s parent)) (t_prio (tcb_of s parent)) p k s = (t, s1)" by fastforce
  let ?f = "\<lambda>x. x\<lparr>t_user := True, t_as := as, t_cr3 := pml4_phys (the (spaces s1 as))\<rparr>"
  let ?a = "frame_addr (t_kstack (tcb_of (upd t ?f s1) t))"
  let ?s = "(upd t ?f s1)\<lparr>frames := (frames s1)(?a \<mapsto> child_frame pf (user_rsp pf))\<rparr>"
  have "\<exists>c. outcome s p k as c c r s'"
  proof (rule outcome_build [OF assms(1,2) n, of r s' ?f ?s "\<lambda>x. x\<lparr>t_fx := t_fx (tcb_of ?s parent), t_rsp := ?a\<rparr>"])
    show "t = 0 \<Longrightarrow> r = 0 \<and> s' = s1" using assms(3) n False pf by (simp add: sched_fork_thread_def)
    assume "t \<noteq> 0"
    then show "outer (upd t ?f s1) ?s \<and> sched_admit t (upd t (\<lambda>x. x\<lparr>t_fx := t_fx (tcb_of ?s parent), t_rsp := ?a\<rparr>) ?s) = (r, s')"
      using assms(3) n False pf unfolding sched_fork_thread_def by (simp add: Let_def outer_def)
  qed simp_all
  then show ?thesis using False by blast
qed

text \<open>Moving a thread under construction from the queue it was put on to processor zero's.\<close>

lemma prepared_move:
  assumes "base_inv s" and "prepared s p k as c c s1"
  shows "prepared s p k as 0 0 (if t_cpu (tcb_of s1 p) \<noteq> 0
    then sched_rq_join p (upd p (\<lambda>x. x\<lparr>t_cpu := 0\<rparr>) (sched_rq_leave p s1)) else s1)"
proof -
  obtain x where x: "tcbs s1 p = Some x" "t_state x = T_READY" "t_kstack x = k" "t_as x = as" "unat (t_cpu x) = c"
    and c: "c < SCHED_MAX_CPUS" and rq1: "rq s1 = (rq s)[c := rq s ! c + 1]"
    using assms(2) unfolding prepared_def by blast
  have t: "tcb_of s1 p = x" using x by (simp add: tcb_of_def)
  have len: "length (rq s) = SCHED_MAX_CPUS" "0 \<le> rq s ! c" using assms(1) c by (simp_all add: base_inv_def)
  show ?thesis
  proof (cases "t_cpu x = 0")
    case True
    then have "c = 0" using x(5) by simp
    then show ?thesis using assms(2) True t by simp
  next
    case False
    then have c0: "c \<noteq> 0" using x(5) by (metis unat_eq_zero)
    have "sched_rq_leave p s1 = s1\<lparr>rq := rq s\<rparr>"
      using x c len rq1 cpu_bound [of "t_cpu x"] by (simp add: sched_rq_leave_def t Let_def)
    then have "sched_rq_join p (upd p (\<lambda>x. x\<lparr>t_cpu := 0\<rparr>) (sched_rq_leave p s1)) =
      (upd p (\<lambda>x. x\<lparr>t_cpu := 0\<rparr>) (s1\<lparr>rq := rq s\<rparr>))\<lparr>rq := (rq s)[0 := rq s ! 0 + 1]\<rparr>"
      by (subst rq_join_prepared) (simp_all add: tcb_of_upd SCHED_MAX_CPUS_def)
    then show ?thesis
      using assms(2) False t x unfolding prepared_def
      by (simp add: tcbs_upd) (simp add: tcb_of_def SCHED_MAX_CPUS_def)
  qed
qed

definition with_ref :: "u64 \<Rightarrow> u64 \<Rightarrow> sched \<Rightarrow> sched" where
  "with_ref r as s = (if r = 0 then s else add_ref as s)"

lemma spawn_thread_outcome:
  assumes "base_inv s" and "fresh s p k" and "as \<noteq> 0" and "sched_spawn_thread as entry us arg fb name p k s = (r, s')"
  shows "\<exists>c s2. outcome s p k as c c r s2 \<and> s' = with_ref r as s2"
proof -
  obtain t s1 where n: "sched_new name PRIO_NORMAL p k s = (t, s1)" by fastforce
  let ?f = "\<lambda>x. x\<lparr>t_user := True, t_as := as, t_cr3 := pml4_phys (the (spaces s1 as)), t_fsbase := fb\<rparr>"
  define s3 where "s3 = (if t_cpu (tcb_of (upd t ?f s1) t) \<noteq> 0
    then sched_rq_join t (upd t (\<lambda>x. x\<lparr>t_cpu := 0\<rparr>) (sched_rq_leave t (upd t ?f s1))) else upd t ?f s1)"
  define s4 where "s4 = upd_frame (frame_addr (t_kstack (tcb_of s3 t))) (\<lambda>f. f\<lparr>rdi := arg\<rparr>) (snd (sched_build_frame t entry us True s3))"
  let ?g = "\<lambda>x. x\<lparr>t_rsp := frame_addr (t_kstack (tcb_of s3 t))\<rparr>"
  obtain r2 s5 where ad: "sched_admit t (upd t ?g s4) = (r2, s5)" by fastforce
  have go: "t \<noteq> 0 \<Longrightarrow> r = r2 \<and> s' = with_ref r as s5"
    using assms(3,4) n ad unfolding sched_spawn_thread_def s3_def [symmetric] s4_def with_ref_def
    by (simp add: Let_def s3_def [symmetric] sched_build_frame_def split: if_splits)
  define s2 where "s2 = (if t = 0 then s1 else s5)"
  have null: "t = 0 \<Longrightarrow> r = 0 \<and> s' = s1" using assms(3,4) n by (simp add: sched_spawn_thread_def)
  have "outcome s p k as 0 0 r s2"
  proof (rule outcome_new [OF assms(1,2) n, where c = "\<lambda>h. 0" and d = "\<lambda>h. 0"])
    show "t = 0 \<Longrightarrow> r = 0 \<and> s2 = s1" using null by (simp add: s2_def)
    fix h assume t: "t = p" "p \<noteq> 0" and pr: "prepared s p k 0 h h s1"
    have h: "h < SCHED_MAX_CPUS" using pr by (simp add: prepared_def)
    have "prepared s p k as h h (upd p ?f s1)" by (rule prepared_upd [OF pr _ h]) simp
    from prepared_move [OF assms(1) this] have "prepared s p k as 0 0 s3" unfolding s3_def t(1) .
    then have "prepared s p k as 0 0 s4"
      by (rule prepared_outer) (simp add: s4_def outer_def upd_frame_def sched_build_frame_def Let_def)
    then have "prepared s p k as 0 0 (upd p ?g s4)" by (rule prepared_upd) (simp_all add: SCHED_MAX_CPUS_def)
    then have "outcome s p k as 0 0 r2 s5" using outcome_admit [OF assms(1,2) t(2)] ad t(1) by simp
    then show "outcome s p k as 0 0 r s2" using go t by (simp add: s2_def)
  qed
  moreover have "s' = with_ref r as s2" using null go by (cases "t = 0") (simp_all add: s2_def with_ref_def)
  ultimately show ?thesis by blast
qed

lemma clone_outcome:
  assumes "base_inv s" and "fresh s p k" and "parent \<in> live s" and "sched_clone_thread parent us fb p k s = (r, s')"
  shows "r = 0 \<and> s' = s \<or> t_as (tcb_of s parent) \<noteq> 0 \<and>
    (\<exists>s2. outcome s p k (t_as (tcb_of s parent)) (unat (t_cpu (tcb_of s parent)))
        (unat (sched_pick_home (t_prio (tcb_of s parent)) s)) r s2 \<and> s' = with_ref r (t_as (tcb_of s parent)) s2)"
proof (cases "parent = 0 \<or> t_as (tcb_of s parent) = 0 \<or> t_sframe (tcb_of s parent) = None \<or> \<not> t_sfast (tcb_of s parent)")
  case True
  then have "sched_clone_thread parent us fb p k s = (0, s)"
    unfolding sched_clone_thread_def by (cases "t_sframe (tcb_of s parent)") auto
  then show ?thesis using assms(4) by simp
next
  case False
  then obtain pf where pf: "t_sframe (tcb_of s parent) = Some pf" by auto
  let ?as = "t_as (tcb_of s parent)" and ?c = "unat (t_cpu (tcb_of s parent))"
  obtain t s1 where n: "sched_new (t_name (tcb_of s parent)) (t_prio (tcb_of s parent)) p k s = (t, s1)" by fastforce
  define f :: "tcb \<Rightarrow> tcb" where "f = (\<lambda>x. x\<lparr>t_user := True, t_as := ?as, t_cr3 := pml4_phys (the (spaces s1 ?as)),
    t_fsbase := fb, t_cpu := t_cpu (tcb_of s1 parent)\<rparr>)"
  define sf where "sf = upd t f s1"
  define sa where "sa = sf\<lparr>frames := (frames sf)(frame_addr (t_kstack (tcb_of sf t)) \<mapsto> child_frame pf us)\<rparr>"
  define g :: "tcb \<Rightarrow> tcb" where "g = (\<lambda>x. x\<lparr>t_fx := t_fx (tcb_of sa parent), t_rsp := frame_addr (t_kstack (tcb_of sf t))\<rparr>)"
  obtain r2 s5 where ad: "sched_admit t (upd t g sa) = (r2, s5)" by fastforce
  have go: "r = r2 \<and> s' = with_ref r ?as s5" if "t \<noteq> 0"
  proof -
    have "sched_clone_thread parent us fb p k s = (r2, if r2 = 0 then s5 else add_ref ?as s5)"
      using n False pf ad that unfolding sched_clone_thread_def Let_def f_def sf_def sa_def g_def by simp
    then show ?thesis using assms(4) by (simp add: with_ref_def)
  qed
  define s2 where "s2 = (if t = 0 then s1 else s5)"
  have null: "t = 0 \<Longrightarrow> r = 0 \<and> s' = s1" using assms(4) n False pf by (simp add: sched_clone_thread_def)
  have "outcome s p k ?as ?c (unat (sched_pick_home (t_prio (tcb_of s parent)) s)) r s2"
  proof (rule outcome_new [OF assms(1,2) n, where c = "\<lambda>h. ?c" and d = "\<lambda>h. h"])
    show "t = 0 \<Longrightarrow> r = 0 \<and> s2 = s1" using null by (simp add: s2_def)
    fix h assume t: "t = p" "p \<noteq> 0" and pr: "prepared s p k 0 h h s1"
    have c: "?c < SCHED_MAX_CPUS" using assms(1,3) by (simp add: base_inv_def)
    have "parent \<noteq> p" using assms(1,2,3) live_known [of s p] by (auto simp: fresh_def base_inv_def)
    then have "t_cpu (tcb_of s1 parent) = t_cpu (tcb_of s parent)" using pr by (simp add: prepared_def tcb_of_def)
    then have "prepared s p k ?as ?c h sf" unfolding sf_def t(1) f_def by (intro prepared_upd [OF pr _ c]) simp
    then have "prepared s p k ?as ?c h sa" by (rule prepared_outer) (simp add: outer_def sa_def)
    then have "prepared s p k ?as ?c h (upd p g sa)" by (rule prepared_upd [OF _ _ c]) (simp add: g_def)
    then have "outcome s p k ?as ?c h r2 s5" using outcome_admit [OF assms(1,2) t(2)] ad t(1) by simp
    then show "outcome s p k ?as ?c h r s2" using go t by (simp add: s2_def)
  qed
  moreover have "s' = with_ref r ?as s2" using null go by (cases "t = 0") (simp_all add: s2_def with_ref_def)
  ultimately show ?thesis using False by blast
qed

section \<open>Spawning keeps the invariant\<close>

lemma space_inv_same:
  assumes "space_inv s" and "spaces s' = spaces s" and "\<And>a. a \<noteq> 0 \<Longrightarrow> users s' a = users s a"
  shows "space_inv s'"
  using assms by (simp add: space_inv_def)

text \<open>A space made for a new process: counted once, nobody in it yet.\<close>

definition unused_space :: "sched \<Rightarrow> u64 \<Rightarrow> bool" where
  "unused_space s as \<longleftrightarrow> as \<noteq> 0 \<and> users s as = {} \<and> (\<exists>a. spaces s as = Some a \<and> refs a = 1)"

lemma outcome_inv:
  assumes "sched_inv s" and "fresh s p k" and "outcome s p k as c h r s'"
    and "as = 0 \<or> unused_space s as"
  shows "sched_inv s'" and "c = h \<Longrightarrow> rq_inv s \<Longrightarrow> rq_inv s'"
proof -
  consider (gone) "gave_back s c h s'" | (new) "p \<noteq> 0" "placed s p k as c h s'"
    using assms(3) by (auto simp: outcome_def)
  then have "sched_inv s' \<and> (c = h \<longrightarrow> rq_inv s \<longrightarrow> rq_inv s')"
  proof cases
    case gone
    then show ?thesis using gave_back_inv [OF assms(1)] by blast
  next
    case new
    have f: "p \<notin> dom (tcbs s)" "k \<notin> set (kstacks s)" using assms(2) by (simp_all add: fresh_def)
    note v = placed_view [OF assms(1) new(1) f(1) new(2)] and u = placed_sets [OF assms(1) new(1) f(1) new(2)]
    have "space_inv s'"
      unfolding space_inv_def
    proof (intro allI impI)
      fix a assume a: "a \<noteq> 0" "users s' a \<noteq> {}"
      show "\<exists>x. spaces s' a = Some x \<and> unat (refs x) = card (users s' a)"
      proof (cases "a = as")
        case True
        then have "unused_space s as" using assms(4) a(1) by blast
        then show ?thesis using True u(1) v(6) by (auto simp: unused_space_def)
      next
        case False
        then show ?thesis using a u(1) v(6) assms(1) by (simp add: sched_inv_def space_inv_def)
      qed
    qed
    then show ?thesis
      using placed_base [OF assms(1) new(1) f(1) new(2)] placed_stack [OF assms(1) new(1) f(1) new(2) f(2)]
        placed_rq [OF assms(1) new(1) f(1) new(2)] by (simp add: sched_inv_def)
  qed
  then show "sched_inv s'" and "c = h \<Longrightarrow> rq_inv s \<Longrightarrow> rq_inv s'" by blast+
qed

lemma add_ref_sel [simp]:
  "threads (add_ref as s) = threads s" "cur_thread (add_ref as s) = cur_thread s" "tcbs (add_ref as s) = tcbs s"
  "rq (add_ref as s) = rq s" "cpus (add_ref as s) = cpus s" "kstacks (add_ref as s) = kstacks s"
  "dispatchers (add_ref as s) = dispatchers s"
  "live (add_ref as s) = live s" "tcb_of (add_ref as s) t = tcb_of s t"
  "users (add_ref as s) a = users s a" "homed (add_ref as s) d = homed s d"
  by (simp_all add: add_ref_def live_def tcb_of_def users_def homed_def)

lemma outcome_ref_inv:
  assumes "sched_inv s" and "fresh s p k" and "outcome s p k as c h r s2"
    and "as \<noteq> 0" and "users s as \<noteq> {}" and "s' = with_ref r as s2"
  shows "sched_inv s'" and "rq_inv s \<Longrightarrow> (rq_inv s' \<longleftrightarrow> c = h \<or> r = 0 \<and> rq_inv s2)"
proof -
  consider (gone) "r = 0" "gave_back s c h s2" | (new) "r = p" "p \<noteq> 0" "placed s p k as c h s2"
    using assms(3) by (auto simp: outcome_def)
  then have "sched_inv s' \<and> (rq_inv s \<longrightarrow> (rq_inv s' \<longleftrightarrow> c = h \<or> r = 0 \<and> rq_inv s2))"
  proof cases
    case gone
    then have "s' = s2" using assms(6) by (simp add: with_ref_def)
    then show ?thesis using gone gave_back_inv [OF assms(1) gone(2)] by blast
  next
    case new
    have f: "p \<notin> dom (tcbs s)" "k \<notin> set (kstacks s)" using assms(2) by (simp_all add: fresh_def)
    note v = placed_view [OF assms(1) new(2) f(1) new(3)] and u = placed_sets [OF assms(1) new(2) f(1) new(3)]
    have s': "s' = add_ref as s2" using assms(6) new by (simp add: with_ref_def)
    obtain a where a: "spaces s as = Some a" "unat (refs a) = card (users s as)"
      using assms(1,4,5) unfolding sched_inv_def space_inv_def by blast
    have "table_ok s" using assms(1) by (simp add: sched_inv_def base_inv_def)
    then have "card (users s as) \<le> 64" using card_live card_mono [of "live s" "users s as"]
      by (fastforce simp: users_def)
    then have ref: "unat (refs a + 1) = card (users s2 as)" using a(2) u(1,2) [of as] by (simp add: unat_word_ariths)
    have "space_inv s'"
      unfolding space_inv_def
    proof (intro allI impI)
      fix b assume b: "b \<noteq> 0" "users s' b \<noteq> {}"
      show "\<exists>x. spaces s' b = Some x \<and> unat (refs x) = card (users s' b)"
      proof (cases "b = as")
        case True
        then show ?thesis using ref a v(6) by (simp add: s') (simp add: add_ref_def)
      next
        case False
        then have "spaces s' b = spaces s b" "users s' b = users s b"
          using u(1) v(6) by (simp_all add: s') (simp add: add_ref_def)
        then show ?thesis using b assms(1) by (simp add: sched_inv_def space_inv_def)
      qed
    qed
    moreover have "base_inv s'" using placed_base [OF assms(1) new(2) f(1) new(3)]
      by (simp add: s' base_inv_def table_ok_def)
    moreover have "stack_inv s'" using placed_stack [OF assms(1) new(2) f(1) new(3) f(2)] by (simp add: s' stack_inv_def)
    moreover have "rq_inv s' = rq_inv s2" by (simp add: s' rq_inv_def)
    ultimately show ?thesis using placed_rq [OF assms(1) new(2) f(1) new(3)] new by (auto simp: sched_inv_def)
  qed
  then show "sched_inv s'" and "rq_inv s \<Longrightarrow> (rq_inv s' \<longleftrightarrow> c = h \<or> r = 0 \<and> rq_inv s2)" by blast+
qed

section \<open>Reaping\<close>

lemma live_remove:
  assumes "table_ok s" and "i < SCHED_MAX_THREADS" and "threads s' = (threads s)[i := 0]"
  shows "live s' = live s - {threads s ! i}"
proof -
  have len: "length (threads s) = SCHED_MAX_THREADS" using assms(1) by (simp add: table_ok_def)
  have "t \<in> set ((threads s)[i := 0]) - {0} \<longleftrightarrow> t \<in> set (threads s) - {0} - {threads s ! i}" for t
  proof
    assume "t \<in> set ((threads s)[i := 0]) - {0}"
    then obtain j where j: "j < SCHED_MAX_THREADS" "(threads s)[i := 0] ! j = t" "t \<noteq> 0"
      using len by (auto simp: in_set_conv_nth)
    then have "j \<noteq> i" "threads s ! j = t" using len assms(2) by (auto simp: nth_list_update)
    then have "threads s ! i \<noteq> t" using assms(1,2) j(1,3) unfolding table_ok_def by metis
    then show "t \<in> set (threads s) - {0} - {threads s ! i}" using \<open>threads s ! j = t\<close> j len nth_mem by auto
  next
    assume t: "t \<in> set (threads s) - {0} - {threads s ! i}"
    then obtain j where j: "j < length (threads s)" "threads s ! j = t" by (auto simp: in_set_conv_nth)
    then have "j \<noteq> i" using t by auto
    then have "(threads s)[i := 0] ! j = t" using j by simp
    then show "t \<in> set ((threads s)[i := 0]) - {0}" using t j(1) by (metis Diff_iff length_list_update nth_mem)
  qed
  then show ?thesis using assms(3) by (auto simp: live_def)
qed

lemma homed_remove:
  assumes "rq_inv s" and "t \<in> live s" and "c = unat (t_cpu (tcb_of s t))" and "c < SCHED_MAX_CPUS"
  shows "0 < rq s ! c" and "int (card (homed s c - {t})) = rq s ! c - 1"
proof -
  have t: "t \<in> homed s c" using assms by (simp add: homed_def)
  then have "0 < card (homed s c)" by (simp add: card_gt_0_iff) blast
  then show "0 < rq s ! c" and "int (card (homed s c - {t})) = rq s ! c - 1"
    using assms(1,4) t by (simp_all add: rq_inv_def)
qed

text \<open>What \<open>sched_reap\<close> leaves of the state when it takes one thread out.\<close>

definition reaped :: "sched \<Rightarrow> nat \<Rightarrow> u64 \<Rightarrow> sched \<Rightarrow> bool" where
  "reaped s i t s' \<longleftrightarrow> threads s' = (threads s)[i := 0] \<and> cur_thread s' = cur_thread s \<and> cpus s' = cpus s \<and>
     dispatchers s' = dispatchers s \<and> tcbs s' = (tcbs s)(t := None) \<and>
     kstacks s' = (if t_kstack (tcb_of s t) \<noteq> 0 then remove1 (t_kstack (tcb_of s t)) (kstacks s) else kstacks s) \<and>
     spaces s' = spaces (release_space (t_as (tcb_of s t)) s) \<and>
     rq s' = (let c = unat (t_cpu (tcb_of s t)) in if 0 < rq s ! c then (rq s)[c := rq s ! c - 1] else rq s)"

lemma release_space_sel [simp]:
  "threads (release_space a s) = threads s" "cur_thread (release_space a s) = cur_thread s" "cpus (release_space a s) = cpus s"
  "dispatchers (release_space a s) = dispatchers s" "tcbs (release_space a s) = tcbs s" "kstacks (release_space a s) = kstacks s"
  "rq (release_space a s) = rq s" "tcb_of (release_space a s) t = tcb_of s t"
  by (simp_all add: release_space_def Let_def tcb_of_def)

lemma release_space_spaces: "spaces s1 = spaces s \<Longrightarrow> spaces (release_space a s1) = spaces (release_space a s)"
  by (simp add: release_space_def Let_def)

lemma reap_one_cases:
  assumes "base_inv s" and "i < SCHED_MAX_THREADS"
  shows "reap_one (\<lambda>_. id) i s = s \<or> threads s ! i \<in> live s \<and> threads s ! i \<noteq> cur_thread s \<and>
    t_state (tcb_of s (threads s ! i)) = T_ZOMBIE \<and> reaped s i (threads s ! i) (reap_one (\<lambda>_. id) i s)"
proof (cases "threads s ! i = 0 \<or> t_state (tcb_of s (threads s ! i)) \<noteq> T_ZOMBIE \<or> threads s ! i = cur_thread s")
  case True
  then show ?thesis by (simp add: reap_one_def Let_def)
next
  case False
  let ?t = "threads s ! i"
  have l: "?t \<in> live s" using False assms nth_mem [of i "threads s"] by (auto simp: live_def base_inv_def table_ok_def)
  then have c: "unat (t_cpu (tcb_of s ?t)) < SCHED_MAX_CPUS" using assms(1) by (simp add: base_inv_def)
  define s1 where "s1 = s\<lparr>threads := (threads s)[i := 0]\<rparr>"
  have t1: "tcb_of s1 u = tcb_of s u" for u by (simp add: s1_def tcb_of_def)
  define s2 where "s2 = sched_rq_leave ?t s1"
  have s2: "s2 = (let c = unat (t_cpu (tcb_of s ?t)) in if 0 < rq s1 ! c then s1\<lparr>rq := (rq s1)[c := rq s1 ! c - 1]\<rparr> else s1)"
    using c unfolding s2_def sched_rq_leave_def t1 cpu_bound by (simp add: Let_def)
  have t2: "tcb_of s2 u = tcb_of s u" "spaces s2 = spaces s" "kstacks s2 = kstacks s" "tcbs s2 = tcbs s"
    "cur_thread s2 = cur_thread s" "cpus s2 = cpus s" "dispatchers s2 = dispatchers s" "threads s2 = (threads s)[i := 0]"
    "rq s2 = (let c = unat (t_cpu (tcb_of s ?t)) in if 0 < rq s ! c then (rq s)[c := rq s ! c - 1] else rq s)" for u
    unfolding s2 by (simp_all add: s1_def tcb_of_def Let_def)
  define s3 where "s3 = release_space (t_as (tcb_of s ?t)) s2"
  have "reap_one (\<lambda>_. id) i s = kfree_tcb ?t (if t_kstack (tcb_of s ?t) \<noteq> 0 then kstack_free (t_kstack (tcb_of s ?t)) s3 else s3)"
    using False by (simp add: reap_one_def Let_def s1_def [symmetric] s2_def [symmetric] t2(1) s3_def)
  then have "reaped s i ?t (reap_one (\<lambda>_. id) i s)"
    using release_space_spaces [OF t2(2)] t2
    by (simp add: reaped_def kfree_tcb_def kstack_free_def s3_def)
  then show ?thesis using l False by blast
qed

lemma reaped_view:
  assumes "sched_inv s" and "i < SCHED_MAX_THREADS" and "t = threads s ! i" and "t \<in> live s" and "reaped s i t s'"
  shows "live s' = live s - {t}" and "u \<in> live s' \<Longrightarrow> tcb_of s' u = tcb_of s u"
    and "users s' a = users s a - {t}" and "homed s' c = homed s c - {t}"
proof -
  have tok: "table_ok s" using assms(1) by (simp add: sched_inv_def base_inv_def)
  show l: "live s' = live s - {t}" unfolding assms(3) by (rule live_remove [OF tok assms(2)]) (use assms(5) in \<open>simp add: reaped_def\<close>)
  show e: "u \<in> live s' \<Longrightarrow> tcb_of s' u = tcb_of s u" for u
    using assms(5) l by (simp add: reaped_def tcb_of_def)
  have eq: "{u \<in> live s'. P (tcb_of s' u)} = {u \<in> live s'. P (tcb_of s u)}" for P
    by (rule Collect_cong) (metis e)
  show "users s' a = users s a - {t}" unfolding users_def eq [of "\<lambda>x. t_as x = a"] using l by blast
  show "homed s' c = homed s c - {t}" unfolding homed_def eq [of "\<lambda>x. unat (t_cpu x) = c"] using l by blast
qed

lemma reaped_base:
  assumes "sched_inv s" and "i < SCHED_MAX_THREADS" and "t = threads s ! i" and "t \<in> live s" and "reaped s i t s'"
    and "t \<noteq> cur_thread s"
  shows "base_inv s'"
proof -
  note v = reaped_view [OF assms(1-5)]
  have b: "base_inv s" using assms(1) by (simp add: sched_inv_def)
  have e: "threads s' = (threads s)[i := 0]" "cur_thread s' = cur_thread s" "cpus s' = cpus s" "tcbs s' = (tcbs s)(t := None)"
    "rq s' = (let c = unat (t_cpu (tcb_of s t)) in if 0 < rq s ! c then (rq s)[c := rq s ! c - 1] else rq s)"
    using assms(5) by (simp_all add: reaped_def)
  have "\<forall>u \<in> live s'. tcbs s' u \<noteq> None" using b v(1) e(4) by (simp add: base_inv_def table_ok_def)
  moreover have "m = n" if "m < SCHED_MAX_THREADS" "n < SCHED_MAX_THREADS" "threads s' ! m = threads s' ! n" "threads s' ! m \<noteq> 0" for m n
  proof -
    have "m \<noteq> i" "n \<noteq> i" using that e(1) b assms(2) by (auto simp: base_inv_def table_ok_def)
    then show ?thesis using that e(1) b unfolding base_inv_def table_ok_def by (metis nth_list_update_neq)
  qed
  moreover have "cur_thread s' \<noteq> 0 \<longrightarrow> cur_thread s' \<in> live s'"
    using b e(2) v(1) assms(6) by (simp add: base_inv_def table_ok_def)
  ultimately have "table_ok s'" using b e(1) unfolding base_inv_def table_ok_def by simp
  moreover have "length (rq s') = SCHED_MAX_CPUS" "\<forall>c < SCHED_MAX_CPUS. 0 \<le> rq s' ! c"
    using b assms(4) by (auto simp: e(5) Let_def base_inv_def nth_list_update)
  moreover have "\<forall>u \<in> live s'. t_state (tcb_of s' u) = T_RUNNING \<longrightarrow> u = cur_thread s'"
    "\<forall>u \<in> live s'. unat (t_cpu (tcb_of s' u)) < SCHED_MAX_CPUS"
    using b v(1,2) e(2) by (simp_all add: base_inv_def)
  ultimately show ?thesis using b e(3) by (simp add: base_inv_def)
qed

lemma reaped_stack:
  assumes "sched_inv s" and "i < SCHED_MAX_THREADS" and "t = threads s ! i" and "t \<in> live s" and "reaped s i t s'"
  shows "stack_inv s'"
proof -
  note v = reaped_view [OF assms(1-5)]
  have st: "stack_inv s" using assms(1) by (simp add: sched_inv_def)
  let ?k = "t_kstack (tcb_of s t)"
  have ks: "kstacks s' = (if ?k \<noteq> 0 then remove1 ?k (kstacks s) else kstacks s)" using assms(5) by (simp add: reaped_def)
  have "t_kstack (tcb_of s u) \<in> set (kstacks s')" if "u \<in> live s'" "t_kstack (tcb_of s u) \<noteq> 0" for u
  proof -
    have "t_kstack (tcb_of s u) \<in> set (kstacks s)" using that v(1) st by (simp add: stack_inv_def)
    moreover have "?k \<noteq> 0 \<Longrightarrow> t_kstack (tcb_of s u) \<noteq> ?k" using that v(1) st assms(4) unfolding stack_inv_def by auto
    ultimately show ?thesis using ks by simp
  qed
  then show ?thesis using st ks v(1,2) by (simp add: stack_inv_def)
qed

lemma reaped_space:
  assumes "sched_inv s" and "i < SCHED_MAX_THREADS" and "t = threads s ! i" and "t \<in> live s" and "reaped s i t s'"
  shows "space_inv s'"
  unfolding space_inv_def
proof (intro allI impI)
  note v = reaped_view [OF assms(1-5)]
  let ?as = "t_as (tcb_of s t)"
  have sp: "spaces s' = spaces (release_space ?as s)" using assms(5) by (simp add: reaped_def)
  fix a assume a: "a \<noteq> 0" "users s' a \<noteq> {}"
  then have "users s a \<noteq> {}" using v(3) by blast
  then obtain x where x: "spaces s a = Some x" "unat (refs x) = card (users s a)"
    using a(1) assms(1) unfolding sched_inv_def space_inv_def by blast
  show "\<exists>x. spaces s' a = Some x \<and> unat (refs x) = card (users s' a)"
  proof (cases "a = ?as")
    case False
    then have "t \<notin> users s a" by (simp add: users_def)
    then show ?thesis using False x v(3) sp by (simp add: release_space_def Let_def)
  next
    case True
    then have t: "t \<in> users s a" using assms(4) by (simp add: users_def)
    have c: "card (users s' a) = card (users s a) - 1" using v(3) t by simp
    have "0 < card (users s' a)" using a(2) by (simp add: card_gt_0_iff)
    then have "1 < unat (refs x)" using c x(2) by simp
    then have "1 < refs x" "unat (refs x - 1) = unat (refs x) - 1" by (simp_all add: word_less_nat_alt unat_sub_if_size word_size)
    then show ?thesis using True a(1) x c sp by (simp add: release_space_def Let_def)
  qed
qed

lemma reap_one_inv:
  assumes "sched_inv s" and "i < SCHED_MAX_THREADS" and "s' = reap_one (\<lambda>_. id) i s"
  shows "sched_inv s' \<and> (rq_inv s \<longrightarrow> rq_inv s') \<and> dispatchers s' = dispatchers s"
proof -
  have b: "base_inv s" using assms(1) by (simp add: sched_inv_def)
  let ?t = "threads s ! i"
  consider "s' = s" | "?t \<in> live s" "?t \<noteq> cur_thread s" "reaped s i ?t s'"
    using reap_one_cases [OF b assms(2)] assms(3) by auto
  then show ?thesis
  proof cases
    case 2
    note r = assms(1,2) refl 2(1,3)
    have c: "unat (t_cpu (tcb_of s ?t)) < SCHED_MAX_CPUS" using b 2(1) by (simp add: base_inv_def)
    have len: "length (rq s) = SCHED_MAX_CPUS" using b by (simp add: base_inv_def)
    have "rq_inv s'" if q: "rq_inv s"
    proof -
      note h = homed_remove [OF q 2(1) refl c]
      have rq': "rq s' = (rq s)[unat (t_cpu (tcb_of s ?t)) := rq s ! unat (t_cpu (tcb_of s ?t)) - 1]"
        using 2(3) h(1) by (simp add: reaped_def Let_def)
      show ?thesis unfolding rq_inv_def
      proof (intro allI impI)
        fix d assume d: "d < SCHED_MAX_CPUS"
        show "rq s' ! d = int (card (homed s' d))"
        proof (cases "d = unat (t_cpu (tcb_of s ?t))")
          case True
          then show ?thesis using h(2) rq' len d reaped_view(4) [OF r] by simp
        next
          case False
          then have "homed s' d = homed s d" using reaped_view(4) [OF r, of d] by (auto simp: homed_def)
          then show ?thesis using False rq' q d by (simp add: rq_inv_def)
        qed
      qed
    qed
    then show ?thesis
      using reaped_base [OF r 2(2)] reaped_stack [OF r] reaped_space [OF r] 2(3) by (simp add: sched_inv_def reaped_def)
  qed (use assms(1) in simp)
qed

lemma reap_inv:
  assumes "sched_inv s"
  shows "sched_inv (sched_reap (\<lambda>_. id) s) \<and> (rq_inv s \<longrightarrow> rq_inv (sched_reap (\<lambda>_. id) s)) \<and>
    dispatchers (sched_reap (\<lambda>_. id) s) = dispatchers s"
proof -
  let ?P = "\<lambda>s'. sched_inv s' \<and> (rq_inv s \<longrightarrow> rq_inv s') \<and> dispatchers s' = dispatchers s"
  have "?P (fold (reap_one (\<lambda>_. id)) [0..<SCHED_MAX_THREADS] s)"
  proof (rule fold_preserves [where P = ?P])
    fix i s1 assume "i \<in> set [0..<SCHED_MAX_THREADS]" "?P s1"
    then show "?P (reap_one (\<lambda>_. id) i s1)" using reap_one_inv [of s1 i] by simp
  qed (use assms in simp)
  then show ?thesis by (simp add: sched_reap_def)
qed

section \<open>The machine\<close>

text \<open>
  What can happen next: a timer interrupt, a call of the running thread, an interrupt handler,
  or the creation of an address space elsewhere in the kernel.  The two allocators hand out
  addresses that are not in use, or null.  The flag says whether \<open>sched_clone_thread\<close> is called.
\<close>

inductive sched_step :: "bool \<Rightarrow> sched \<Rightarrow> sched \<Rightarrow> bool" for clones :: bool where
  tick: "sched_step clones s (snd (sched_timer_stub sp s))"
| yield: "sched_step clones s (snd (sched_yield sp s))"
| sleep: "sched_step clones s (sched_sleep_ms ms s)"
| block: "sched_block_on chan ms s = Some s' \<Longrightarrow> sched_step clones s s'"
| unblock: "cur_thread s \<noteq> 0 \<Longrightarrow> sched_step clones s (snd (sched_block_on_return s))"
| wake: "sched_step clones s (sched_wake_chan chan all s)"
| wait_frame: "sched_step clones s (sched_wait_frame s)"
| pulse: "sched_step clones s (sched_frame_pulse s)"
| exit: "sched_step clones s (sched_exit code s)"
| disable: "sched_step clones s (preempt_disable s)"
| enable: "sched_step clones s (preempt_enable s)"
| cpu_count: "sched_step clones s (sched_set_cpu_count n s)"
| fsbase: "cur_thread s \<noteq> 0 \<Longrightarrow> sched_step clones s (sched_set_fsbase va s)"
| spawn_kernel: "fresh s p k \<Longrightarrow> sched_step clones s (snd (sched_spawn_kernel fo fn name prio p k s))"
| spawn_kernel_arg: "fresh s p k \<Longrightarrow> sched_step clones s (snd (sched_spawn_kernel_arg fo fn arg name prio p k s))"
| spawn_user: "fresh s p k \<Longrightarrow> unused_space s as \<Longrightarrow>
    sched_step clones s (snd (sched_spawn_user as entry us name prio p k s))"
| spawn_thread: "fresh s p k \<Longrightarrow> users s as \<noteq> {} \<Longrightarrow>
    sched_step clones s (snd (sched_spawn_thread as entry us arg fb name p k s))"
| fork: "fresh s p k \<Longrightarrow> unused_space s as \<Longrightarrow> sched_step clones s (snd (sched_fork_thread (cur_thread s) as p k s))"
| clone: "clones \<Longrightarrow> fresh s p k \<Longrightarrow> cur_thread s \<noteq> 0 \<Longrightarrow>
    sched_step clones s (snd (sched_clone_thread (cur_thread s) us fb p k s))"
| reap: "sched_step clones s (sched_reap (\<lambda>_. id) s)"
| start: "fresh s p k \<Longrightarrow> sched_step clones s (sched_start lapic fo fn p k s)"
| new_space: "as \<noteq> 0 \<Longrightarrow> spaces s as = None \<Longrightarrow> sched_step clones s (s\<lparr>spaces := (spaces s)(as \<mapsto> \<lparr>pml4_phys = pm, refs = 1\<rparr>)\<rparr>)"

definition good :: "bool \<Rightarrow> sched \<Rightarrow> bool" where
  "good clones s \<longleftrightarrow> sched_inv s \<and> dispatchers s \<le> 1 \<and> (\<not> clones \<longrightarrow> rq_inv s)"

lemma good_shape: "good clones s \<Longrightarrow> same_shape s s' \<Longrightarrow> run_ok s' \<Longrightarrow> dispatchers s' = dispatchers s \<Longrightarrow> good clones s'"
  using same_shape_inv [of s s'] by (auto simp: good_def)

lemma good_run_ok: "good clones s \<Longrightarrow> run_ok s"
  by (simp add: good_def sched_inv_run_ok)

lemma outer_spawns:
  "outcome s p k as c h r s' \<Longrightarrow> dispatchers s' = dispatchers s"
  by (auto simp: outcome_def gave_back_def placed_def prepared_def)

lemma good_outcome:
  assumes "good clones s" and "fresh s p k" and "\<exists>c. outcome s p k as c c r s'" and "as = 0 \<or> unused_space s as"
  shows "good clones s'"
  using assms outcome_inv [of s p k as _ _ r s'] outer_spawns by (fastforce simp: good_def)

lemma good_base: "good clones s \<Longrightarrow> base_inv s"
  by (simp add: good_def sched_inv_def)

lemma good_outcome_ref:
  assumes "good clones s" and "fresh s p k" and "outcome s p k as c h r s2" and "as \<noteq> 0" and "users s as \<noteq> {}"
    and "s' = with_ref r as s2" and "c = h \<or> clones"
  shows "good clones s'"
proof -
  have i: "sched_inv s" using assms(1) by (simp add: good_def)
  have "dispatchers s' = dispatchers s" using outer_spawns [OF assms(3)] assms(6) by (simp add: with_ref_def)
  then show ?thesis using outcome_ref_inv [OF i assms(2-6)] assms(1,7) by (auto simp: good_def)
qed

lemma users_current: "good clones s \<Longrightarrow> cur_thread s \<noteq> 0 \<Longrightarrow> cur_thread s \<in> live s"
  by (simp add: good_def sched_inv_def base_inv_def table_ok_def)

lemma good_spawn_thread:
  assumes "good clones s" and "fresh s p k" and "users s as \<noteq> {}"
  shows "good clones (snd (sched_spawn_thread as entry us arg fb name p k s))"
proof (cases "as = 0")
  case True
  then show ?thesis using assms(1) by (simp add: sched_spawn_thread_def)
next
  case False
  obtain r s' where e: "sched_spawn_thread as entry us arg fb name p k s = (r, s')" by fastforce
  obtain c s2 where o: "outcome s p k as c c r s2" "s' = with_ref r as s2"
    using spawn_thread_outcome [OF good_base [OF assms(1)] assms(2) False e] by blast
  show ?thesis using good_outcome_ref [OF assms(1,2) o(1) False assms(3) o(2)] e by simp
qed

lemma good_clone:
  assumes "good True s" and "fresh s p k" and "cur_thread s \<noteq> 0"
  shows "good True (snd (sched_clone_thread (cur_thread s) us fb p k s))"
proof -
  let ?c = "cur_thread s"
  have l: "?c \<in> live s" by (rule users_current [OF assms(1,3)])
  obtain r s' where e: "sched_clone_thread ?c us fb p k s = (r, s')" by fastforce
  have u: "users s (t_as (tcb_of s ?c)) \<noteq> {}" using l by (auto simp: users_def)
  consider "s' = s" | c h s2 where "t_as (tcb_of s ?c) \<noteq> 0" "outcome s p k (t_as (tcb_of s ?c)) c h r s2"
      "s' = with_ref r (t_as (tcb_of s ?c)) s2"
    using clone_outcome [OF good_base [OF assms(1)] assms(2) l e] by blast
  then show ?thesis
  proof cases
    case 1
    then show ?thesis using assms(1) e by simp
  next
    case 2
    show ?thesis using good_outcome_ref [OF assms(1,2) 2(2,1) u 2(3)] e by simp
  qed
qed

lemma good_calls:
  assumes "good clones s"
  shows "good clones (sched_sleep_ms ms s)" and "sched_block_on chan tm s = Some s' \<Longrightarrow> good clones s'"
    and "cur_thread s \<noteq> 0 \<Longrightarrow> good clones (snd (sched_block_on_return s))" and "good clones (sched_wait_frame s)"
    and "good clones (sched_exit code s)" and "cur_thread s \<noteq> 0 \<Longrightarrow> good clones (sched_set_fsbase va s)"
proof -
  note r = good_run_ok [OF assms]
  have p: "good clones (park f s)" if "\<And>x. t_cpu (f x) = t_cpu x \<and> t_as (f x) = t_as x \<and> t_kstack (f x) = t_kstack x" for f
    by (rule good_shape [OF assms park_shape [OF that] park_run_ok [OF r]]) (simp add: park_def)
  show "good clones (sched_sleep_ms ms s)" unfolding sched_sleep_ms_def using assms by (simp add: p)
  show "sched_block_on chan tm s = Some s' \<Longrightarrow> good clones s'"
    unfolding sched_block_on_def using p by (auto split: if_splits)
  show "good clones (sched_wait_frame s)" unfolding sched_wait_frame_def using assms by (simp add: p)
  have u: "good clones (upd (cur_thread s) f s)"
    if "\<And>x. t_cpu (f x) = t_cpu x \<and> t_as (f x) = t_as x \<and> t_kstack (f x) = t_kstack x" for f
    by (rule good_shape [OF assms same_shape_upd [OF that] run_ok_upd [OF r]]) simp_all
  show "cur_thread s \<noteq> 0 \<Longrightarrow> good clones (snd (sched_block_on_return s))" unfolding sched_block_on_return_def by (simp add: u)
  show "good clones (sched_exit code s)" unfolding sched_exit_def using assms by (simp add: u)
  assume c: "cur_thread s \<noteq> 0"
  let ?s = "upd (cur_thread s) (\<lambda>t. t\<lparr>t_fsbase := va\<rparr>) s"
  have g: "good clones ?s" by (rule u) simp
  have "sched_set_fsbase va s = ?s\<lparr>fsbase_want := va, fsbase_live := va, msr_fs := va\<rparr>" using c by (simp add: sched_set_fsbase_def)
  then show "good clones (sched_set_fsbase va s)"
    using good_shape [OF g same_shape_outer] good_run_ok [OF g] run_ok_outer [of "sched_set_fsbase va s" ?s] by simp
qed

lemma good_outer:
  assumes "good clones s" and "threads s' = threads s" "rq s' = rq s" "1 \<le> cpus s' \<and> cpus s' \<le> int SCHED_MAX_CPUS"
    "spaces s' = spaces s" "kstacks s' = kstacks s" "tcbs s' = tcbs s" "cur_thread s' = cur_thread s" "dispatchers s' = dispatchers s"
  shows "good clones s'"
proof -
  have v: "live s' = live s" "tcb_of s' t = tcb_of s t" "users s' a = users s a" "homed s' d = homed s d" for t a d
    using assms by (simp_all add: live_def tcb_of_def users_def homed_def)
  show ?thesis using assms v
    by (simp add: good_def sched_inv_def base_inv_def table_ok_def stack_inv_def space_inv_def rq_inv_def)
qed

lemma sched_step_good: "sched_step clones s s' \<Longrightarrow> good clones s \<Longrightarrow> good clones s'"
proof (induction rule: sched_step.induct)
  case (tick s sp)
  then show ?case using stub_inv [of s sp] good_shape [OF tick] by (cases "sched_timer_stub sp s") (simp add: good_def)
next
  case (yield s sp)
  let ?s = "s\<lparr>soft_yield := True\<rparr>"
  have g: "good clones ?s" by (rule good_outer [OF yield]) (use good_base [OF yield] in \<open>simp_all add: base_inv_def\<close>)
  then show ?case using stub_inv [of ?s sp] good_shape [OF g]
    by (cases "sched_timer_stub sp ?s") (simp add: good_def sched_yield_def)
next
  case (wake s chan all)
  then show ?case using wake_loop_ok [OF good_run_ok [OF wake]] good_shape [OF wake] by (simp add: sched_wake_chan_def)
next
  case (pulse s)
  then show ?case using pulse_loop_ok [OF good_run_ok [OF pulse]] good_shape [OF pulse] by (simp add: sched_frame_pulse_def)
next
  case (disable s)
  show ?case by (rule good_outer [OF disable]) (use good_base [OF disable] in \<open>simp_all add: base_inv_def preempt_disable_def\<close>)
next
  case (enable s)
  show ?case by (rule good_outer [OF enable]) (use good_base [OF enable] in \<open>simp_all add: base_inv_def preempt_enable_def\<close>)
next
  case (cpu_count s n)
  show ?case by (rule good_outer [OF cpu_count]) (simp_all add: sched_set_cpu_count_def Let_def SCHED_MAX_CPUS_def)
next
  case (spawn_kernel s p k fo fn name prio)
  then show ?case using good_outcome [OF spawn_kernel(2,1) spawn_kernel_outcome [OF good_base [OF spawn_kernel(2)] spawn_kernel(1) prod.collapse [symmetric]]] by simp
next
  case (start s p k lapic fo fn)
  let ?r = "sched_spawn_kernel fo fn (bytes ''idle'') PRIO_IDLE p k s"
  have g: "good clones (snd ?r)"
    using good_outcome [OF start(2,1) spawn_kernel_outcome [OF good_base [OF start(2)] start(1) prod.collapse [symmetric]]] by simp
  show ?case
  proof (cases lapic)
    case True
    show ?thesis
      by (rule good_outer [OF g]) (use good_base [OF g] True in \<open>simp_all add: sched_start_def Let_def case_prod_beta base_inv_def\<close>)
  qed (simp add: sched_start_def start(2))
next
  case (spawn_kernel_arg s p k fo fn arg name prio)
  then show ?case using good_outcome [OF spawn_kernel_arg(2,1) spawn_kernel_arg_outcome [OF good_base [OF spawn_kernel_arg(2)] spawn_kernel_arg(1) prod.collapse [symmetric]]] by simp
next
  case (spawn_user s p k as entry us name prio)
  then show ?case using good_outcome [OF spawn_user(3,1) spawn_user_outcome [OF good_base [OF spawn_user(3)] spawn_user(1) prod.collapse [symmetric]]] by simp
next
  case (fork s p k as)
  then show ?case
    using fork_outcome [OF good_base [OF fork(3)] fork(1) prod.collapse [symmetric], of "cur_thread s" as] good_outcome [OF fork(3,1)] by auto
next
  case (new_space as s pm)
  let ?s = "s\<lparr>spaces := (spaces s)(as \<mapsto> \<lparr>pml4_phys = pm, refs = 1\<rparr>)\<rparr>"
  have v: "live ?s = live s" "tcb_of ?s t = tcb_of s t" "users ?s a = users s a" "homed ?s d = homed s d" for t a d
    by (simp_all add: live_def tcb_of_def users_def homed_def)
  have "users s as = {}" using new_space by (auto simp: good_def sched_inv_def space_inv_def)
  then show ?case using new_space v
    by (auto simp: good_def sched_inv_def base_inv_def table_ok_def stack_inv_def space_inv_def rq_inv_def)
next
  case (reap s)
  then show ?case using reap_inv [of s] by (simp add: good_def)
qed (simp_all add: good_calls good_spawn_thread good_clone)

section \<open>Starting up\<close>

text \<open>What the loader leaves: every static of the file zero, and one processor.\<close>

definition boot :: "sched \<Rightarrow> bool" where
  "boot s \<longleftrightarrow> rq s = replicate SCHED_MAX_CPUS 0 \<and> cpus s = 1 \<and> tcbs s = Map.empty \<and> kstacks s = [] \<and>
     cur_thread s = 0 \<and> dispatchers s = 1"

lemma replicate_tables:
  "replicate SCHED_MAX_THREADS (0 :: u64) = 0 # replicate 63 0" "replicate 16 (0 :: int) = 0 # replicate 15 0"
  by (simp_all add: SCHED_MAX_THREADS_def SCHED_MAX_CPUS_def numeral_eq_Suc)

lemma tcb_of_threads:
  "tcb_of (s\<lparr>threads := ts\<rparr>) t = tcb_of s t" "tcb_of (s\<lparr>rq := q\<rparr>) t = tcb_of s t" "tcb_of (s\<lparr>cur_thread := c\<rparr>) t = tcb_of s t"
  by (simp_all add: tcb_of_def)

lemma sched_init_sel:
  assumes "boot s" and "p \<noteq> 0"
  shows "threads (sched_init p fr s) = p # replicate 63 0" and "rq (sched_init p fr s) = 1 # replicate 15 0"
    and "cpus (sched_init p fr s) = 1" and "kstacks (sched_init p fr s) = []" and "cur_thread (sched_init p fr s) = p"
    and "dispatchers (sched_init p fr s) = 1" and "t_state (tcb_of (sched_init p fr s) p) = T_RUNNING"
    and "t_cpu (tcb_of (sched_init p fr s) p) = 0" and "t_as (tcb_of (sched_init p fr s) p) = 0"
    and "t_kstack (tcb_of (sched_init p fr s) p) = 0" and "tcbs (sched_init p fr s) p \<noteq> None"
  using assms
  by (simp_all add: sched_init_def boot_def Let_def sched_name_def sched_register_def replicate_tables
      slot_from.simps sched_rq_join_def tcb_of_upd tcbs_upd tcb_of_threads SCHED_MAX_CPUS_def)

lemma sched_init_good:
  assumes "boot s"
  shows "good clones (sched_init p fr s)"
proof (cases "p = 0")
  case True
  let ?s = "sched_init p fr s"
  have l: "live ?s = {}" using True by (auto simp: sched_init_def live_def)
  then have "users ?s a = {}" "homed ?s c = {}" for a c by (simp_all add: users_def homed_def)
  then show ?thesis using l True assms
    by (simp add: good_def sched_inv_def base_inv_def table_ok_def stack_inv_def space_inv_def rq_inv_def boot_def)
      (simp add: sched_init_def SCHED_MAX_CPUS_def)
next
  case False
  let ?s = "sched_init p fr s"
  note v = sched_init_sel [OF assms False]
  have l: "live ?s = {p}" using False by (auto simp: live_def v(1))
  have u: "users ?s a = (if a = 0 then {p} else {})" "homed ?s c = (if c = 0 then {p} else {})" for a c
    using v(8,9) by (auto simp: users_def homed_def l)
  have "threads ?s ! i = (if i = 0 then p else 0)" if "i < SCHED_MAX_THREADS" for i
    using that by (cases i) (simp_all add: v(1) SCHED_MAX_THREADS_def)
  then have "table_ok ?s" using False v(11) by (auto simp: table_ok_def l v(5)) (simp add: v(1) SCHED_MAX_THREADS_def)
  moreover have "rq ?s ! c = (if c = 0 then 1 else 0)" if "c < SCHED_MAX_CPUS" for c
    using that by (cases c) (simp_all add: v(2) SCHED_MAX_CPUS_def)
  ultimately show ?thesis using v
    by (simp add: good_def sched_inv_def base_inv_def stack_inv_def space_inv_def rq_inv_def l u SCHED_MAX_CPUS_def)
qed

text \<open>Every history the kernel can run from boot, with or without \<open>sched_clone_thread\<close>.\<close>

inductive sched_reach :: "bool \<Rightarrow> sched \<Rightarrow> bool" for clones :: bool where
  init: "boot s \<Longrightarrow> sched_reach clones (sched_init p fr s)"
| step: "sched_reach clones s \<Longrightarrow> sched_step clones s s' \<Longrightarrow> sched_reach clones s'"

lemma sched_reach_good: "sched_reach clones s \<Longrightarrow> good clones s"
  by (induction rule: sched_reach.induct) (simp_all add: sched_init_good sched_step_good)

section \<open>What holds in every reachable state\<close>

definition boot_sched :: sched where
  "boot_sched = demo_sched\<lparr>threads := replicate 64 0, cur_thread := 0, next_pid := 1, ticks := 0, running := False,
     rq := replicate 16 0, tcbs := Map.empty\<rparr>"

lemma boot_sched_boot: "boot boot_sched"
  by (simp add: boot_def boot_sched_def demo_sched_def SCHED_MAX_CPUS_def)

lemma boot_reach: "sched_reach clones (sched_init 4096 [] boot_sched)"
  by (rule sched_reach.init [OF boot_sched_boot])





text \<open>
  C20: A successful clone keeps the queue depths exact only when the balancer would have picked the
  parent's own processor: the new thread is counted where the balancer put it and then moved to
  the parent's processor without leaving one queue and joining the other.
\<close>

theorem sched_clone_queue_drift:
  assumes "sched_inv s" and "rq_inv s" and "fresh s p k" and "cur_thread s \<noteq> 0"
    and "sched_clone_thread (cur_thread s) us fb p k s = (r, s')" and "r \<noteq> 0"
  shows "rq_inv s' \<longleftrightarrow>
    sched_pick_home (t_prio (tcb_of s (cur_thread s))) s = t_cpu (tcb_of s (cur_thread s))"
proof -
  let ?c = "cur_thread s"
  have b: "base_inv s" and l: "?c \<in> live s"
    using assms(1,4) by (simp_all add: sched_inv_def base_inv_def table_ok_def)
  obtain s2 where as: "t_as (tcb_of s ?c) \<noteq> 0"
    and o: "outcome s p k (t_as (tcb_of s ?c)) (unat (t_cpu (tcb_of s ?c))) (unat (sched_pick_home (t_prio (tcb_of s ?c)) s)) r s2"
    and s': "s' = with_ref r (t_as (tcb_of s ?c)) s2"
    using clone_outcome [OF b assms(3) l assms(5)] assms(6) by blast
  have u: "users s (t_as (tcb_of s ?c)) \<noteq> {}" using l by (auto simp: users_def)
  show ?thesis using outcome_ref_inv(2) [OF assms(1,3) o as u s' assms(2)] assms(6)
    by (auto simp: word_unat_eq_iff)
qed

text \<open>One user thread on processor 0 of two, inside a system call; processor 1 is empty.\<close>

definition demo_sframe :: syscall_frame where
  "demo_sframe = \<lparr>r15 = 0, r14 = 0, r13 = 0, r12 = 0, r11 = 0x302, r10 = 0, r9 = 0, r8 = 0,
     rbp = 0, rdi = 0, rsi = 0, rdx = 0, rcx = 0x400000, rbx = 0, rax = 0, user_rsp = 0x7000\<rparr>"

definition demo_clone :: sched where
  "demo_clone = demo_sched\<lparr>threads := 4096 # replicate 63 0, rq := 1 # replicate 15 0, cpus := 2,
     tcbs := [4096 \<mapsto> (demo_tcb T_RUNNING 4 0)\<lparr>t_as := 64, t_sfast := True, t_sframe := Some demo_sframe\<rparr>],
     spaces := [64 \<mapsto> \<lparr>pml4_phys = 8192, refs = 1\<rparr>]\<rparr>"

lemma demo_clone_inv: "sched_inv demo_clone" "rq_inv demo_clone"
proof -
  have l: "live demo_clone = {4096}" by (auto simp: demo_clone_def live_def)
  have t: "tcb_of demo_clone 4096 = (demo_tcb T_RUNNING 4 0)\<lparr>t_as := 64, t_sfast := True, t_sframe := Some demo_sframe\<rparr>"
    by (simp add: demo_clone_def tcb_of_def)
  have u: "users demo_clone a = (if a = 64 then {4096} else {})" "homed demo_clone c = (if c = 0 then {4096} else {})" for a c
    by (auto simp: users_def homed_def l t demo_tcb_def zero_tcb_def)
  have n: "threads demo_clone ! i = (if i = 0 then 4096 else 0)" if "i < 64" for i
    using that by (cases i) (simp_all add: demo_clone_def)
  have q: "rq demo_clone ! c = (if c = 0 then 1 else 0)" if "c < 16" for c
    using that by (cases c) (simp_all add: demo_clone_def)
  have "table_ok demo_clone"
    using n by (auto simp: table_ok_def l SCHED_MAX_THREADS_def split: if_splits) (simp_all add: demo_clone_def demo_sched_def)
  then have "base_inv demo_clone"
    using q by (simp add: base_inv_def l t SCHED_MAX_CPUS_def demo_tcb_def zero_tcb_def) (simp add: demo_clone_def demo_sched_def)
  then show "sched_inv demo_clone" "rq_inv demo_clone" using q
    by (auto simp: sched_inv_def stack_inv_def space_inv_def l t u demo_tcb_def zero_tcb_def rq_inv_def SCHED_MAX_CPUS_def)
      (simp_all add: demo_clone_def demo_sched_def)
qed

theorem sched_clone_queue_drift_witness:
  "fst (sched_clone_thread 4096 0x6000 0 8192 0x10000 demo_clone) \<noteq> 0 \<and>
   \<not> rq_inv (snd (sched_clone_thread 4096 0x6000 0 8192 0x10000 demo_clone))"
proof -
  obtain r s' where e: "sched_clone_thread 4096 0x6000 0 8192 0x10000 demo_clone = (r, s')" by fastforce
  have "fst (sched_clone_thread 4096 0x6000 0 8192 0x10000 demo_clone) = 8192" by code_simp
  then have r: "r \<noteq> 0" using e by simp
  have f: "fresh demo_clone 8192 0x10000" by (simp add: fresh_def demo_clone_def demo_sched_def)
  have c: "cur_thread demo_clone = 4096" by (simp add: demo_clone_def demo_sched_def)
  have h: "sched_pick_home (t_prio (tcb_of demo_clone 4096)) demo_clone = 1" "t_cpu (tcb_of demo_clone 4096) = 0" by code_simp+
  have "\<not> rq_inv s'"
    using sched_clone_queue_drift [OF demo_clone_inv f _ _ r, unfolded c, OF _ e] h by simp
  then show ?thesis using e r by simp
qed

text \<open>The flag a debugger single-steps with passes from the parent to its child.\<close>

lemma child_frame_keeps_tf: "f_rflags (child_frame p sp) AND 0x100 = r11 p AND 0x100"
proof -
  have "NOT 8 AND (0x100 :: u64) = 0x100" by simp
  then show ?thesis
    by (simp add: child_frame_def bit.conj_disj_distrib2 and.assoc)
qed

end
