(* ===== verification/Sched_Switch.thy ===== *)
theory Sched_Switch
  imports Sched_Inv
begin

text \<open>
  Context switching: what a thread finds in the machine when it is dispatched again is what the
  tick that took the processor away wrote down, whatever ran in between.
\<close>

section \<open>The saved context\<close>

text \<open>The fields of a control block the switch loads from.\<close>

definition ctx :: "tcb \<Rightarrow> u64 \<times> u8 list \<times> u64 \<times> u64 \<times> u64 \<times> u64" where
  "ctx x = (t_rsp x, t_fx x, t_kstack_top x, t_as x, t_cr3 x, t_fsbase x)"

lemma ctx_state [simp]:
  "ctx (x\<lparr>t_state := v\<rparr>) = ctx x" "ctx (x\<lparr>t_wait_chan := c\<rparr>) = ctx x" "ctx (x\<lparr>t_waits_frame := b\<rparr>) = ctx x"
  "ctx (x\<lparr>t_slices := n\<rparr>) = ctx x"
  by (simp_all add: ctx_def)

lemma ctx_upd: "(\<And>x. ctx (f x) = ctx x) \<Longrightarrow> ctx (tcb_of (upd t f s) u) = ctx (tcb_of s u)"
  by (simp add: tcb_of_upd)

lemma ctx_woken: "table_ok s \<Longrightarrow> cur_thread s \<noteq> 0 \<Longrightarrow> ctx (tcb_of (woken s) u) = ctx (tcb_of s u)"
  by (simp add: woken_tcb)

lemma ctx_wake_loop: "ctx (tcb_of (wake_loop chan all ts s) u) = ctx (tcb_of s u)"
proof (induction ts arbitrary: s)
  case (Cons t ts)
  let ?a = "upd t (\<lambda>x. x\<lparr>t_wait_chan := 0\<rparr>) s"
  let ?b = "if t_state (tcb_of ?a t) = T_SLEEPING then upd t (\<lambda>x. x\<lparr>t_state := T_READY\<rparr>) ?a else ?a"
  have "ctx (tcb_of ?b u) = ctx (tcb_of s u)" by (simp add: ctx_upd)
  moreover have "wake_loop chan all (t # ts) s = (if t = 0 \<or> t_wait_chan (tcb_of s t) \<noteq> chan then wake_loop chan all ts s
      else if \<not> all then ?b else wake_loop chan all ts ?b)"
    by (simp only: wake_loop.simps Let_def)
  ultimately show ?case using Cons.IH by presburger
qed simp

lemma ctx_pulse_loop: "ctx (tcb_of (pulse_loop ts s) u) = ctx (tcb_of s u)"
proof (induction ts arbitrary: s)
  case (Cons t ts)
  let ?a = "upd t (\<lambda>x. x\<lparr>t_waits_frame := False\<rparr>) s"
  let ?b = "if t_state (tcb_of ?a t) = T_SLEEPING then upd t (\<lambda>x. x\<lparr>t_state := T_READY\<rparr>) ?a else ?a"
  have "ctx (tcb_of ?b u) = ctx (tcb_of s u)" by (simp add: ctx_upd)
  moreover have "pulse_loop (t # ts) s = (if t \<noteq> 0 \<and> t_waits_frame (tcb_of s t) then pulse_loop ts ?b else pulse_loop ts s)"
    by (simp only: pulse_loop.simps Let_def)
  ultimately show ?case using Cons.IH by presburger
qed simp

text \<open>The machine holds a context: what the switch loads is what it names.\<close>

definition loaded :: "tcb \<Rightarrow> u64 \<Rightarrow> sched \<Rightarrow> bool" where
  "loaded x r s \<longleftrightarrow> r = t_rsp x \<and> fpu s = t_fx x \<and> tss_rsp0 s = t_kstack_top x \<and> syscall_kstack s = t_kstack_top x \<and>
     vmm_current s = t_as x \<and> (cr3 s = t_cr3 x \<or> cr3 s AND PTE_ADDR_MASK = t_cr3 x) \<and> fsbase_want s = t_fsbase x"

lemma loaded_ctx: "ctx x = ctx y \<Longrightarrow> loaded x r s = loaded y r s"
  by (auto simp: ctx_def loaded_def)

lemma sched_switch_loaded:
  assumes "sched_switch n sp s = (r, s')"
  shows "loaded (tcb_of (sched_enter n (sched_save sp s)) n) r s'"
  using assms by (auto simp: sched_switch_def sched_load_def Let_def loaded_def tcb_of_def)

section \<open>One tick\<close>

lemma on_tick_ctx:
  assumes "sched_inv s" and "dispatchers s \<le> 1" and "sched_on_tick sp s = (r, s')"
  shows "(t \<noteq> cur_thread s \<longrightarrow> ctx (tcb_of s' t) = ctx (tcb_of s t)) \<and>
    (cur_thread s' \<noteq> cur_thread s \<longrightarrow>
      ctx (tcb_of s' (cur_thread s)) = ctx ((tcb_of s (cur_thread s))\<lparr>t_rsp := sp, t_fx := fpu s\<rparr>) \<and>
      loaded (tcb_of s (cur_thread s')) r s') \<and>
    fsbase_live s' = fsbase_live s \<and> msr_fs s' = msr_fs s"
  using assms(3)
proof (cases rule: sched_on_tick_cases)
  case off
  then show ?thesis by simp
next
  case (stay b s1)
  have t: "table_ok (sched_count s)" using assms(1) by (simp add: sched_inv_def base_inv_def)
  have c: "cur_thread (sched_count s) \<noteq> 0" using stay(2) by simp
  note p = sched_pick_woken [OF t _ _ stay(4), simplified, OF stay(2) assms(2)]
  have k: "cur_thread s' = cur_thread s" unfolding stay(7) p(1) by (simp add: woken_sel)
  moreover have "ctx (tcb_of s' t) = ctx (tcb_of s t)" unfolding stay(7) p(1) using ctx_woken [OF t c] by (simp add: ctx_upd)
  moreover have "fsbase_live s' = fsbase_live s" "msr_fs s' = msr_fs s" unfolding stay(7) p(1) by (simp_all add: woken_sel)
  ultimately show ?thesis by simp
next
  case (switch b s1)
  have t: "table_ok (sched_count s)" using assms(1) by (simp add: sched_inv_def base_inv_def)
  have c: "cur_thread (sched_count s) \<noteq> 0" using switch(2) by simp
  note p = sched_pick_woken [OF t _ _ switch(4), simplified, OF switch(2) assms(2)]
  have w: "ctx (tcb_of s1 u) = ctx (tcb_of s u)" for u unfolding p(1) using ctx_woken [OF t c] by simp
  have f: "fpu s1 = fpu s" "cur_thread s1 = cur_thread s" "fsbase_live s1 = fsbase_live s" "msr_fs s1 = msr_fs s"
    unfolding p(1) by (simp_all add: woken_sel)
  note v = sched_switch_sel [OF switch(7)] sched_switch_tcbs(1) [OF switch(7)]
  have s: "ctx (tcb_of s' u) = ctx (if u = cur_thread s then (tcb_of s1 u)\<lparr>t_rsp := sp, t_fx := fpu s\<rparr> else tcb_of s1 u)" for u
    using switch(6) by (simp add: v(15) sched_enter_tcb sched_save_tcb f ctx_def)
  have "ctx (tcb_of (sched_enter b (sched_save sp s1)) b) = ctx (tcb_of s b)"
    using switch(6) w by (simp add: sched_enter_tcb sched_save_tcb f)
  then have "loaded (tcb_of s b) r s'" using sched_switch_loaded [OF switch(7)] loaded_ctx by metis
  moreover have "ctx (tcb_of s' (cur_thread s)) = ctx ((tcb_of s (cur_thread s))\<lparr>t_rsp := sp, t_fx := fpu s\<rparr>)"
    using s [of "cur_thread s"] w [of "cur_thread s"] by (simp add: ctx_def)
  ultimately show ?thesis using s [of t] w [of t] v f by simp
qed

lemma stub_ctx:
  assumes "good clones s" and "sched_timer_stub sp s = (r, s')" and "msr_fs s = fsbase_live s"
  shows "t \<noteq> cur_thread s \<Longrightarrow> ctx (tcb_of s' t) = ctx (tcb_of s t)"
    and "cur_thread s' \<noteq> cur_thread s \<Longrightarrow> ctx (tcb_of s' (cur_thread s)) = ctx ((tcb_of s (cur_thread s))\<lparr>t_rsp := sp, t_fx := fpu s\<rparr>)"
    and "cur_thread s' \<noteq> cur_thread s \<Longrightarrow> loaded (tcb_of s (cur_thread s')) r s' \<and> msr_fs s' = t_fsbase (tcb_of s (cur_thread s'))"
    and "msr_fs s' = fsbase_live s'"
proof -
  obtain s2 where o: "sched_on_tick sp s = (r, s2)" and v: "cur_thread s' = cur_thread s2" "tcbs s' = tcbs s2"
    "fsbase_live s' = fsbase_want s2" "fsbase_want s' = fsbase_want s2" "fpu s' = fpu s2" "cr3 s' = cr3 s2"
    "tss_rsp0 s' = tss_rsp0 s2" "syscall_kstack s' = syscall_kstack s2" "vmm_current s' = vmm_current s2"
    "msr_fs s' = (if fsbase_want s2 = fsbase_live s2 then msr_fs s2 else fsbase_want s2)"
    using stub_sel [OF assms(2)] by metis
  have g: "sched_inv s" "dispatchers s \<le> 1" using assms(1) by (simp_all add: good_def)
  note c = on_tick_ctx [OF g o]
  have x: "tcb_of s' u = tcb_of s2 u" for u using v(2) by (simp add: tcb_of_def)
  show "t \<noteq> cur_thread s \<Longrightarrow> ctx (tcb_of s' t) = ctx (tcb_of s t)" using c [of t] x by simp
  show "cur_thread s' \<noteq> cur_thread s \<Longrightarrow> ctx (tcb_of s' (cur_thread s)) = ctx ((tcb_of s (cur_thread s))\<lparr>t_rsp := sp, t_fx := fpu s\<rparr>)"
    using c x v(1) by simp
  show m: "msr_fs s' = fsbase_live s'" using v c assms(3) by simp
  show "cur_thread s' \<noteq> cur_thread s \<Longrightarrow> loaded (tcb_of s (cur_thread s')) r s' \<and> msr_fs s' = t_fsbase (tcb_of s (cur_thread s'))"
    using c v m by (simp add: loaded_def)
qed

section \<open>Everybody else's turn\<close>

text \<open>What can happen while a thread is off the processor: code of other threads, which may do
  anything to the extended registers, ticks, and the calls other threads make.\<close>

inductive busy :: "sched \<Rightarrow> sched \<Rightarrow> bool" where
  code: "busy s (s\<lparr>fpu := f\<rparr>)"
| tick: "busy s (snd (sched_timer_stub sp s))"
| yield: "busy s (snd (sched_yield sp s))"
| sleep: "busy s (sched_sleep_ms ms s)"
| wake: "busy s (sched_wake_chan chan all s)"
| frame: "busy s (sched_wait_frame s)"
| pulse: "busy s (sched_frame_pulse s)"
| exit: "busy s (sched_exit c s)"

inductive away :: "u64 \<Rightarrow> sched \<Rightarrow> sched \<Rightarrow> bool" for t :: u64 where
  stop: "cur_thread s \<noteq> t \<Longrightarrow> away t s s"
| go: "away t s s1 \<Longrightarrow> busy s1 s2 \<Longrightarrow> cur_thread s2 \<noteq> t \<Longrightarrow> away t s s2"

definition fs_ok :: "sched \<Rightarrow> bool" where
  "fs_ok s \<longleftrightarrow> good True s \<and> msr_fs s = fsbase_live s"

lemma loops_msr:
  "msr_fs (wake_loop chan all ts s) = msr_fs s \<and> fsbase_live (wake_loop chan all ts s) = fsbase_live s"
  "msr_fs (pulse_loop ts s) = msr_fs s \<and> fsbase_live (pulse_loop ts s) = fsbase_live s"
proof -
  show "msr_fs (wake_loop chan all ts s) = msr_fs s \<and> fsbase_live (wake_loop chan all ts s) = fsbase_live s"
    by (induction ts arbitrary: s) (auto simp: Let_def)
  show "msr_fs (pulse_loop ts s) = msr_fs s \<and> fsbase_live (pulse_loop ts s) = fsbase_live s"
    by (induction ts arbitrary: s) (auto simp: Let_def)
qed

lemma busy_keeps:
  assumes "busy s s'" and "fs_ok s" and "t \<noteq> cur_thread s"
  shows "fs_ok s' \<and> ctx (tcb_of s' t) = ctx (tcb_of s t)"
  using assms
proof (induction rule: busy.induct)
  case (code s f)
  have "good True (s\<lparr>fpu := f\<rparr>)"
    by (rule good_outer [of True s]) (use code good_base [of True s] in \<open>simp_all add: fs_ok_def base_inv_def\<close>)
  then show ?case using code by (simp add: fs_ok_def tcb_of_def)
next
  case (tick s sp)
  obtain r s' where e: "sched_timer_stub sp s = (r, s')" by fastforce
  have "good True s'" using sched_step_good [OF sched_step.tick [of True s sp]] tick e by (simp add: fs_ok_def)
  then show ?case using stub_ctx(1) [of True s sp r s' t] stub_ctx(4) [of True s sp r s'] tick e by (simp add: fs_ok_def)
next
  case (yield s sp)
  let ?s = "s\<lparr>soft_yield := True\<rparr>"
  obtain r s' where e: "sched_timer_stub sp ?s = (r, s')" by fastforce
  have g: "good True ?s"
    by (rule good_outer [of True s]) (use yield good_base [of True s] in \<open>simp_all add: fs_ok_def base_inv_def\<close>)
  have "good True s'" using sched_step_good [OF sched_step.tick [of True ?s sp] g] e by simp
  moreover have "tcb_of ?s t = tcb_of s t" by (simp add: tcb_of_def)
  ultimately show ?case using stub_ctx(1) [OF g e, of t] stub_ctx(4) [OF g e] yield e by (simp add: fs_ok_def sched_yield_def)
next
  case (sleep s ms)
  then show ?case using sched_step_good [OF sched_step.sleep [of True s ms]]
    by (simp add: fs_ok_def sched_sleep_ms_def park_def tcb_of_upd)
next
  case (wake s chan all)
  then show ?case using sched_step_good [OF sched_step.wake [of True s chan all]]
    by (simp add: fs_ok_def sched_wake_chan_def ctx_wake_loop loops_msr)
next
  case (frame s)
  then show ?case using sched_step_good [OF sched_step.wait_frame [of True s]]
    by (simp add: fs_ok_def sched_wait_frame_def park_def tcb_of_upd)
next
  case (pulse s)
  then show ?case using sched_step_good [OF sched_step.pulse [of True s]]
    by (simp add: fs_ok_def sched_frame_pulse_def ctx_pulse_loop loops_msr)
next
  case (exit s c)
  then show ?case using sched_step_good [OF sched_step.exit [of True s c]]
    by (simp add: fs_ok_def sched_exit_def tcb_of_upd)
qed

lemma away_keeps:
  "away t s s' \<Longrightarrow> fs_ok s \<Longrightarrow> fs_ok s' \<and> ctx (tcb_of s' t) = ctx (tcb_of s t) \<and> cur_thread s' \<noteq> t"
proof (induction rule: away.induct)
  case (go s s1 s2)
  then show ?case using busy_keeps [OF go(2), of t] by auto
qed simp

text \<open>
  C16: A thread that a tick takes off the processor is resumed exactly where it was: whatever other
  threads do to the extended registers, and through any number of ticks, yields, sleeps, wakes and
  exits of theirs, the tick that dispatches it again returns the stack pointer it was interrupted
  with, and leaves in the machine its extended registers, its kernel stack, its address space, its
  page tables and its thread-local base.
\<close>

theorem sched_context_restored:
  assumes "good True s" and "msr_fs s = fsbase_live s" and "cur_thread s = t"
    and "sched_timer_stub sp s = (r1, s1)" and "away t s1 s2"
    and "sched_timer_stub sp2 s2 = (r, s3)" and "cur_thread s3 = t"
  shows "r = sp \<and> fpu s3 = fpu s \<and> tss_rsp0 s3 = t_kstack_top (tcb_of s t) \<and> syscall_kstack s3 = t_kstack_top (tcb_of s t) \<and>
    vmm_current s3 = t_as (tcb_of s t) \<and> (cr3 s3 = t_cr3 (tcb_of s t) \<or> cr3 s3 AND PTE_ADDR_MASK = t_cr3 (tcb_of s t)) \<and>
    msr_fs s3 = t_fsbase (tcb_of s t)"
proof -
  have "good True s1" using sched_step_good [OF sched_step.tick [of True s sp] assms(1)] assms(4) by simp
  then have o: "fs_ok s1" using stub_ctx(4) [OF assms(1,4,2)] by (simp add: fs_ok_def)
  have c1: "cur_thread s1 \<noteq> t" using assms(5) by (induction rule: away.induct) simp_all
  note k = away_keeps [OF assms(5) o]
  let ?x = "(tcb_of s t)\<lparr>t_rsp := sp, t_fx := fpu s\<rparr>"
  have "ctx (tcb_of s2 t) = ctx ?x" using k stub_ctx(2) [OF assms(1,4,2)] c1 assms(3) by simp
  moreover have "loaded (tcb_of s2 t) r s3 \<and> msr_fs s3 = t_fsbase (tcb_of s2 t)"
    using stub_ctx(3) [OF _ assms(6)] k assms(7) by (auto simp: fs_ok_def)
  ultimately show ?thesis using loaded_ctx [of "tcb_of s2 t" ?x r s3] by (simp add: loaded_def ctx_def)
qed

text \<open>Two equal threads, the first running with its extended registers holding 7.\<close>

definition demo_pair :: sched where
  "demo_pair = demo_sched\<lparr>threads := 4096 # 8192 # replicate 62 0, rq := 2 # replicate 15 0, fpu := [7], running := True,
     tcbs := [4096 \<mapsto> (demo_tcb T_RUNNING 4 0)\<lparr>t_kstack_top := 0x9000\<rparr>, 8192 \<mapsto> demo_tcb T_READY 4 0]\<rparr>"

lemma demo_pair_good: "good True demo_pair"
proof -
  have l: "live demo_pair = {4096, 8192}" by (auto simp: demo_pair_def live_def)
  have t: "tcb_of demo_pair 4096 = (demo_tcb T_RUNNING 4 0)\<lparr>t_kstack_top := 0x9000\<rparr>" "tcb_of demo_pair 8192 = demo_tcb T_READY 4 0"
    by (simp_all add: demo_pair_def tcb_of_def)
  have u: "a \<noteq> 0 \<Longrightarrow> users demo_pair a = {}" for a
    by (auto simp: users_def l t demo_tcb_def zero_tcb_def)
  have n: "threads demo_pair ! i = (if i = 0 then 4096 else if i = 1 then 8192 else 0)" if "i < 64" for i
    using that by (auto simp: demo_pair_def nth_Cons')
  have q: "0 \<le> rq demo_pair ! c" if "c < 16" for c
    using that by (cases c) (simp_all add: demo_pair_def)
  have "table_ok demo_pair"
    using n by (auto simp: table_ok_def l SCHED_MAX_THREADS_def split: if_splits) (simp_all add: demo_pair_def demo_sched_def)
  then have "base_inv demo_pair"
    using q by (simp add: base_inv_def l t SCHED_MAX_CPUS_def demo_tcb_def zero_tcb_def) (simp add: demo_pair_def demo_sched_def)
  then show ?thesis using u
    by (simp add: good_def sched_inv_def stack_inv_def space_inv_def l t demo_tcb_def zero_tcb_def) (simp add: demo_pair_def demo_sched_def)
qed

theorem sched_context_restored_witness:
  "let s1 = snd (sched_timer_stub 77 demo_pair); (r, s3) = sched_timer_stub 88 (s1\<lparr>fpu := [9]\<rparr>)
   in r = 77 \<and> fpu s3 = [7] \<and> tss_rsp0 s3 = 0x9000"
proof -
  obtain r1 s1 where e1: "sched_timer_stub 77 demo_pair = (r1, s1)" by fastforce
  obtain r s3 where e3: "sched_timer_stub 88 (s1\<lparr>fpu := [9]\<rparr>) = (r, s3)" by fastforce
  have "cur_thread (snd (sched_timer_stub 77 demo_pair)) = 8192"
    "cur_thread (snd (sched_timer_stub 88 ((snd (sched_timer_stub 77 demo_pair))\<lparr>fpu := [9]\<rparr>))) = 4096" by code_simp+
  then have c: "cur_thread s1 = 8192" "cur_thread s3 = 4096" using e1 e3 by simp_all
  have a: "away 4096 s1 (s1\<lparr>fpu := [9]\<rparr>)" by (rule away.go [OF away.stop busy.code]) (simp_all add: c)
  have d: "cur_thread demo_pair = 4096" "msr_fs demo_pair = fsbase_live demo_pair" "fpu demo_pair = [7]"
    "t_kstack_top (tcb_of demo_pair 4096) = 0x9000"
    by (simp_all add: demo_pair_def demo_sched_def tcb_of_def)
  show ?thesis using sched_context_restored [OF demo_pair_good d(2,1) e1 a e3 c(2)] e1 e3 d by simp
qed

end
