(* ===== verification/Libc_String.thy ===== *)
theory Libc_String
  imports Vx_Prelude
begin

text \<open>
  The string and memory routines of the user-space C library (\<open>libc/string.c\<close>).

  Memory is a finite array of bytes and a pointer is an index into it.  Reading or writing
  outside the array is a fault, the value \<^const>\<open>None\<close>; so a routine that runs off the end of an
  unterminated string faults, as it would at the end of a mapping.  The null pointer is \<^const>\<open>None\<close>
  of an optional index.
\<close>

type_synonym mem = "u8 list"

definition rd :: "mem \<Rightarrow> nat \<Rightarrow> u8 option" where
  "rd m a = (if a < length m then Some (m ! a) else None)"

definition wr :: "nat \<Rightarrow> u8 \<Rightarrow> mem \<Rightarrow> mem option" where
  "wr a v m = (if a < length m then Some (m[a := v]) else None)"

section \<open>Blocks of memory\<close>

fun copy_up :: "nat \<Rightarrow> nat \<Rightarrow> nat \<Rightarrow> mem \<Rightarrow> mem option" where
  "copy_up d s 0 m = Some m"
| "copy_up d s (Suc n) m =
     Option.bind (rd m s) (\<lambda>v. Option.bind (wr d v m) (\<lambda>m. copy_up (d + 1) (s + 1) n m))"

definition memcpy :: "nat \<Rightarrow> nat \<Rightarrow> nat \<Rightarrow> mem \<Rightarrow> mem option" where
  "memcpy dst src n m = copy_up dst src n m"

text \<open>The backward loop of \<open>memmove\<close>: \<open>d\<close> and \<open>s\<close> point one past the byte that moves next.\<close>

fun copy_down :: "nat \<Rightarrow> nat \<Rightarrow> nat \<Rightarrow> mem \<Rightarrow> mem option" where
  "copy_down d s 0 m = Some m"
| "copy_down d s (Suc n) m =
     Option.bind (rd m (s - 1)) (\<lambda>v. Option.bind (wr (d - 1) v m) (\<lambda>m. copy_down (d - 1) (s - 1) n m))"

definition memmove :: "nat \<Rightarrow> nat \<Rightarrow> nat \<Rightarrow> mem \<Rightarrow> mem option" where
  "memmove dst src n m =
     (if dst = src \<or> n = 0 then Some m
      else if dst < src then copy_up dst src n m
      else copy_down (dst + n) (src + n) n m)"

fun memset :: "nat \<Rightarrow> u8 \<Rightarrow> nat \<Rightarrow> mem \<Rightarrow> mem option" where
  "memset d c 0 m = Some m"
| "memset d c (Suc n) m = Option.bind (wr d c m) (\<lambda>m. memset (d + 1) c n m)"

fun memcmp :: "nat \<Rightarrow> nat \<Rightarrow> nat \<Rightarrow> mem \<Rightarrow> int option" where
  "memcmp x y 0 m = Some 0"
| "memcmp x y (Suc n) m =
     Option.bind (rd m x) (\<lambda>u. Option.bind (rd m y) (\<lambda>v.
       if u \<noteq> v then Some (uint u - uint v) else memcmp (x + 1) (y + 1) n m))"

fun memchr :: "nat \<Rightarrow> u8 \<Rightarrow> nat \<Rightarrow> mem \<Rightarrow> nat option option" where
  "memchr p c 0 m = Some None"
| "memchr p c (Suc n) m =
     Option.bind (rd m p) (\<lambda>v. if v = c then Some (Some p) else memchr (p + 1) c n m)"

section \<open>Strings\<close>

text \<open>The loops over a string move a pointer up until it reads a zero or falls off the array.\<close>

function strlen_loop :: "nat \<Rightarrow> mem \<Rightarrow> nat option" where
  "strlen_loop p m =
     (if p < length m then if m ! p = 0 then Some p else strlen_loop (p + 1) m else None)"
  by pat_completeness auto
termination by (relation "measure (\<lambda>(p, m). length m - p)") auto

definition strlen :: "nat \<Rightarrow> mem \<Rightarrow> nat option" where
  "strlen s m = map_option (\<lambda>p. p - s) (strlen_loop s m)"

text \<open>\<open>n\<close> counts down the bytes still allowed.\<close>

fun strnlen :: "nat \<Rightarrow> nat \<Rightarrow> mem \<Rightarrow> nat option" where
  "strnlen s 0 m = Some 0"
| "strnlen s (Suc n) m =
     Option.bind (rd m s) (\<lambda>v. if v = 0 then Some 0 else map_option Suc (strnlen (s + 1) n m))"

text \<open>\<open>while ((*d++ = *src++))\<close>, with the final position of \<open>d\<close>.\<close>

function str_move :: "nat \<Rightarrow> nat \<Rightarrow> mem \<Rightarrow> (nat \<times> mem) option" where
  "str_move d s m =
     (if s < length m \<and> d < length m
      then let v = m ! s; m = m[d := v] in if v = 0 then Some (d, m) else str_move (d + 1) (s + 1) m
      else None)"
  by pat_completeness auto
termination by (relation "measure (\<lambda>(d, s, m). length m - s)") auto

definition strcpy :: "nat \<Rightarrow> nat \<Rightarrow> mem \<Rightarrow> mem option" where
  "strcpy dst src m = map_option snd (str_move dst src m)"

definition stpcpy :: "nat \<Rightarrow> nat \<Rightarrow> mem \<Rightarrow> (nat \<times> mem) option" where
  "stpcpy dst src m = str_move dst src m"

definition strcat :: "nat \<Rightarrow> nat \<Rightarrow> mem \<Rightarrow> mem option" where
  "strcat dst src m = Option.bind (strlen dst m) (\<lambda>n. map_option snd (str_move (dst + n) src m))"

text \<open>\<open>for (; i < n && src[i]; i++) dst[i] = src[i]\<close>, with the final value of \<open>i\<close>.\<close>

fun copy_n :: "nat \<Rightarrow> nat \<Rightarrow> nat \<Rightarrow> nat \<Rightarrow> mem \<Rightarrow> (nat \<times> mem) option" where
  "copy_n dst src i 0 m = Some (i, m)"
| "copy_n dst src i (Suc n) m =
     Option.bind (rd m (src + i)) (\<lambda>v.
       if v = 0 then Some (i, m) else Option.bind (wr (dst + i) v m) (\<lambda>m. copy_n dst src (i + 1) n m))"

definition strncpy :: "nat \<Rightarrow> nat \<Rightarrow> nat \<Rightarrow> mem \<Rightarrow> mem option" where
  "strncpy dst src n m = Option.bind (copy_n dst src 0 n m) (\<lambda>(i, m). memset (dst + i) 0 (n - i) m)"

definition stpncpy :: "nat \<Rightarrow> nat \<Rightarrow> nat \<Rightarrow> mem \<Rightarrow> (nat \<times> mem) option" where
  "stpncpy dst src n m =
     Option.bind (copy_n dst src 0 n m) (\<lambda>(i, m). map_option (\<lambda>m. (dst + i, m)) (memset (dst + i) 0 (n - i) m))"

definition strncat :: "nat \<Rightarrow> nat \<Rightarrow> nat \<Rightarrow> mem \<Rightarrow> mem option" where
  "strncat dst src n m =
     Option.bind (strlen dst m) (\<lambda>k.
       Option.bind (copy_n (dst + k) src 0 n m) (\<lambda>(i, m). wr (dst + k + i) 0 m))"

function strcmp :: "nat \<Rightarrow> nat \<Rightarrow> mem \<Rightarrow> int option" where
  "strcmp a b m =
     (if a < length m \<and> b < length m
      then if m ! a \<noteq> 0 \<and> m ! a = m ! b then strcmp (a + 1) (b + 1) m
           else Some (uint (m ! a) - uint (m ! b))
      else None)"
  by pat_completeness auto
termination by (relation "measure (\<lambda>(a, b, m). length m - a)") auto

fun strncmp :: "nat \<Rightarrow> nat \<Rightarrow> nat \<Rightarrow> mem \<Rightarrow> int option" where
  "strncmp a b 0 m = Some 0"
| "strncmp a b (Suc n) m =
     Option.bind (rd m a) (\<lambda>u. Option.bind (rd m b) (\<lambda>v.
       if u \<noteq> 0 \<and> u = v then strncmp (a + 1) (b + 1) n m else Some (uint u - uint v)))"

function strchr :: "nat \<Rightarrow> u8 \<Rightarrow> mem \<Rightarrow> nat option option" where
  "strchr s c m =
     (if s < length m
      then if m ! s = c then Some (Some s) else if m ! s = 0 then Some None else strchr (s + 1) c m
      else None)"
  by pat_completeness auto
termination by (relation "measure (\<lambda>(s, c, m). length m - s)") auto

function strrchr_loop :: "nat \<Rightarrow> u8 \<Rightarrow> nat option \<Rightarrow> mem \<Rightarrow> nat option option" where
  "strrchr_loop s c found m =
     (if s < length m
      then let found = (if m ! s = c then Some s else found)
           in if m ! s = 0 then Some found else strrchr_loop (s + 1) c found m
      else None)"
  by pat_completeness auto
termination by (relation "measure (\<lambda>(s, c, found, m). length m - s)") auto

definition strrchr :: "nat \<Rightarrow> u8 \<Rightarrow> mem \<Rightarrow> nat option option" where
  "strrchr s c m = strrchr_loop s c None m"

text \<open>The inner loop of \<open>strstr\<close>: whether the needle ended where the two strings stopped agreeing.\<close>

function match_at :: "nat \<Rightarrow> nat \<Rightarrow> mem \<Rightarrow> bool option" where
  "match_at h n m =
     (if h < length m
      then if m ! h \<noteq> 0
           then if n < length m
                then if m ! n \<noteq> 0 \<and> m ! h = m ! n then match_at (h + 1) (n + 1) m else Some (m ! n = 0)
                else None
           else if n < length m then Some (m ! n = 0) else None
      else None)"
  by pat_completeness auto
termination by (relation "measure (\<lambda>(h, n, m). length m - h)") auto

function strstr_loop :: "nat \<Rightarrow> nat \<Rightarrow> mem \<Rightarrow> nat option option" where
  "strstr_loop hay needle m =
     (if hay < length m
      then if m ! hay = 0 then Some None
           else case match_at hay needle m of
             None \<Rightarrow> None
           | Some True \<Rightarrow> Some (Some hay)
           | Some False \<Rightarrow> strstr_loop (hay + 1) needle m
      else None)"
  by pat_completeness auto
termination by (relation "measure (\<lambda>(h, n, m). length m - h)") auto

definition strstr :: "nat \<Rightarrow> nat \<Rightarrow> mem \<Rightarrow> nat option option" where
  "strstr hay needle m =
     Option.bind (rd m needle) (\<lambda>v. if v = 0 then Some (Some hay) else strstr_loop hay needle m)"

function in_set :: "u8 \<Rightarrow> nat \<Rightarrow> mem \<Rightarrow> bool option" where
  "in_set c accept m =
     (if accept < length m
      then if m ! accept = 0 then Some False else if m ! accept = c then Some True else in_set c (accept + 1) m
      else None)"
  by pat_completeness auto
termination by (relation "measure (\<lambda>(c, accept, m). length m - accept)") auto

text \<open>\<open>strspn\<close> (\<open>inside\<close>) and \<open>strcspn\<close> (not \<open>inside\<close>), which differ in one negation.\<close>

function span_loop :: "bool \<Rightarrow> nat \<Rightarrow> nat \<Rightarrow> nat \<Rightarrow> mem \<Rightarrow> nat option" where
  "span_loop inside s n accept m =
     (if s + n < length m
      then if m ! (s + n) = 0 then Some n
           else case in_set (m ! (s + n)) accept m of
             None \<Rightarrow> None
           | Some b \<Rightarrow> if b = inside then span_loop inside s (n + 1) accept m else Some n
      else None)"
  by pat_completeness auto
termination by (relation "measure (\<lambda>(inside, s, n, accept, m). length m - (s + n))") auto

definition strspn :: "nat \<Rightarrow> nat \<Rightarrow> mem \<Rightarrow> nat option" where
  "strspn s accept m = span_loop True s 0 accept m"

definition strcspn :: "nat \<Rightarrow> nat \<Rightarrow> mem \<Rightarrow> nat option" where
  "strcspn s accept m = span_loop False s 0 accept m"

text \<open>The token, the saved pointer and the memory after a call; \<open>save\<close> is the static variable.\<close>

definition strtok :: "nat option \<Rightarrow> nat \<Rightarrow> nat option \<Rightarrow> mem \<Rightarrow> (nat option \<times> nat option \<times> mem) option" where
  "strtok s sep save m =
     (case (if s = None then save else s) of
        None \<Rightarrow> Some (None, save, m)
      | Some s \<Rightarrow>
          Option.bind (strspn s sep m) (\<lambda>k. Option.bind (rd m (s + k)) (\<lambda>v.
            if v = 0 then Some (None, None, m)
            else let tok = s + k in
              Option.bind (strcspn tok sep m) (\<lambda>j. Option.bind (rd m (tok + j)) (\<lambda>v.
                if v \<noteq> 0 then Some (Some tok, Some (tok + j + 1), m[tok + j := 0])
                else Some (Some tok, None, m))))))"

declare strlen_loop.simps [simp del] str_move.simps [simp del] strcmp.simps [simp del] strchr.simps [simp del]
  strrchr_loop.simps [simp del] match_at.simps [simp del] strstr_loop.simps [simp del] in_set.simps [simp del]
  span_loop.simps [simp del]

section \<open>Blocks: what they do\<close>

lemma rd_wr [simp]: "a < length m \<Longrightarrow> rd m a = Some (m ! a)" "a < length m \<Longrightarrow> wr a v m = Some (m[a := v])"
  by (simp_all add: rd_def wr_def)

text \<open>Moving the bytes \<open>[i, n)\<close> of a block: what memory holds when they have been moved.\<close>

definition moved :: "mem \<Rightarrow> nat \<Rightarrow> nat \<Rightarrow> nat \<Rightarrow> mem" where
  "moved m d s n = take d m @ take n (drop s m) @ drop (d + n) m"

lemma moved_length [simp]: "d + n \<le> length m \<Longrightarrow> s + n \<le> length m \<Longrightarrow> length (moved m d s n) = length m"
  by (simp add: moved_def)

lemma moved_nth:
  assumes "d + n \<le> length m" "s + n \<le> length m" "i < length m"
  shows "moved m d s n ! i = (if d \<le> i \<and> i < d + n then m ! (s + (i - d)) else m ! i)"
  using assms by (auto simp: moved_def nth_append not_le)

lemma copy_up_moved:
  assumes "d \<le> s" and "d + n \<le> length m" and "s + n \<le> length m"
  shows "copy_up d s n m = Some (moved m d s n)"
  using assms
proof (induction n arbitrary: d s m)
  case 0
  then show ?case by (simp add: moved_def)
next
  case (Suc n)
  let ?m = "m[d := m ! s]"
  have "moved ?m (d + 1) (s + 1) n = moved m d s (Suc n)"
    by (rule nth_equalityI) (use Suc.prems in \<open>auto simp: moved_nth nth_list_update Suc_diff_Suc\<close>)
  then show ?case using Suc by simp
qed

lemma copy_down_moved:
  assumes "s \<le> d" and "d + n \<le> length m"
  shows "copy_down (d + n) (s + n) n m = Some (moved m d s n)"
  using assms
proof (induction n arbitrary: m)
  case 0
  then show ?case by (simp add: moved_def)
next
  case (Suc n)
  let ?m = "m[d + n := m ! (s + n)]"
  have "moved ?m d s n = moved m d s (Suc n)"
    by (rule nth_equalityI) (use Suc.prems in \<open>auto simp: moved_nth nth_list_update\<close>)
  then show ?case using Suc by simp
qed

text \<open>
  C21: \<open>memmove\<close> copies a block of memory onto any other block of the array, overlapping it in either
  direction or not: afterwards the destination holds what the source held before, and no other
  byte has changed.
\<close>

theorem memmove_correct:
  assumes "dst + n \<le> length m" and "src + n \<le> length m"
  shows "memmove dst src n m = Some (take dst m @ take n (drop src m) @ drop (dst + n) m)"
proof (cases "dst < src")
  case True
  then show ?thesis using assms copy_up_moved [of dst src n m] by (simp add: memmove_def moved_def)
next
  case False
  have "dst = src \<Longrightarrow> take dst m @ take n (drop src m) @ drop (dst + n) m = m"
    by (metis append_take_drop_id drop_drop add.commute)
  then show ?thesis using assms False copy_down_moved [of src dst n m] by (auto simp: memmove_def moved_def)
qed

theorem memmove_correct_witness: "memmove 1 0 4 [1, 2, 3, 4, 5, 6] = Some [1, 1, 2, 3, 4, 6]"
  using memmove_correct [of 1 4 "[1, 2, 3, 4, 5, 6]" 0] by simp

section \<open>Strings: what they do\<close>

text \<open>The string \<open>cs\<close> stands in memory at \<open>s\<close>, with its terminator.\<close>

fun str_at :: "mem \<Rightarrow> nat \<Rightarrow> u8 list \<Rightarrow> bool" where
  "str_at m s [] \<longleftrightarrow> s < length m \<and> m ! s = 0"
| "str_at m s (c # cs) \<longleftrightarrow> s < length m \<and> m ! s = c \<and> c \<noteq> 0 \<and> str_at m (Suc s) cs"

lemma str_at_drop: "str_at m s (xs @ ys) \<Longrightarrow> str_at m (s + length xs) ys"
  by (induction xs arbitrary: s) fastforce+

lemma str_at_bound: "str_at m s cs \<Longrightarrow> s + length cs < length m"
  by (induction cs arbitrary: s) fastforce+

lemma str_at_nth: "str_at m s cs \<Longrightarrow> i < length cs \<Longrightarrow> m ! (s + i) = cs ! i"
proof (induction cs arbitrary: s i)
  case (Cons c cs)
  then show ?case using Cons.IH [of "Suc s" "i - 1"] by (cases i) auto
qed simp

lemma str_at_end: "str_at m s cs \<Longrightarrow> m ! (s + length cs) = 0"
  by (induction cs arbitrary: s) fastforce+

lemma str_at_nonzero: "str_at m s cs \<Longrightarrow> 0 \<notin> set cs"
  by (induction cs arbitrary: s) auto

lemma strlen_loop_at: "str_at m s cs \<Longrightarrow> strlen_loop s m = Some (s + length cs)"
  by (induction cs arbitrary: s) (simp_all add: strlen_loop.simps)

lemma strlen_at: "str_at m s cs \<Longrightarrow> strlen s m = Some (length cs)"
  by (simp add: strlen_def strlen_loop_at)

text \<open>Writing outside a string leaves it.\<close>

lemma str_at_update: "str_at m s cs \<Longrightarrow> a < s \<or> s + length cs < a \<Longrightarrow> str_at (m[a := v]) s cs"
  by (induction cs arbitrary: s) (auto simp: nth_list_update)

text \<open>Ending a string early.\<close>

lemma str_at_cut: "str_at m s (xs @ ys) \<Longrightarrow> str_at (m[s + length xs := 0]) s xs"
  by (induction xs arbitrary: s) (use str_at_bound in \<open>force simp: nth_list_update\<close>)+

lemma in_set_at: "str_at m a ss \<Longrightarrow> in_set c a m = Some (c \<in> set ss)"
  by (induction ss arbitrary: a) (auto simp: in_set.simps)

lemma span_loop_at:
  assumes "str_at m (s + n) cs" and "str_at m a ss"
  shows "span_loop b s n a m = Some (n + length (takeWhile (\<lambda>c. (c \<in> set ss) = b) cs))"
  using assms
proof (induction cs arbitrary: n)
  case Nil
  then show ?case by (simp add: span_loop.simps)
next
  case (Cons c cs)
  then show ?case using in_set_at [OF Cons.prems(2), of c] Cons.IH [of "n + 1"] by (auto simp: span_loop.simps)
qed

text \<open>
  A call of \<open>strtok\<close> skips the leading separators and, when something is left, ends the token
  at the next separator and remembers where the rest of the string starts: the token returned is
  the longest run without separators, the characters after it are what the next call sees, and
  nothing before the token or in the separator string is changed.  When only separators are left
  it returns null and forgets the string.
\<close>

theorem strtok_call:
  assumes "str_at m s cs" and "str_at m sep ss" and "sep + length ss < s \<or> s + length cs < sep"
  defines "rest \<equiv> dropWhile (\<lambda>c. c \<in> set ss) cs"
  defines "tok \<equiv> takeWhile (\<lambda>c. c \<notin> set ss) rest"
  shows "\<exists>t save m'. strtok (Some s) sep save0 m = Some (t, save, m') \<and>
    (if rest = [] then t = None \<and> save = None \<and> m' = m
     else \<exists>p. t = Some p \<and> str_at m' p tok \<and> str_at m' sep ss \<and> take p m' = take p m \<and>
       (if tok = rest then save = None
        else \<exists>q. save = Some q \<and> str_at m' q (tl (dropWhile (\<lambda>c. c \<notin> set ss) rest))))"
proof -
  define pre where "pre = takeWhile (\<lambda>c. c \<in> set ss) cs"
  let ?p = "s + length pre"
  define after where "after = dropWhile (\<lambda>c. c \<notin> set ss) rest"
  have cs: "cs = pre @ rest" by (simp add: pre_def rest_def)
  have r: "rest = tok @ after" by (simp add: tok_def after_def)
  have p: "str_at m ?p rest" using assms(1) cs str_at_drop by metis
  have k: "strspn s sep m = Some (length pre)" using span_loop_at [of m s 0 cs sep ss True] assms(1,2) by (simp add: strspn_def pre_def)
  have j: "strcspn ?p sep m = Some (length tok)" using span_loop_at [of m ?p 0 rest sep ss False] p assms(2) by (simp add: strcspn_def tok_def)
  have b: "?p + length rest < length m" by (rule str_at_bound [OF p])
  show ?thesis
  proof (cases rest)
    case Nil
    then have "m ! ?p = 0" using p by simp
    then show ?thesis using k b Nil by (simp add: strtok_def)
  next
    case (Cons c cs')
    then have c: "m ! ?p \<noteq> 0" using p by simp
    have q: "str_at m (?p + length tok) after" using p r str_at_drop by metis
    have lr: "length rest = length tok + length after" using r by (metis length_append)
    show ?thesis
    proof (cases after)
      case Nil
      then have "tok = rest" "m ! (?p + length tok) = 0" using r q by simp_all
      then show ?thesis using k j b c p assms(2) Cons lr Nil by (simp add: strtok_def Let_def)
    next
      case (Cons d ds)
      let ?m = "m[?p + length tok := 0]"
      have "m ! (?p + length tok) \<noteq> 0" using q Cons by simp
      then have e: "strtok (Some s) sep save0 m = Some (Some ?p, Some (?p + length tok + 1), ?m)"
        using k j b c lr by (simp add: strtok_def Let_def)
      have "str_at ?m (?p + length tok + 1) ds"
        using q Cons str_at_update [of m "?p + length tok + 1" ds] by simp
      moreover have "str_at ?m ?p tok" using str_at_cut p r by metis
      moreover have "str_at ?m sep ss" using str_at_update [OF assms(2)] assms(3) cs lr Cons by auto
      moreover have "tok \<noteq> rest" using lr Cons by auto
      ultimately show ?thesis using e Cons \<open>rest = c # cs'\<close> unfolding after_def [symmetric] by auto
    qed
  qed
qed

theorem strtok_call_witness:
  "let m = [97, 98, 44, 99, 0, 44, 0] :: mem
   in \<exists>m'. strtok (Some 0) 5 None m = Some (Some 0, Some 3, m') \<and> str_at m' 0 [97, 98] \<and> str_at m' 3 [99]"
proof -
  let ?m = "[97, 98, 44, 99, 0, 44, 0] :: mem"
  have a: "str_at ?m 0 [97, 98, 44, 99]" "str_at ?m 5 [44]" by simp_all
  have "strspn 0 5 ?m = Some 0" "strcspn 0 5 ?m = Some 2" by code_simp+
  then have "strtok (Some 0) 5 None ?m = Some (Some 0, Some 3, ?m[2 := 0])" by (simp add: strtok_def)
  then show ?thesis using strtok_call [OF a, of None] by simp
qed

lemma match_at_prefix:
  assumes "str_at m h xs" and "str_at m n ys"
  shows "match_at h n m = Some (\<exists>vs. xs = ys @ vs)"
  using assms
proof (induction xs arbitrary: h n ys)
  case Nil
  then show ?case by (cases ys) (simp_all add: match_at.simps)
next
  case (Cons x xs)
  then show ?case
  proof (cases ys)
    case (Cons y zs)
    then show ?thesis using Cons.prems Cons.IH [of "Suc h" "Suc n" zs] by (auto simp: match_at.simps [of h])
  qed (simp add: match_at.simps)
qed

lemma strstr_loop_first:
  assumes "str_at m h xs" and "str_at m n ys" and "ys \<noteq> []"
  shows "\<exists>r. strstr_loop h n m = Some r \<and>
    (case r of None \<Rightarrow> \<forall>us vs. xs \<noteq> us @ ys @ vs
     | Some p \<Rightarrow> \<exists>us vs. xs = us @ ys @ vs \<and> p = h + length us \<and> (\<forall>us' vs'. xs = us' @ ys @ vs' \<longrightarrow> length us \<le> length us'))"
  using assms
proof (induction xs arbitrary: h)
  case Nil
  then show ?case by (simp add: strstr_loop.simps)
next
  case (Cons x xs)
  have h: "h < length m" "m ! h \<noteq> 0" "str_at m (Suc h) xs" using Cons.prems(1) by simp_all
  note eq = match_at_prefix [OF Cons.prems(1,2)]
  show ?case
  proof (cases "\<exists>vs. x # xs = ys @ vs")
    case True
    then have "strstr_loop h n m = Some (Some h)" using eq h by (simp add: strstr_loop.simps)
    moreover obtain vs where "x # xs = [] @ ys @ vs" using True by auto
    ultimately show ?thesis by fastforce
  next
    case False
    then have l: "strstr_loop h n m = strstr_loop (Suc h) n m" using eq h by (simp add: strstr_loop.simps [of h])
    have s: "x # xs = us @ ys @ vs \<longleftrightarrow> (\<exists>us'. us = x # us' \<and> xs = us' @ ys @ vs)" for us vs
      using False by (cases us) auto
    obtain r where r: "strstr_loop (Suc h) n m = Some r" "case r of None \<Rightarrow> \<forall>us vs. xs \<noteq> us @ ys @ vs
     | Some p \<Rightarrow> \<exists>us vs. xs = us @ ys @ vs \<and> p = Suc h + length us \<and> (\<forall>us' vs'. xs = us' @ ys @ vs' \<longrightarrow> length us \<le> length us')"
      using Cons.IH [OF h(3) Cons.prems(2,3)] by blast
    show ?thesis
    proof (cases r)
      case None
      then show ?thesis using r l s by auto
    next
      case (Some p)
      then obtain us vs where u: "xs = us @ ys @ vs" "p = Suc h + length us"
        "\<forall>us' vs'. xs = us' @ ys @ vs' \<longrightarrow> length us \<le> length us'" using r(2) by auto
      have "\<exists>us vs. x # xs = us @ ys @ vs \<and> p = h + length us \<and>
        (\<forall>us' vs'. x # xs = us' @ ys @ vs' \<longrightarrow> length us \<le> length us')"
        by (rule exI [of _ "x # us"], rule exI [of _ vs]) (use u s in auto)
      then show ?thesis using r(1) l Some by simp
    qed
  qed
qed

text \<open>
  \<open>strstr\<close> finds the first occurrence: the pointer it returns is the lowest position at which the
  needle stands in the haystack, and it returns null exactly when there is none.
\<close>

theorem strstr_first:
  assumes "str_at m h xs" and "str_at m n ys"
  shows "\<exists>r. strstr h n m = Some r \<and>
    (case r of None \<Rightarrow> \<forall>us vs. xs \<noteq> us @ ys @ vs
     | Some p \<Rightarrow> \<exists>us vs. xs = us @ ys @ vs \<and> p = h + length us \<and> (\<forall>us' vs'. xs = us' @ ys @ vs' \<longrightarrow> length us \<le> length us'))"
proof (cases ys)
  case Nil
  then show ?thesis using assms by (force simp: strstr_def)
next
  case (Cons y zs)
  then show ?thesis using assms strstr_loop_first [OF assms] by (simp add: strstr_def)
qed

theorem strstr_first_witness:
  "let m = [97, 98, 97, 98, 99, 0, 98, 99, 0] :: mem in \<exists>r. strstr 0 6 m = Some r \<and> r = Some 3"
proof -
  let ?m = "[97, 98, 97, 98, 99, 0, 98, 99, 0] :: mem"
  have a: "str_at ?m 0 [97, 98, 97, 98, 99]" "str_at ?m 6 [98, 99]" by simp_all
  have e: "strstr 0 6 ?m = Some (Some 3)" by code_simp
  show ?thesis using strstr_first [OF a] e by simp
qed

end
