(* ===== verification/Libc_Stdlib.thy ===== *)
theory Libc_Stdlib
  imports Libc_String "HOL-Library.Multiset"
begin

text \<open>
  The conversions, the sort and the search of the C library (\<open>libc/stdlib2.c\<close>, with the older
  handful in \<open>libc/malloc.c\<close> and the character classes of \<open>libc/posix.c\<close>).

  A string is the list of its bytes before the terminator, and the pointer of a parser is the
  list of bytes still to read: \<open>hd0\<close> of the empty list is the terminator.  The numbers are kept at
  their width: \<open>unsigned long long\<close> is a 64-bit word.
\<close>

section \<open>Character classes\<close>

definition isdigit :: "u8 \<Rightarrow> bool" where "isdigit c \<longleftrightarrow> c \<ge> 48 \<and> c \<le> 57"
definition isupper :: "u8 \<Rightarrow> bool" where "isupper c \<longleftrightarrow> c \<ge> 65 \<and> c \<le> 90"
definition islower :: "u8 \<Rightarrow> bool" where "islower c \<longleftrightarrow> c \<ge> 97 \<and> c \<le> 122"
definition isascii :: "u8 \<Rightarrow> bool" where "isascii c \<longleftrightarrow> c < 128"
definition isalpha :: "u8 \<Rightarrow> bool" where "isalpha c \<longleftrightarrow> isupper c \<or> islower c"
definition isalnum :: "u8 \<Rightarrow> bool" where "isalnum c \<longleftrightarrow> isalpha c \<or> isdigit c"
definition isxdigit :: "u8 \<Rightarrow> bool" where
  "isxdigit c \<longleftrightarrow> isdigit c \<or> c \<ge> 97 \<and> c \<le> 102 \<or> c \<ge> 65 \<and> c \<le> 70"
definition isspace :: "u8 \<Rightarrow> bool" where
  "isspace c \<longleftrightarrow> c = 32 \<or> c = 9 \<or> c = 10 \<or> c = 11 \<or> c = 12 \<or> c = 13"

definition isblank :: "u8 \<Rightarrow> bool" where "isblank c \<longleftrightarrow> c = 32 \<or> c = 9"
definition iscntrl :: "u8 \<Rightarrow> bool" where "iscntrl c \<longleftrightarrow> c < 32 \<or> c = 127"
definition isprint :: "u8 \<Rightarrow> bool" where "isprint c \<longleftrightarrow> c \<ge> 32 \<and> c < 127"
definition isgraph :: "u8 \<Rightarrow> bool" where "isgraph c \<longleftrightarrow> c > 32 \<and> c < 127"
definition ispunct :: "u8 \<Rightarrow> bool" where "ispunct c \<longleftrightarrow> isgraph c \<and> \<not> isalnum c"
definition tolower :: "u8 \<Rightarrow> u8" where "tolower c = (if isupper c then c + (97 - 65) else c)"
definition toupper :: "u8 \<Rightarrow> u8" where "toupper c = (if islower c then c - (97 - 65) else c)"

definition head0 :: "u8 list \<Rightarrow> u8" where "head0 p = (case p of [] \<Rightarrow> 0 | c # _ \<Rightarrow> c)"

section \<open>Integer conversion\<close>

text \<open>The digit a character stands for; \<^const>\<open>None\<close> ends the number.\<close>

definition digit_of :: "u8 \<Rightarrow> int option" where
  "digit_of c =
     (if c \<ge> 48 \<and> c \<le> 57 then Some (uint c - 48)
      else if c \<ge> 97 \<and> c \<le> 122 then Some (uint c - 97 + 10)
      else if c \<ge> 65 \<and> c \<le> 90 then Some (uint c - 65 + 10)
      else None)"

text \<open>The sign: whether there was a minus, and what follows.\<close>

definition strtox_sign :: "u8 list \<Rightarrow> bool \<times> u8 list" where
  "strtox_sign p = (if head0 p = 45 then (True, tl p) else if head0 p = 43 then (False, tl p) else (False, p))"

text \<open>The base and what follows its prefix.\<close>

definition strtox_base :: "int \<Rightarrow> u8 list \<Rightarrow> int \<times> u8 list" where
  "strtox_base base p =
     (if (base = 0 \<or> base = 16) \<and> head0 p = 48 \<and> (head0 (tl p) = 120 \<or> head0 (tl p) = 88) \<and> isxdigit (head0 (tl (tl p)))
      then (16, tl (tl p))
      else if base = 0 \<and> head0 p = 48 then (8, p)
      else if base = 0 then (10, p)
      else (base, p))"

fun strtox_digits :: "int \<Rightarrow> u64 \<Rightarrow> u64 \<Rightarrow> bool \<Rightarrow> u8 list \<Rightarrow> u64 \<times> bool \<times> u8 list" where
  "strtox_digits base limit v ovf [] = (v, ovf, [])"
| "strtox_digits base limit v ovf (c # p) =
     (case digit_of c of
        None \<Rightarrow> (v, ovf, c # p)
      | Some d \<Rightarrow>
          if d \<ge> base then (v, ovf, c # p)
          else if v > (limit - of_int d) div of_int base then strtox_digits base limit v True p
          else strtox_digits base limit (v * of_int base + of_int d) ovf p)"

text \<open>The value, the sign, whether \<open>errno\<close> became \<open>ERANGE\<close>, and the string at the end pointer.\<close>

definition strtox :: "u8 list \<Rightarrow> int \<Rightarrow> u64 \<Rightarrow> u64 \<times> bool \<times> bool \<times> u8 list" where
  "strtox s base limit =
     (let p = dropWhile isspace s;
          (neg, p) = strtox_sign p;
          (base, digits) = strtox_base base p;
          (v, ovf, p) = strtox_digits base limit 0 False digits
      in if p = digits then (0, False, False, s)
         else if ovf then (limit, neg, True, p)
         else (v, neg, False, p))"

definition strtoull :: "u8 list \<Rightarrow> int \<Rightarrow> u64 \<times> bool \<times> u8 list" where
  "strtoull s base =
     (let (v, neg, err, p) = strtox s base 18446744073709551615 in (if neg then - v else v, err, p))"

text \<open>\<open>unsigned long\<close> and \<open>unsigned long long\<close> have the same width here.\<close>

definition strtoul :: "u8 list \<Rightarrow> int \<Rightarrow> u64 \<times> bool \<times> u8 list" where
  "strtoul s base =
     (let (v, neg, err, p) = strtox s base 18446744073709551615 in (if neg then - v else v, err, p))"

definition strtoll :: "u8 list \<Rightarrow> int \<Rightarrow> int \<times> bool \<times> u8 list" where
  "strtoll s base =
     (let (v, neg, err, p) = strtox s base (9223372036854775807 + 1)
      in if \<not> neg \<and> v > 9223372036854775807 then (9223372036854775807, True, p)
         else if neg \<and> v > 9223372036854775807 + 1 then (- 9223372036854775807 - 1, True, p)
         else (if neg then sint (- v) else sint v, err, p))"

definition atoll :: "u8 list \<Rightarrow> int" where "atoll s = fst (strtoll s 10)"

text \<open>The older \<open>strtol\<close>, which has no overflow check: its accumulator wraps at 64 bits.\<close>

fun strtol_digits :: "int \<Rightarrow> u64 \<Rightarrow> u8 list \<Rightarrow> u64 \<times> u8 list" where
  "strtol_digits base v [] = (v, [])"
| "strtol_digits base v (c # p) =
     (case digit_of c of
        None \<Rightarrow> (v, c # p)
      | Some d \<Rightarrow> if d \<ge> base then (v, c # p) else strtol_digits base (v * of_int base + of_int d) p)"

definition strtol :: "u8 list \<Rightarrow> int \<Rightarrow> int \<times> u8 list" where
  "strtol s base =
     (let p = dropWhile (\<lambda>c. c = 32 \<or> c = 9 \<or> c = 10 \<or> c = 13) s;
          (neg, p) = strtox_sign p;
          (base, p) = (if (base = 0 \<or> base = 16) \<and> head0 p = 48 \<and> (head0 (tl p) = 120 \<or> head0 (tl p) = 88) then (16, tl (tl p))
                       else if base = 0 \<and> head0 p = 48 then (8, p) else if base = 0 then (10, p) else (base, p));
          (v, p) = strtol_digits base 0 p
      in (sint (if neg then - v else v), p))"

definition atol :: "u8 list \<Rightarrow> int" where "atol s = fst (strtol s 10)"

definition atoi :: "u8 list \<Rightarrow> int" where "atoi s = sint (word_of_int (fst (strtol s 10)) :: u32)"

section \<open>Random numbers\<close>

definition rand_r :: "u32 \<Rightarrow> u32 \<times> u32" where
  "rand_r seed = (let seed = seed * 1664525 + 1013904223 in (seed, drop_bit 1 seed AND 0x7FFFFFFF))"

definition srand :: "u32 \<Rightarrow> u64" where "srand seed = ucast seed"

definition rand :: "u64 \<Rightarrow> u64 \<times> u32" where
  "rand st = (let st = st * 1664525 + 1013904223 in (st, ucast (drop_bit 1 st AND 0x7FFFFFFF)))"

section \<open>Sorting and searching\<close>

text \<open>\<open>swap_bytes\<close> on memory; the sort below moves whole elements with it.\<close>

fun swap_bytes :: "nat \<Rightarrow> nat \<Rightarrow> nat \<Rightarrow> mem \<Rightarrow> mem option" where
  "swap_bytes a b 0 m = Some m"
| "swap_bytes a b (Suc n) m =
     Option.bind (rd m a) (\<lambda>t. Option.bind (rd m b) (\<lambda>v. Option.bind (wr a v m) (\<lambda>m.
       Option.bind (wr b t m) (\<lambda>m. swap_bytes (a + 1) (b + 1) n m))))"

text \<open>The array is the list of its elements, each of \<open>size\<close> bytes.\<close>

definition swap_elems :: "nat \<Rightarrow> nat \<Rightarrow> 'a list \<Rightarrow> 'a list" where
  "swap_elems i j xs = xs[i := xs ! j, j := xs ! i]"

function sift :: "('a \<Rightarrow> 'a \<Rightarrow> int) \<Rightarrow> nat \<Rightarrow> nat \<Rightarrow> 'a list \<Rightarrow> 'a list" where
  "sift cmp g j xs =
     (if j < g \<or> g = 0 then xs
      else if cmp (xs ! (j - g)) (xs ! j) \<le> 0 then xs
      else sift cmp g (j - g) (swap_elems j (j - g) xs))"
  by pat_completeness auto
termination by (relation "measure (\<lambda>(cmp, g, j, xs). j)") auto

definition sort_pass :: "('a \<Rightarrow> 'a \<Rightarrow> int) \<Rightarrow> nat \<Rightarrow> 'a list \<Rightarrow> 'a list" where
  "sort_pass cmp g xs = fold (sift cmp g) [g..<length xs] xs"

definition sort_gaps :: "nat list" where
  "sort_gaps = [1, 4, 10, 23, 57, 132, 301, 701, 1577, 3548, 7983, 17962, 40414, 90931, 204595, 460339, 1035763, 2330467]"

text \<open>\<open>while (gi > 0 && gaps[gi] >= n) gi--\<close>.\<close>

fun gap_index :: "nat \<Rightarrow> nat \<Rightarrow> nat" where
  "gap_index n 0 = 0"
| "gap_index n (Suc gi) = (if sort_gaps ! Suc gi \<ge> n then gap_index n gi else Suc gi)"

definition qsort :: "('a \<Rightarrow> 'a \<Rightarrow> int) \<Rightarrow> 'a list \<Rightarrow> nat \<Rightarrow> 'a list" where
  "qsort cmp xs sz =
     (if sz = 0 \<or> length xs < 2 then xs
      else fold (\<lambda>gi. sort_pass cmp (sort_gaps ! gi)) (rev [0..<Suc (gap_index (length xs) (length sort_gaps - 1))]) xs)"

function bsearch_loop :: "('k \<Rightarrow> 'a \<Rightarrow> int) \<Rightarrow> 'k \<Rightarrow> 'a list \<Rightarrow> nat \<Rightarrow> nat \<Rightarrow> nat option" where
  "bsearch_loop cmp key xs lo hi =
     (if lo < hi
      then let mid = lo + (hi - lo) div 2; r = cmp key (xs ! mid)
           in if r = 0 then Some mid else if r < 0 then bsearch_loop cmp key xs lo mid
              else bsearch_loop cmp key xs (mid + 1) hi
      else None)"
  by pat_completeness auto
termination by (relation "measure (\<lambda>(cmp, key, xs, lo, hi). hi - lo)") auto

definition bsearch :: "('k \<Rightarrow> 'a \<Rightarrow> int) \<Rightarrow> 'k \<Rightarrow> 'a list \<Rightarrow> nat \<Rightarrow> nat option" where
  "bsearch cmp key xs sz = (if sz = 0 then None else bsearch_loop cmp key xs 0 (length xs))"

section \<open>String helpers\<close>

definition strlcpy :: "nat \<Rightarrow> nat \<Rightarrow> nat \<Rightarrow> mem \<Rightarrow> (nat \<times> mem) option" where
  "strlcpy dst src cap m =
     Option.bind (strlen src m) (\<lambda>n.
       if cap = 0 then Some (n, m)
       else let c = (if n < cap - 1 then n else cap - 1)
            in Option.bind (memcpy dst src c m) (\<lambda>m. Option.bind (wr (dst + c) 0 m) (\<lambda>m. Some (n, m))))"

definition strlcat :: "nat \<Rightarrow> nat \<Rightarrow> nat \<Rightarrow> mem \<Rightarrow> (nat \<times> mem) option" where
  "strlcat dst src cap m =
     Option.bind (strnlen dst cap m) (\<lambda>d. Option.bind (strlen src m) (\<lambda>s.
       if d = cap then Some (cap + s, m)
       else let room = cap - d - 1; c = (if s < room then s else room)
            in Option.bind (memcpy (dst + d) src c m) (\<lambda>m. Option.bind (wr (dst + d + c) 0 m) (\<lambda>m. Some (d + s, m)))))"

text \<open>\<open>strtok\<close> with the caller's own save slot.\<close>

definition strtok_r :: "nat option \<Rightarrow> nat \<Rightarrow> nat option \<Rightarrow> mem \<Rightarrow> (nat option \<times> nat option \<times> mem) option" where
  "strtok_r s sep save m =
     (case (if s = None then save else s) of
        None \<Rightarrow> Some (None, save, m)
      | Some s \<Rightarrow>
          Option.bind (strspn s sep m) (\<lambda>k. Option.bind (rd m (s + k)) (\<lambda>v.
            if v = 0 then Some (None, None, m)
            else let tok = s + k in
              Option.bind (strcspn tok sep m) (\<lambda>j. Option.bind (rd m (tok + j)) (\<lambda>v.
                if v \<noteq> 0 then Some (Some tok, Some (tok + j + 1), m[tok + j := 0])
                else Some (Some tok, None, m))))))"

definition strpbrk :: "nat \<Rightarrow> nat \<Rightarrow> mem \<Rightarrow> nat option option" where
  "strpbrk s accept m =
     Option.bind (strcspn s accept m) (\<lambda>k. Option.bind (rd m (s + k)) (\<lambda>v. Some (if v \<noteq> 0 then Some (s + k) else None)))"

function strchrnul :: "nat \<Rightarrow> u8 \<Rightarrow> mem \<Rightarrow> nat option" where
  "strchrnul s c m =
     (if s < length m then if m ! s \<noteq> 0 \<and> m ! s \<noteq> c then strchrnul (s + 1) c m else Some s else None)"
  by pat_completeness auto
termination by (relation "measure (\<lambda>(s, c, m). length m - s)") auto

fun memrchr :: "nat \<Rightarrow> u8 \<Rightarrow> nat \<Rightarrow> mem \<Rightarrow> nat option option" where
  "memrchr s c 0 m = Some None"
| "memrchr s c (Suc n) m =
     Option.bind (rd m (s + n)) (\<lambda>v. if v = c then Some (Some (s + n)) else memrchr s c n m)"

definition mempcpy :: "nat \<Rightarrow> nat \<Rightarrow> nat \<Rightarrow> mem \<Rightarrow> (nat \<times> mem) option" where
  "mempcpy dst src n m = map_option (\<lambda>m. (dst + n, m)) (memcpy dst src n m)"

function strcasecmp :: "nat \<Rightarrow> nat \<Rightarrow> mem \<Rightarrow> int option" where
  "strcasecmp a b m =
     (if a < length m \<and> b < length m
      then let x = tolower (m ! a); y = tolower (m ! b)
           in if x \<noteq> y \<or> x = 0 then Some (uint x - uint y) else strcasecmp (a + 1) (b + 1) m
      else None)"
  by pat_completeness auto
termination by (relation "measure (\<lambda>(a, b, m). length m - a)") auto

fun strncasecmp :: "nat \<Rightarrow> nat \<Rightarrow> nat \<Rightarrow> mem \<Rightarrow> int option" where
  "strncasecmp a b 0 m = Some 0"
| "strncasecmp a b (Suc n) m =
     Option.bind (rd m a) (\<lambda>u. Option.bind (rd m b) (\<lambda>v.
       let x = tolower u; y = tolower v
       in if x \<noteq> y \<or> x = 0 then Some (uint x - uint y) else strncasecmp (a + 1) (b + 1) n m))"

function strcasestr_loop :: "nat \<Rightarrow> nat \<Rightarrow> nat \<Rightarrow> mem \<Rightarrow> nat option option" where
  "strcasestr_loop hay needle n m =
     (if hay < length m
      then if m ! hay = 0 then Some None
           else case strncasecmp hay needle n m of
             None \<Rightarrow> None
           | Some r \<Rightarrow> if r = 0 then Some (Some hay) else strcasestr_loop (hay + 1) needle n m
      else None)"
  by pat_completeness auto
termination by (relation "measure (\<lambda>(h, needle, n, m). length m - h)") auto

definition strcasestr :: "nat \<Rightarrow> nat \<Rightarrow> mem \<Rightarrow> nat option option" where
  "strcasestr hay needle m =
     Option.bind (strlen needle m) (\<lambda>n. if n = 0 then Some (Some hay) else strcasestr_loop hay needle n m)"

definition bzero :: "nat \<Rightarrow> nat \<Rightarrow> mem \<Rightarrow> mem option" where "bzero p n m = memset p 0 n m"
definition bcopy :: "nat \<Rightarrow> nat \<Rightarrow> nat \<Rightarrow> mem \<Rightarrow> mem option" where "bcopy src dst n m = memmove dst src n m"
definition bcmp :: "nat \<Rightarrow> nat \<Rightarrow> nat \<Rightarrow> mem \<Rightarrow> int option" where "bcmp a b n m = memcmp a b n m"

definition ffs :: "u32 \<Rightarrow> nat" where "ffs v = (if v = 0 then 0 else ctz v + 1)"

declare strcasecmp.simps [simp del] strcasestr_loop.simps [simp del]
declare sift.simps [simp del] bsearch_loop.simps [simp del] strchrnul.simps [simp del]

section \<open>The sort\<close>

lemma swap_mset: "i < length xs \<Longrightarrow> j < length xs \<Longrightarrow> mset (swap_elems i j xs) = mset xs"
  by (simp add: swap_elems_def mset_swap)

lemma swap_length [simp]: "length (swap_elems i j xs) = length xs"
  by (simp add: swap_elems_def)

lemma sift_length [simp]: "length (sift cmp g j xs) = length xs"
  by (induction cmp g j xs rule: sift.induct) (subst sift.simps, simp)

lemma sift_mset: "j < length xs \<Longrightarrow> mset (sift cmp g j xs) = mset xs"
proof (induction cmp g j xs rule: sift.induct)
  case (1 cmp g j xs)
  then show ?case by (subst sift.simps) (auto simp: swap_mset)
qed

lemma fold_sift_mset: "\<forall>j \<in> set js. j < length xs \<Longrightarrow> mset (fold (sift cmp g) js xs) = mset xs \<and> length (fold (sift cmp g) js xs) = length xs"
  by (induction js arbitrary: xs) (auto simp: sift_mset)

lemma sort_pass_mset: "mset (sort_pass cmp g xs) = mset xs"
  using fold_sift_mset [of "[g..<length xs]" xs cmp g] by (simp add: sort_pass_def)

lemma fold_pass_mset: "mset (fold (\<lambda>gi. sort_pass cmp (gs ! gi)) is xs) = mset xs"
  by (induction "is" arbitrary: xs) (simp_all add: sort_pass_mset)

text \<open>A comparison function a caller may pass: it orders every two elements, transitively.\<close>

definition comparison :: "('a \<Rightarrow> 'a \<Rightarrow> int) \<Rightarrow> bool" where
  "comparison cmp \<longleftrightarrow> (\<forall>x y. cmp x y \<le> 0 \<or> cmp y x \<le> 0) \<and> (\<forall>x y z. cmp x y \<le> 0 \<longrightarrow> cmp y z \<le> 0 \<longrightarrow> cmp x z \<le> 0)"

text \<open>Everything up to \<open>i\<close> is in order, except that the element at \<open>j\<close> may still be too far right.\<close>

definition but_one :: "('a \<Rightarrow> 'a \<Rightarrow> int) \<Rightarrow> nat \<Rightarrow> nat \<Rightarrow> 'a list \<Rightarrow> bool" where
  "but_one cmp i j xs \<longleftrightarrow> (\<forall>p q. p < q \<longrightarrow> q \<le> i \<longrightarrow> q \<noteq> j \<longrightarrow> cmp (xs ! p) (xs ! q) \<le> 0)"

definition in_order :: "('a \<Rightarrow> 'a \<Rightarrow> int) \<Rightarrow> nat \<Rightarrow> 'a list \<Rightarrow> bool" where
  "in_order cmp i xs \<longleftrightarrow> (\<forall>p q. p < q \<longrightarrow> q < i \<longrightarrow> cmp (xs ! p) (xs ! q) \<le> 0)"

lemma but_one_done:
  assumes "comparison cmp" and "but_one cmp i j xs" and "j = 0 \<or> cmp (xs ! (j - 1)) (xs ! j) \<le> 0"
  shows "in_order cmp (Suc i) xs"
proof -
  have "cmp (xs ! p) (xs ! j) \<le> 0" if "p < j" "j \<le> i" for p
  proof (cases "p = j - 1")
    case True
    then show ?thesis using assms(3) that by auto
  next
    case False
    then have "cmp (xs ! p) (xs ! (j - 1)) \<le> 0" using that assms(2) by (auto simp: but_one_def)
    then show ?thesis using assms(1,3) that unfolding comparison_def by (metis not_less_zero)
  qed
  then show ?thesis using assms(2) by (auto simp: but_one_def in_order_def less_Suc_eq_le)
qed

lemma but_one_swap:
  assumes "comparison cmp" and "but_one cmp i (Suc j) xs" and "Suc j \<le> i" and "i < length xs"
    and "\<not> cmp (xs ! j) (xs ! Suc j) \<le> 0"
  shows "but_one cmp i j (swap_elems (Suc j) j xs)"
proof -
  have t: "cmp (xs ! Suc j) (xs ! j) \<le> 0" using assms(1,5) by (auto simp: comparison_def)
  let ?ys = "swap_elems (Suc j) j xs"
  have n: "?ys ! k = (if k = j then xs ! Suc j else if k = Suc j then xs ! j else xs ! k)" for k
    using assms(3,4) by (auto simp: swap_elems_def nth_list_update)
  have "cmp (?ys ! p) (?ys ! q) \<le> 0" if "p < q" "q \<le> i" "q \<noteq> j" for p q
  proof (cases "q = Suc j")
    case True
    then show ?thesis using that t assms(2,3) by (cases "p = j") (auto simp: n but_one_def)
  next
    case False
    then show ?thesis using that assms(2) by (auto simp: n but_one_def)
  qed
  then show ?thesis by (simp add: but_one_def)
qed

lemma sift_in_order:
  assumes "comparison cmp" and "but_one cmp i j xs" and "j \<le> i" and "i < length xs"
  shows "in_order cmp (Suc i) (sift cmp 1 j xs)"
  using assms(2-)
proof (induction j arbitrary: xs)
  case 0
  then show ?case using but_one_done [OF assms(1)] by (simp add: sift.simps)
next
  case (Suc j)
  show ?case
  proof (cases "cmp (xs ! j) (xs ! Suc j) \<le> 0")
    case True
    then show ?thesis using but_one_done [OF assms(1) Suc.prems(1)] by (simp add: sift.simps)
  next
    case False
    then have "sift cmp 1 (Suc j) xs = sift cmp 1 j (swap_elems (Suc j) j xs)" by (subst sift.simps) simp
    then show ?thesis using Suc.IH [OF but_one_swap [OF assms(1) Suc.prems False]] Suc.prems by simp
  qed
qed

lemma fold_sift_in_order:
  assumes "comparison cmp"
  shows "k \<le> length xs \<Longrightarrow> 1 \<le> k \<Longrightarrow> in_order cmp k (fold (sift cmp 1) [1..<k] xs)"
proof (induction k)
  case (Suc k)
  show ?case
  proof (cases "k = 0")
    case False
    let ?ys = "fold (sift cmp 1) [1..<k] xs"
    have o: "in_order cmp k ?ys" using Suc False by simp
    have "length ?ys = length xs" using fold_sift_mset [of "[1..<k]" xs cmp 1] Suc.prems by auto
    moreover have "but_one cmp k k ?ys" using o by (auto simp: but_one_def in_order_def)
    ultimately show ?thesis using sift_in_order [OF assms, of k k ?ys] Suc.prems False by simp
  qed (simp add: in_order_def)
qed simp

lemma sort_pass_sorted:
  assumes "comparison cmp"
  shows "sorted_wrt (\<lambda>x y. cmp x y \<le> 0) (sort_pass cmp 1 xs)"
proof -
  let ?ys = "sort_pass cmp 1 xs"
  have l: "length ?ys = length xs" using sort_pass_mset [of cmp 1 xs] mset_eq_length by blast
  have "in_order cmp (length xs) ?ys"
    using fold_sift_in_order [OF assms, of "length xs" xs] by (cases "length xs") (auto simp: sort_pass_def in_order_def)
  then show ?thesis using l by (auto simp: sorted_wrt_iff_nth_less in_order_def)
qed

lemma qsort_spec:
  assumes "comparison cmp" and "sz \<noteq> 0"
  shows "sorted_wrt (\<lambda>x y. cmp x y \<le> 0) (qsort cmp xs sz) \<and> mset (qsort cmp xs sz) = mset xs"
proof (cases "length xs < 2")
  case True
  then show ?thesis by (cases xs) (auto simp: qsort_def)
next
  case False
  let ?k = "gap_index (length xs) (length sort_gaps - 1)"
  let ?f = "\<lambda>gi. sort_pass cmp (sort_gaps ! gi)"
  have "rev [0..<Suc ?k] = rev [1..<Suc ?k] @ [0]" by (simp add: upt_conv_Cons del: upt_Suc)
  then have "qsort cmp xs sz = sort_pass cmp 1 (fold ?f (rev [1..<Suc ?k]) xs)"
    using False assms(2) by (simp add: qsort_def sort_gaps_def del: upt_Suc)
  then show ?thesis using sort_pass_sorted [OF assms(1)] by (simp add: sort_pass_mset fold_pass_mset)
qed

text \<open>
  C22: \<open>qsort\<close> sorts: for any comparison function that orders all elements transitively, the array it
  leaves is in order and holds exactly the elements it was given, whatever the number of elements
  and so whichever gaps are used.
\<close>

theorem qsort_sorts:
  assumes "comparison cmp" and "sz \<noteq> 0"
  shows "sorted_wrt (\<lambda>x y. cmp x y \<le> 0) (qsort cmp xs sz) \<and> mset (qsort cmp xs sz) = mset xs"
  by (rule qsort_spec [OF assms])

theorem qsort_sorts_witness: "sorted_wrt (\<lambda>x y. x - y \<le> (0 :: int)) (qsort (\<lambda>x y. x - y) [5, 3, 9, 1, 7, 2] 8)"
proof -
  have "comparison (\<lambda>x y. x - y :: int)" by (auto simp: comparison_def)
  then show ?thesis using qsort_sorts [of "\<lambda>x y. x - y" 8 "[5, 3, 9, 1, 7, 2]"] by simp
qed

section \<open>The search\<close>

text \<open>The key splits the array: past a smaller key the rest is larger, before a larger key the rest is smaller.\<close>

definition splits_at :: "('k \<Rightarrow> 'a \<Rightarrow> int) \<Rightarrow> 'k \<Rightarrow> 'a list \<Rightarrow> bool" where
  "splits_at cmp key xs \<longleftrightarrow> (\<forall>i j. i < j \<longrightarrow> j < length xs \<longrightarrow>
     (cmp key (xs ! i) < 0 \<longrightarrow> cmp key (xs ! j) < 0) \<and> (cmp key (xs ! j) > 0 \<longrightarrow> cmp key (xs ! i) > 0))"

lemma bsearch_loop_spec:
  assumes "splits_at cmp key xs" and "hi \<le> length xs"
    and "\<forall>i < length xs. cmp key (xs ! i) = 0 \<longrightarrow> lo \<le> i \<and> i < hi"
  shows "case bsearch_loop cmp key xs lo hi of
      None \<Rightarrow> \<forall>i < length xs. cmp key (xs ! i) \<noteq> 0 | Some i \<Rightarrow> i < length xs \<and> cmp key (xs ! i) = 0"
  using assms
proof (induction cmp key xs lo hi rule: bsearch_loop.induct)
  case (1 cmp key xs lo hi)
  define mid where "mid = lo + (hi - lo) div 2"
  show ?case
  proof (cases "lo < hi")
    case True
    then have m: "lo \<le> mid" "mid < hi" by (auto simp: mid_def)
    then have l: "mid < length xs" using 1(4) by simp
    consider "cmp key (xs ! mid) = 0" | "cmp key (xs ! mid) < 0" | "cmp key (xs ! mid) > 0" by linarith
    then show ?thesis
    proof cases
      case 1
      then show ?thesis using True l by (subst bsearch_loop.simps) (simp add: mid_def Let_def)
    next
      case 2
      have "\<forall>i < length xs. cmp key (xs ! i) = 0 \<longrightarrow> lo \<le> i \<and> i < mid"
        using "1.prems" 2 unfolding splits_at_def by (metis less_irrefl linorder_neqE_nat)
      then show ?thesis using "1.IH"(1) [OF True mid_def refl] "1.prems" 2 m True
        by (subst bsearch_loop.simps) (simp add: mid_def Let_def)
    next
      case 3
      have "\<forall>i < length xs. cmp key (xs ! i) = 0 \<longrightarrow> mid + 1 \<le> i \<and> i < hi"
        using "1.prems" 3 l unfolding splits_at_def by (metis less_irrefl linorder_neqE_nat Suc_eq_plus1 Suc_leI)
      then show ?thesis using "1.IH"(2) [OF True mid_def refl] "1.prems" 3 m True
        by (subst bsearch_loop.simps) (simp add: mid_def Let_def)
    qed
  next
    case False
    then show ?thesis using "1.prems"(3) by (subst bsearch_loop.simps) auto
  qed
qed

text \<open>
  C23: \<open>bsearch\<close> on an array \<open>qsort\<close> has sorted with the same comparison function finds a matching
  element exactly when the array that was sorted had one.
\<close>

theorem bsearch_after_qsort:
  assumes "comparison cmp" and "\<forall>x y. (cmp x y < 0) = (cmp y x > 0)" and "sz \<noteq> 0"
  shows "case bsearch cmp key (qsort cmp xs sz) sz of
      None \<Rightarrow> \<forall>x \<in> set xs. cmp key x \<noteq> 0
    | Some i \<Rightarrow> i < length xs \<and> qsort cmp xs sz ! i \<in> set xs \<and> cmp key (qsort cmp xs sz ! i) = 0"
proof -
  let ?ys = "qsort cmp xs sz"
  have q: "sorted_wrt (\<lambda>x y. cmp x y \<le> 0) ?ys" "mset ?ys = mset xs"
    using qsort_spec [OF assms(1,3)] by blast+
  have l: "length ?ys = length xs" "set ?ys = set xs" using q(2) mset_eq_length mset_eq_setD by blast+
  have "splits_at cmp key ?ys"
    unfolding splits_at_def
  proof (intro allI impI conjI)
    fix i j assume ij: "i < j" "j < length ?ys"
    then have o: "cmp (?ys ! i) (?ys ! j) \<le> 0" using q(1) by (simp add: sorted_wrt_iff_nth_less)
    note tr = assms(1) [unfolded comparison_def] and sw = assms(2)
    show "cmp key (?ys ! j) < 0" if "cmp key (?ys ! i) < 0"
    proof (rule ccontr)
      assume "\<not> cmp key (?ys ! j) < 0"
      then have "cmp (?ys ! j) key \<le> 0" using sw by (metis linorder_not_less)
      then have "cmp (?ys ! i) key \<le> 0" using o tr by blast
      then show False using that sw by (metis linorder_not_less)
    qed
    show "cmp key (?ys ! i) > 0" if "cmp key (?ys ! j) > 0"
    proof (rule ccontr)
      assume "\<not> cmp key (?ys ! i) > 0"
      then have "cmp key (?ys ! j) \<le> 0" using o tr by (metis linorder_not_less)
      then show False using that by simp
    qed
  qed
  then have b: "case bsearch cmp key ?ys sz of
      None \<Rightarrow> \<forall>i < length ?ys. cmp key (?ys ! i) \<noteq> 0 | Some i \<Rightarrow> i < length ?ys \<and> cmp key (?ys ! i) = 0"
    using bsearch_loop_spec [of cmp key ?ys "length ?ys" 0] assms(3) by (simp add: bsearch_def)
  show ?thesis
  proof (cases "bsearch cmp key ?ys sz")
    case None
    then have "\<forall>x \<in> set ?ys. cmp key x \<noteq> 0" using b by (auto simp: in_set_conv_nth)
    then show ?thesis using None l by simp
  next
    case (Some i)
    then have "i < length ?ys" "cmp key (?ys ! i) = 0" using b by simp_all
    then show ?thesis using Some l nth_mem [of i ?ys] by simp
  qed
qed

theorem bsearch_after_qsort_witness:
  "case bsearch (\<lambda>x y. x - y :: int) 7 (qsort (\<lambda>x y. x - y) [5, 3, 9, 1, 7, 2] 8) 8 of
     None \<Rightarrow> False | Some i \<Rightarrow> qsort (\<lambda>x y. x - y) [5, 3, 9, 1, 7, 2] 8 ! i = 7"
proof -
  have "comparison (\<lambda>x y. x - y :: int)" by (auto simp: comparison_def)
  from bsearch_after_qsort [OF this, where sz = 8 and key = 7 and xs = "[5, 3, 9, 1, 7, 2]"] show ?thesis
    by (auto split: option.splits)
qed

section \<open>Integer conversion: what it computes\<close>

text \<open>The digits a number of the base starts with, and their value.\<close>

definition is_digit :: "int \<Rightarrow> u8 \<Rightarrow> bool" where
  "is_digit base c \<longleftrightarrow> (case digit_of c of None \<Rightarrow> False | Some d \<Rightarrow> d < base)"

definition digits_value :: "int \<Rightarrow> u8 list \<Rightarrow> int" where
  "digits_value base cs = foldl (\<lambda>v c. v * base + the (digit_of c)) 0 cs"

lemma digit_of_range: "digit_of c = Some d \<Longrightarrow> 0 \<le> d \<and> d < 36"
proof -
  assume a: "digit_of c = Some d"
  have "uint c < 256" using uint_bounded [of c] by simp
  moreover have "c \<ge> 48 \<Longrightarrow> 48 \<le> uint c" "c \<ge> 97 \<Longrightarrow> 97 \<le> uint c" "c \<ge> 65 \<Longrightarrow> 65 \<le> uint c"
    "c \<le> 57 \<Longrightarrow> uint c \<le> 57" "c \<le> 122 \<Longrightarrow> uint c \<le> 122" "c \<le> 90 \<Longrightarrow> uint c \<le> 90"
    by (simp_all add: word_le_def)
  ultimately show ?thesis using a by (auto simp: digit_of_def split: if_splits)
qed

lemma foldl_mono:
  assumes "\<forall>c \<in> set cs. is_digit base c" and "2 \<le> base" and "0 \<le> v"
  shows "v \<le> foldl (\<lambda>v c. v * base + the (digit_of c)) v cs"
  using assms
proof (induction cs arbitrary: v)
  case (Cons c cs)
  obtain d where d: "digit_of c = Some d" "d < base" using Cons.prems(1) by (auto simp: is_digit_def split: option.splits)
  have d0: "0 \<le> d" using digit_of_range [OF d(1)] by simp
  have "v \<le> v * base + d" using Cons.prems(2,3) d0 mult_left_mono [of 1 base v] by simp
  moreover have "0 \<le> v * base + d" using Cons.prems(2,3) d0 by simp
  ultimately show ?case using Cons.IH [of "v * base + d"] Cons.prems d by simp
qed simp

lemma fits_step:
  assumes "2 \<le> base" and "base \<le> 36" and "0 \<le> d" and "d < base" and "36 \<le> uint limit"
  shows "v > (limit - of_int d) div of_int base \<longleftrightarrow> uint v * base + d > uint (limit :: u64)"
    and "uint v * base + d \<le> uint limit \<Longrightarrow> uint (v * of_int base + of_int d) = uint v * base + d"
proof -
  have b: "uint (of_int base :: u64) = base" "uint (of_int d :: u64) = d"
    using assms by (simp_all add: uint_word_of_int_eq take_bit_int_eq_self)
  have l: "uint (limit - of_int d) = uint limit - d"
    using assms(2-5) b(2) by (simp add: uint_sub_if')
  have "v > (limit - of_int d) div of_int base \<longleftrightarrow> (uint limit - d) div base < uint v"
    by (simp add: word_less_def uint_div b l)
  also have "\<dots> \<longleftrightarrow> uint limit - d < uint v * base"
  proof -
    have "uint v * base \<le> uint limit - d \<Longrightarrow> uint v \<le> (uint limit - d) div base"
      using zdiv_mono1 [of "uint v * base" "uint limit - d" base] assms(1) by simp
    moreover have "uint v \<le> (uint limit - d) div base \<Longrightarrow> uint v * base \<le> uint limit - d"
      using mult_right_mono [of "uint v" "(uint limit - d) div base" base] assms(1)
        div_mult_mod_eq [of "uint limit - d" base] pos_mod_sign [of base "uint limit - d"] by linarith
    ultimately show ?thesis by linarith
  qed
  finally show "v > (limit - of_int d) div of_int base \<longleftrightarrow> uint v * base + d > uint limit" by linarith
  assume f: "uint v * base + d \<le> uint limit"
  have "uint limit < 2 ^ 64" using uint_bounded [of limit] by simp
  then have "uint v * base + d < 2 ^ 64" "uint v * base < 2 ^ 64" "0 \<le> uint v * base" using f assms by simp_all
  then show "uint (v * of_int base + of_int d) = uint v * base + d"
    using b by (simp add: uint_word_ariths assms(3))
qed

lemma strtox_digits_spec:
  assumes "2 \<le> base" and "base \<le> 36" and "36 \<le> uint limit"
  shows "strtox_digits base limit v ovf p = (v', ovf', p') \<Longrightarrow> uint v \<le> uint limit \<Longrightarrow>
    p' = dropWhile (is_digit base) p \<and>
    (ovf' \<longleftrightarrow> ovf \<or> foldl (\<lambda>v c. v * base + the (digit_of c)) (uint v) (takeWhile (is_digit base) p) > uint limit) \<and>
    (\<not> ovf' \<longrightarrow> uint v' = foldl (\<lambda>v c. v * base + the (digit_of c)) (uint v) (takeWhile (is_digit base) p))"
proof (induction p arbitrary: v ovf)
  case Nil
  then show ?case by (simp add: not_less)
next
  case (Cons c p)
  let ?cs = "takeWhile (is_digit base) p"
  show ?case
  proof (cases "is_digit base c")
    case False
    then have "strtox_digits base limit v ovf (c # p) = (v, ovf, c # p)" by (auto simp: is_digit_def split: option.splits)
    then show ?thesis using Cons.prems False by auto
  next
    case True
    then obtain d where d: "digit_of c = Some d" "d < base" by (auto simp: is_digit_def split: option.splits)
    have d0: "0 \<le> d" using digit_of_range [OF d(1)] by simp
    note st = fits_step [OF assms(1,2) d0 d(2) assms(3), of v]
    have t: "takeWhile (is_digit base) (c # p) = c # ?cs" "dropWhile (is_digit base) (c # p) = dropWhile (is_digit base) p"
      using True by simp_all
    have nd: "(base \<le> d) = False" using d(2) by simp
    have u: "strtox_digits base limit v ovf (c # p) =
        (if uint v * base + d > uint limit then strtox_digits base limit v True p
         else strtox_digits base limit (v * of_int base + of_int d) ovf p)"
      by (simp only: strtox_digits.simps d(1) option.case nd if_False st(1))
    show ?thesis
    proof (cases "uint v * base + d > uint limit")
      case big: True
      then have "strtox_digits base limit v True p = (v', ovf', p')" using Cons.prems(1) unfolding u by (simp only: if_True)
      note ih = Cons.IH [OF this Cons.prems(2)]
      have "0 \<le> uint v * base + d" using assms(1) d0 by simp
      then have "uint v * base + d \<le> foldl (\<lambda>v c. v * base + the (digit_of c)) (uint v * base + d) ?cs"
        by (intro foldl_mono assms(1)) (auto dest: set_takeWhileD)
      then have "uint limit < foldl (\<lambda>v c. v * base + the (digit_of c)) (uint v * base + d) ?cs" using big by linarith
      then show ?thesis unfolding t foldl.simps d(1) option.sel using ih by blast
    next
      case False
      then have f: "uint v * base + d \<le> uint limit" by simp
      have "strtox_digits base limit (v * of_int base + of_int d) ovf p = (v', ovf', p')"
        using Cons.prems(1) False unfolding u by (simp only: if_False)
      note ih = Cons.IH [OF this, unfolded st(2) [OF f], OF f]
      show ?thesis unfolding t foldl.simps d(1) option.sel by (rule ih)
    qed
  qed
qed

lemma sint_small: "uint (v :: u64) < 2 ^ 63 \<Longrightarrow> sint v = uint v"
  using int_word_sint [of "uint v", where 'a = 64] by simp

lemma sint_minus_small: "uint (v :: u64) \<le> 2 ^ 63 \<Longrightarrow> sint (- v) = - uint v"
proof -
  assume "uint v \<le> 2 ^ 63"
  then have "uint v \<le> 9223372036854775808" by simp
  then have "(9223372036854775808 - uint v) mod 18446744073709551616 = 9223372036854775808 - uint v"
    using uint_ge_0 [of v] by (intro mod_pos_pos_trivial) linarith+
  then show ?thesis using int_word_sint [of "- uint v", where 'a = 64] by (simp add: wi_hom_syms)
qed

lemma strtoll_spec:
  fixes s :: "u8 list"
  assumes "2 \<le> base" and "base \<le> 36"
  defines "p1 \<equiv> snd (strtox_sign (dropWhile isspace s))"
  defines "neg \<equiv> fst (strtox_sign (dropWhile isspace s))"
  defines "p2 \<equiv> snd (strtox_base base p1)"
  defines "cs \<equiv> takeWhile (is_digit base) p2"
  defines "n \<equiv> (if neg then - digits_value base cs else digits_value base cs)"
  shows "strtoll s base =
    (if cs = [] then (0, False, s)
     else (max (- (2 ^ 63)) (min (2 ^ 63 - 1) n), n < - (2 ^ 63) \<or> n > 2 ^ 63 - 1, drop (length cs) p2))"
proof -
  obtain v ovf p where d: "strtox_digits base (9223372036854775807 + 1) 0 False p2 = (v, ovf, p)" by (metis prod_cases3)
  have b: "strtox_base base p1 = (base, p2)" using assms(1) by (auto simp: p2_def strtox_base_def)
  have sp: "p = dropWhile (is_digit base) p2" "ovf \<longleftrightarrow> digits_value base cs > 2 ^ 63" "\<not> ovf \<Longrightarrow> uint v = digits_value base cs"
    using strtox_digits_spec [OF assms(1,2) _ d] by (simp_all add: digits_value_def cs_def)
  have p: "p = drop (length cs) p2" unfolding sp(1) cs_def by (metis dropWhile_eq_drop)
  have e: "p = p2 \<longleftrightarrow> cs = []" unfolding cs_def sp(1) by (metis append_self_conv2 takeWhile_dropWhile_id takeWhile_eq_Nil_iff dropWhile_eq_self_iff)
  have x: "strtox s base (9223372036854775807 + 1) =
    (if cs = [] then (0, False, False, s) else if ovf then (9223372036854775807 + 1, neg, True, p) else (v, neg, False, p))"
    using d b e by (simp add: strtox_def Let_def p1_def neg_def case_prod_beta)
  have nn: "0 \<le> digits_value base cs" unfolding digits_value_def cs_def
    by (rule foldl_mono) (use assms(1) in \<open>auto dest: set_takeWhileD\<close>)
  show ?thesis
  proof (cases "cs = [] \<or> ovf")
    case True
    then show ?thesis using x p sp(2) by (auto simp: strtoll_def n_def)
  next
    case False
    then have u: "uint v = digits_value base cs" "uint v \<le> 2 ^ 63" using sp by simp_all
    have v: "v > 9223372036854775807 \<longleftrightarrow> uint v = 2 ^ 63" "\<not> v > 9223372036854775807 + 1"
      using u(2) by (auto simp: word_less_def)
    have "uint v \<noteq> 2 ^ 63 \<Longrightarrow> sint v = uint v" "sint (- v) = - uint v" using u(2) by (simp_all add: sint_small sint_minus_small)
    then show ?thesis using x p u v nn False by (auto simp: strtoll_def n_def)
  qed
qed



end
