(* ===== verification/Libc_Stdio.thy ===== *)
theory Libc_Stdio
  imports Libc_Stdlib
begin

text \<open>
  Formatted output (\<open>vsnprintf\<close> and its callees in \<open>libc/stdio.c\<close>).

  A format is the list of its characters before the terminator.  The arguments are a list of
  values of the kinds the callers pass; an integer argument carries its value and each
  conversion reads it at the width it names.  A missing argument, an argument of another kind,
  and reading past the end of the format are undefined in C and give \<^const>\<open>None\<close>.  The arithmetic of
  the \<open>%f\<close> conversion on doubles is a parameter: from the bits of the value and the precision,
  whether it is negative, the integer part and the scaled fraction.
\<close>

section \<open>The sink\<close>

record sink =
  buf :: "string option"
  cap :: nat
  len :: nat

definition emit :: "char \<Rightarrow> sink \<Rightarrow> sink" where
  "emit c s = s\<lparr>buf := map_option (\<lambda>b. if len s + 1 < cap s then b[len s := c] else b) (buf s), len := len s + 1\<rparr>"

definition emit_str :: "string \<Rightarrow> sink \<Rightarrow> sink" where
  "emit_str p s = fold emit p s"

definition emit_pad :: "char \<Rightarrow> int \<Rightarrow> sink \<Rightarrow> sink" where
  "emit_pad c n s = fold emit (replicate (nat n) c) s"

section \<open>Arguments and conversions\<close>

datatype va = VInt int | VStr "string option" | VDouble u64

definition s32 :: "int \<Rightarrow> int" where "s32 v = (v + 2 ^ 31) mod 2 ^ 32 - 2 ^ 31"
definition s64 :: "int \<Rightarrow> int" where "s64 v = (v + 2 ^ 63) mod 2 ^ 64 - 2 ^ 63"

text \<open>\<open>lng ? va_arg(ap, long) : va_arg(ap, int)\<close> and its unsigned twin.\<close>

definition va_signed :: "bool \<Rightarrow> va list \<Rightarrow> (int \<times> va list) option" where
  "va_signed lng args = (case args of VInt v # rest \<Rightarrow> Some (if lng then s64 v else s32 v, rest) | _ \<Rightarrow> None)"

definition va_unsigned :: "bool \<Rightarrow> va list \<Rightarrow> (nat \<times> va list) option" where
  "va_unsigned lng args =
     (case args of VInt v # rest \<Rightarrow> Some (nat (if lng then v mod 2 ^ 64 else v mod 2 ^ 32), rest) | _ \<Rightarrow> None)"

function utoa_loop :: "nat \<Rightarrow> nat \<Rightarrow> string \<Rightarrow> string" where
  "utoa_loop v base digits = (if v = 0 \<or> base < 2 then [] else digits ! (v mod base) # utoa_loop (v div base) base digits)"
  by pat_completeness auto
termination by (relation "measure (\<lambda>(v, base, digits). v)") auto

declare utoa_loop.simps [simp del]

definition utoa_rev :: "nat \<Rightarrow> nat \<Rightarrow> bool \<Rightarrow> string" where
  "utoa_rev v base upper =
     (if v = 0 then ''0'' else utoa_loop v base (if upper then ''0123456789ABCDEF'' else ''0123456789abcdef''))"

record fmt_flags =
  left :: bool
  zero :: bool
  plus :: bool
  space :: bool
  alt :: bool

definition no_flags :: fmt_flags where
  "no_flags = \<lparr>left = False, zero = False, plus = False, space = False, alt = False\<rparr>"

fun scan_flags :: "fmt_flags \<Rightarrow> string \<Rightarrow> fmt_flags \<times> string" where
  "scan_flags fl [] = (fl, [])"
| "scan_flags fl (c # fmt) =
     (if c = CHR ''-'' then scan_flags (fl\<lparr>left := True\<rparr>) fmt
      else if c = CHR ''0'' then scan_flags (fl\<lparr>zero := True\<rparr>) fmt
      else if c = CHR ''+'' then scan_flags (fl\<lparr>plus := True\<rparr>) fmt
      else if c = CHR '' '' then scan_flags (fl\<lparr>space := True\<rparr>) fmt
      else if c = CHR ''#'' then scan_flags (fl\<lparr>alt := True\<rparr>) fmt
      else (fl, c # fmt))"

definition dec_digit :: "char \<Rightarrow> bool" where
  "dec_digit c \<longleftrightarrow> 48 \<le> (of_char c :: nat) \<and> (of_char c :: nat) \<le> 57"

fun scan_num :: "int \<Rightarrow> string \<Rightarrow> int \<times> string" where
  "scan_num n [] = (n, [])"
| "scan_num n (c # fmt) = (if dec_digit c then scan_num (n * 10 + (of_char c - 48)) fmt else (n, c # fmt))"

definition peek :: "string \<Rightarrow> char" where "peek fmt = (case fmt of [] \<Rightarrow> CHR 0x00 | c # _ \<Rightarrow> c)"

definition scan_width :: "fmt_flags \<Rightarrow> string \<Rightarrow> va list \<Rightarrow> (int \<times> fmt_flags \<times> string \<times> va list) option" where
  "scan_width fl fmt args =
     (if peek fmt = CHR ''*''
      then Option.bind (va_signed False args) (\<lambda>(w, args).
             Some (if w < 0 then (- w, fl\<lparr>left := True\<rparr>, tl fmt, args) else (w, fl, tl fmt, args)))
      else let (w, fmt) = scan_num 0 fmt in Some (w, fl, fmt, args))"

definition scan_prec :: "string \<Rightarrow> va list \<Rightarrow> (int \<times> string \<times> va list) option" where
  "scan_prec fmt args =
     (if peek fmt = CHR ''.''
      then if peek (tl fmt) = CHR ''*''
           then Option.bind (va_signed False args) (\<lambda>(p, args). Some (p, tl (tl fmt), args))
           else let (p, fmt) = scan_num 0 (tl fmt) in Some (p, fmt, args)
      else Some (- 1, fmt, args))"

fun scan_long :: "bool \<Rightarrow> string \<Rightarrow> bool \<times> string" where
  "scan_long lng [] = (lng, [])"
| "scan_long lng (c # fmt) =
     (if c = CHR ''l'' \<or> c = CHR ''z'' \<or> c = CHR ''j'' then scan_long True fmt
      else if c = CHR ''h'' then scan_long lng fmt
      else (lng, c # fmt))"

text \<open>The tail every integer conversion shares; \<open>sign\<close> is empty when there is none.\<close>

definition emit_int :: "fmt_flags \<Rightarrow> int \<Rightarrow> int \<Rightarrow> string \<Rightarrow> string \<Rightarrow> string \<Rightarrow> sink \<Rightarrow> sink" where
  "emit_int fl width prec sign prefix tmp s =
     (let ndig = int (length tmp);
          zeros = (if prec > ndig then prec - ndig else 0);
          fl = (if prec \<ge> 0 then fl\<lparr>zero := False\<rparr> else fl);
          plen = int (length prefix);
          total = ndig + zeros + plen + int (length sign);
          pad = width - total;
          s = (if \<not> left fl \<and> \<not> zero fl then emit_pad CHR '' '' pad s else s);
          s = emit_str sign s;
          s = emit_str prefix s;
          s = (if \<not> left fl \<and> zero fl then emit_pad CHR ''0'' pad s else s);
          s = emit_pad CHR ''0'' zeros s;
          s = emit_str (rev tmp) s
      in if left fl then emit_pad CHR '' '' pad s else s)"

definition emit_fixed :: "fmt_flags \<Rightarrow> int \<Rightarrow> int \<Rightarrow> bool \<times> nat \<times> nat \<Rightarrow> sink \<Rightarrow> sink" where
  "emit_fixed fl width prec d s =
     (let (neg, whole, fracn) = d;
          sign = (if neg then ''-'' else if plus fl then ''+'' else if space fl then '' '' else []);
          wtmp = utoa_rev whole 10 False;
          total = int (length wtmp) + (if prec > 0 then prec + 1 else 0) + int (length sign);
          pad = width - total;
          s = (if \<not> left fl \<and> \<not> zero fl then emit_pad CHR '' '' pad s else s);
          s = emit_str sign s;
          s = (if \<not> left fl \<and> zero fl then emit_pad CHR ''0'' pad s else s);
          s = emit_str (rev wtmp) s;
          s = (if prec > 0
               then let ftmp = utoa_rev fracn 10 False
                    in emit_str (rev ftmp) (emit_pad CHR ''0'' (prec - int (length ftmp)) (emit CHR ''.'' s))
               else s)
      in if left fl then emit_pad CHR '' '' pad s else s)"

definition sign_of :: "fmt_flags \<Rightarrow> int \<Rightarrow> string" where
  "sign_of fl v = (if v < 0 then ''-'' else if plus fl then ''+'' else if space fl then '' '' else [])"

definition emit_conv ::
  "(u64 \<Rightarrow> int \<Rightarrow> bool \<times> nat \<times> nat) \<Rightarrow> char \<Rightarrow> fmt_flags \<Rightarrow> int \<Rightarrow> int \<Rightarrow> bool \<Rightarrow> va list \<Rightarrow> sink \<Rightarrow> (va list \<times> sink) option" where
  "emit_conv dsplit conv fl width prec lng args s =
     (if conv = CHR ''c'' then
        Option.bind (va_signed False args) (\<lambda>(v, args).
          let pad = width - 1;
              s = (if \<not> left fl then emit_pad CHR '' '' pad s else s);
              s = emit (char_of (v mod 256)) s
          in Some (args, if left fl then emit_pad CHR '' '' pad s else s))
      else if conv = CHR ''s'' then
        (case args of
           VStr p # args \<Rightarrow>
             let p = (case p of None \<Rightarrow> ''(null)'' | Some p \<Rightarrow> p);
                 n = (if prec \<ge> 0 then min (length p) (nat prec) else length p);
                 pad = width - int n;
                 s = (if \<not> left fl then emit_pad CHR '' '' pad s else s);
                 s = emit_str (take n p) s
             in Some (args, if left fl then emit_pad CHR '' '' pad s else s)
         | _ \<Rightarrow> None)
      else if conv = CHR ''d'' \<or> conv = CHR ''i'' then
        Option.bind (va_signed lng args) (\<lambda>(v, args).
          Some (args, emit_int fl width prec (sign_of fl v) [] (utoa_rev (nat \<bar>v\<bar>) 10 False) s))
      else if conv = CHR ''u'' then
        Option.bind (va_unsigned lng args) (\<lambda>(v, args). Some (args, emit_int fl width prec [] [] (utoa_rev v 10 False) s))
      else if conv = CHR ''o'' then
        Option.bind (va_unsigned lng args) (\<lambda>(v, args).
          Some (args, emit_int fl width prec [] (if alt fl then ''0'' else []) (utoa_rev v 8 False) s))
      else if conv = CHR ''x'' \<or> conv = CHR ''X'' then
        Option.bind (va_unsigned lng args) (\<lambda>(v, args).
          Some (args, emit_int fl width prec []
                  (if alt fl \<and> v \<noteq> 0 then if conv = CHR ''X'' then ''0X'' else ''0x'' else [])
                  (utoa_rev v 16 (conv = CHR ''X'')) s))
      else if conv = CHR ''p'' then
        Option.bind (va_unsigned True args) (\<lambda>(v, args). Some (args, emit_int fl width prec [] ''0x'' (utoa_rev v 16 False) s))
      else if conv = CHR ''f'' \<or> conv = CHR ''F'' then
        (case args of
           VDouble d # args \<Rightarrow> let prec = (if prec < 0 then 6 else prec) in Some (args, emit_fixed fl width prec (dsplit d prec) s)
         | _ \<Rightarrow> None)
      else Some (args, emit conv (emit CHR ''%'' s)))"

text \<open>One turn of the loop: a character copied, or a directive carried out.  A directive the format
  ends in the middle of takes the terminator for its conversion and then steps past it.\<close>

definition format_one ::
  "(u64 \<Rightarrow> int \<Rightarrow> bool \<times> nat \<times> nat) \<Rightarrow> char \<Rightarrow> string \<Rightarrow> va list \<Rightarrow> sink \<Rightarrow> (string \<times> va list \<times> sink) option" where
  "format_one dsplit c fmt args s =
     (if c \<noteq> CHR ''%'' then Some (fmt, args, emit c s)
      else if peek fmt = CHR ''%'' then Some (tl fmt, args, emit CHR ''%'' s)
      else let (fl, fmt) = scan_flags no_flags fmt in
        Option.bind (scan_width fl fmt args) (\<lambda>(width, fl, fmt, args).
          Option.bind (scan_prec fmt args) (\<lambda>(prec, fmt, args).
            let (lng, fmt) = scan_long False fmt in
            case fmt of
              [] \<Rightarrow> None
            | conv # fmt \<Rightarrow>
                map_option (\<lambda>(args, s). (fmt, args, s)) (emit_conv dsplit conv fl width prec lng args s))))"

lemma scan_flags_length: "length (snd (scan_flags fl fmt)) \<le> length fmt"
  by (induction fl fmt rule: scan_flags.induct) (auto simp: le_SucI)

lemma scan_num_length: "length (snd (scan_num n fmt)) \<le> length fmt"
  by (induction n fmt rule: scan_num.induct) (auto simp: le_SucI)

lemma scan_long_length: "length (snd (scan_long b fmt)) \<le> length fmt"
  by (induction b fmt rule: scan_long.induct) (auto simp: le_SucI)

lemma scan_width_length: "scan_width fl fmt args = Some (w, fl', fmt', args') \<Longrightarrow> length fmt' \<le> length fmt"
  using scan_num_length [of 0 fmt] by (auto simp: scan_width_def case_prod_beta bind_eq_Some_conv split: if_splits)

lemma scan_prec_length: "scan_prec fmt args = Some (p, fmt', args') \<Longrightarrow> length fmt' \<le> length fmt"
  using scan_num_length [of 0 "tl fmt"] by (auto simp: scan_prec_def case_prod_beta bind_eq_Some_conv split: if_splits)

lemma format_one_length: "format_one dsplit c fmt args s = Some (fmt', args', s') \<Longrightarrow> length fmt' \<le> length fmt"
proof (cases "c \<noteq> CHR ''%'' \<or> peek fmt = CHR ''%''")
  case False
  obtain fl f1 where f1: "scan_flags no_flags fmt = (fl, f1)" by fastforce
  assume "format_one dsplit c fmt args s = Some (fmt', args', s')"
  then have e: "Option.bind (scan_width fl f1 args) (\<lambda>(width, fl, fmt, args).
          Option.bind (scan_prec fmt args) (\<lambda>(prec, fmt, args).
            case snd (scan_long False fmt) of
              [] \<Rightarrow> None
            | conv # fmt2 \<Rightarrow>
                map_option (Pair fmt2) (emit_conv dsplit conv fl width prec (fst (scan_long False fmt)) args s))) = Some (fmt', args', s')"
    using False f1 by (simp add: format_one_def case_prod_beta)
  then obtain w fl2 f2 a2 where w: "scan_width fl f1 args = Some (w, fl2, f2, a2)" by (cases "scan_width fl f1 args") auto
  then obtain p f3 a3 where p: "scan_prec f2 a2 = Some (p, f3, a3)" using e by (cases "scan_prec f2 a2") auto
  have "length fmt' \<le> length (snd (scan_long False f3))"
    using e w p by (cases "snd (scan_long False f3)") auto
  then show ?thesis
    using scan_long_length [of False f3] scan_prec_length [OF p] scan_width_length [OF w] scan_flags_length [of no_flags fmt] f1 by simp
qed (auto simp: format_one_def split: if_splits)

function vformat :: "(u64 \<Rightarrow> int \<Rightarrow> bool \<times> nat \<times> nat) \<Rightarrow> string \<Rightarrow> va list \<Rightarrow> sink \<Rightarrow> sink option" where
  "vformat dsplit [] args s = Some s"
| "vformat dsplit (c # fmt) args s =
     (case format_one dsplit c fmt args s of
        None \<Rightarrow> None
      | Some (fmt, args, s) \<Rightarrow> vformat dsplit fmt args s)"
  by pat_completeness auto
termination
  by (relation "measure (\<lambda>(d, fmt, args, s). length fmt)") (auto dest!: sym [of "Some _"] dest: format_one_length)

text \<open>What the call returns and the buffer it leaves.\<close>

definition vsnprintf ::
  "(u64 \<Rightarrow> int \<Rightarrow> bool \<times> nat \<times> nat) \<Rightarrow> string option \<Rightarrow> nat \<Rightarrow> string \<Rightarrow> va list \<Rightarrow> (int \<times> string option) option" where
  "vsnprintf dsplit out n fmt args =
     Option.bind (vformat dsplit fmt args \<lparr>buf = out, cap = n, len = 0\<rparr>) (\<lambda>s.
       Some (s32 (int (len s)),
         if cap s = 0 then buf s
         else map_option (\<lambda>b. b[(if len s < cap s then len s else cap s - 1) := CHR 0x00]) (buf s)))"

end
