(* ===== verification/Libc_Stdio_Text.thy ===== *)
theory Libc_Stdio_Text
  imports Libc_Stdio Kstring
begin

text \<open>
  What \<open>vsnprintf\<close> prints: the text of a format as a list of characters, independent of any buffer,
  and the proof that the routine leaves exactly that text, cut to the buffer.
\<close>

section \<open>What is printed\<close>

text \<open>The text of a field, with no buffer in sight.\<close>

definition in_field :: "fmt_flags \<Rightarrow> int \<Rightarrow> string \<Rightarrow> string" where
  "in_field fl width body =
     (let gap = replicate (nat (width - int (length body))) CHR '' '' in if left fl then body @ gap else gap @ body)"

definition int_text :: "fmt_flags \<Rightarrow> int \<Rightarrow> int \<Rightarrow> string \<Rightarrow> string \<Rightarrow> string \<Rightarrow> string" where
  "int_text fl width prec sign pfx digits =
     (if prec < 0 \<and> zero fl \<and> \<not> left fl
      then sign @ pfx @ replicate (nat (width - int (length (sign @ pfx @ digits)))) CHR ''0'' @ digits
      else in_field fl width (sign @ pfx @ replicate (nat (prec - int (length digits))) CHR ''0'' @ digits))"

definition fixed_text :: "fmt_flags \<Rightarrow> int \<Rightarrow> int \<Rightarrow> bool \<times> nat \<times> nat \<Rightarrow> string" where
  "fixed_text fl width prec d =
     (let (neg, whole, fracn) = d;
          sign = (if neg then ''-'' else if plus fl then ''+'' else if space fl then '' '' else []);
          ip = rev (utoa_rev whole 10 False);
          fp = rev (utoa_rev fracn 10 False);
          frac = (if prec > 0 then ''.'' @ replicate (nat (prec - int (length fp))) CHR ''0'' @ fp else []);
          gap = nat (width - (int (length (sign @ ip)) + (if prec > 0 then prec + 1 else 0)))
      in if left fl then sign @ ip @ frac @ replicate gap CHR '' ''
         else if zero fl then sign @ replicate gap CHR ''0'' @ ip @ frac
         else replicate gap CHR '' '' @ sign @ ip @ frac)"

definition conv_text ::
  "(u64 \<Rightarrow> int \<Rightarrow> bool \<times> nat \<times> nat) \<Rightarrow> char \<Rightarrow> fmt_flags \<Rightarrow> int \<Rightarrow> int \<Rightarrow> bool \<Rightarrow> va list \<Rightarrow> (va list \<times> string) option" where
  "conv_text dsplit conv fl width prec lng args =
     (if conv = CHR ''c'' then
        map_option (\<lambda>(v, args). (args, in_field fl width [char_of (v mod 256)])) (va_signed False args)
      else if conv = CHR ''s'' then
        (case args of
           VStr p # args \<Rightarrow>
             let p = (case p of None \<Rightarrow> ''(null)'' | Some p \<Rightarrow> p)
             in Some (args, in_field fl width (if prec \<ge> 0 then take (nat prec) p else p))
         | _ \<Rightarrow> None)
      else if conv = CHR ''d'' \<or> conv = CHR ''i'' then
        map_option (\<lambda>(v, args). (args, int_text fl width prec (sign_of fl v) [] (rev (utoa_rev (nat \<bar>v\<bar>) 10 False)))) (va_signed lng args)
      else if conv = CHR ''u'' then
        map_option (\<lambda>(v, args). (args, int_text fl width prec [] [] (rev (utoa_rev v 10 False)))) (va_unsigned lng args)
      else if conv = CHR ''o'' then
        map_option (\<lambda>(v, args). (args, int_text fl width prec [] (if alt fl then ''0'' else []) (rev (utoa_rev v 8 False)))) (va_unsigned lng args)
      else if conv = CHR ''x'' then
        map_option (\<lambda>(v, args). (args, int_text fl width prec [] (if alt fl \<and> v \<noteq> 0 then ''0x'' else []) (rev (utoa_rev v 16 False)))) (va_unsigned lng args)
      else if conv = CHR ''X'' then
        map_option (\<lambda>(v, args). (args, int_text fl width prec [] (if alt fl \<and> v \<noteq> 0 then ''0X'' else []) (rev (utoa_rev v 16 True)))) (va_unsigned lng args)
      else if conv = CHR ''p'' then
        map_option (\<lambda>(v, args). (args, int_text fl width prec [] ''0x'' (rev (utoa_rev v 16 False)))) (va_unsigned True args)
      else if conv = CHR ''f'' \<or> conv = CHR ''F'' then
        (case args of
           VDouble d # args \<Rightarrow> let prec = (if prec < 0 then 6 else prec) in Some (args, fixed_text fl width prec (dsplit d prec))
         | _ \<Rightarrow> None)
      else Some (args, [CHR ''%'', conv]))"

lemma emit_str_append [simp]: "emit_str (xs @ ys) s = emit_str ys (emit_str xs s)"
  by (simp add: emit_str_def)

lemma emit_str_Nil [simp]: "emit_str [] s = s"
  by (simp add: emit_str_def)

lemma emit_str_Cons [simp]: "emit_str (c # xs) s = emit_str xs (emit c s)"
  by (simp add: emit_str_def)

lemma emit_as_str: "emit_pad c n s = emit_str (replicate (nat n) c) s"
  by (simp add: emit_str_def emit_pad_def)

lemma emit_in_field:
  "emit_str (in_field fl width body) s =
     (let s = (if \<not> left fl then emit_pad CHR '' '' (width - int (length body)) s else s);
          s = emit_str body s
      in if left fl then emit_pad CHR '' '' (width - int (length body)) s else s)"
  by (simp add: in_field_def Let_def emit_as_str)

lemma emit_int_text: "emit_int fl width prec sign pfx tmp s = emit_str (int_text fl width prec sign pfx (rev tmp)) s"
proof -
  have z: "nat (if prec > int (length tmp) then prec - int (length tmp) else 0) = nat (prec - int (length tmp))" by simp
  show ?thesis
    by (cases "prec < 0"; cases "zero fl"; cases "left fl")
      (auto simp: emit_int_def int_text_def in_field_def Let_def emit_as_str algebra_simps nat_diff_distrib')
qed

lemma emit_fixed_text: "emit_fixed fl width prec d s = emit_str (fixed_text fl width prec d) s"
  by (cases d) (simp add: emit_fixed_def fixed_text_def Let_def emit_as_str algebra_simps)

lemma emit_conv_text:
  "emit_conv dsplit conv fl width prec lng args s =
     map_option (\<lambda>(args, w). (args, emit_str w s)) (conv_text dsplit conv fl width prec lng args)"
proof -
  consider "conv = CHR ''c''" | "conv = CHR ''s''" | "conv = CHR ''d'' \<or> conv = CHR ''i''" | "conv = CHR ''u''" | "conv = CHR ''o''"
    | "conv = CHR ''x''" | "conv = CHR ''X''" | "conv = CHR ''p''" | "conv = CHR ''f'' \<or> conv = CHR ''F''"
    | "conv \<notin> set ''csdiuoxXpfF''"
    by auto
  then show ?thesis
  proof cases
    case 1
    then show ?thesis by (cases "va_signed False args") (auto simp: emit_conv_def conv_text_def emit_in_field Let_def)
  next
    case 2
    then show ?thesis
      by (auto simp: emit_conv_def conv_text_def emit_in_field Let_def min_def split: list.splits va.splits)
  next
    case 3
    then show ?thesis by (cases "va_signed lng args") (auto simp: emit_conv_def conv_text_def emit_int_text)
  next
    case 9
    then show ?thesis by (auto simp: emit_conv_def conv_text_def emit_fixed_text Let_def split: list.splits va.splits)
  next
    case 8
    then show ?thesis by (cases "va_unsigned True args") (auto simp: emit_conv_def conv_text_def emit_int_text)
  next
    case 10
    then show ?thesis by (simp add: emit_conv_def conv_text_def)
  qed (cases "va_unsigned lng args"; auto simp: emit_conv_def conv_text_def emit_int_text)+
qed

text \<open>The text of a format: the directives replaced by their fields.\<close>

definition text_one ::
  "(u64 \<Rightarrow> int \<Rightarrow> bool \<times> nat \<times> nat) \<Rightarrow> char \<Rightarrow> string \<Rightarrow> va list \<Rightarrow> (string \<times> va list \<times> string) option" where
  "text_one dsplit c fmt args =
     (if c \<noteq> CHR ''%'' then Some (fmt, args, [c])
      else if peek fmt = CHR ''%'' then Some (tl fmt, args, ''%'')
      else let (fl, fmt) = scan_flags no_flags fmt in
        Option.bind (scan_width fl fmt args) (\<lambda>(width, fl, fmt, args).
          Option.bind (scan_prec fmt args) (\<lambda>(prec, fmt, args).
            let (lng, fmt) = scan_long False fmt in
            if fmt = [] then None
            else map_option (\<lambda>(args, w). (tl fmt, args, w)) (conv_text dsplit (hd fmt) fl width prec lng args))))"

lemma format_one_text:
  "format_one dsplit c fmt args s =
     map_option (\<lambda>(fmt, args, w). (fmt, args, emit_str w s)) (text_one dsplit c fmt args)"
proof (cases "c \<noteq> CHR ''%'' \<or> peek fmt = CHR ''%''")
  case True
  then show ?thesis by (auto simp: format_one_def text_one_def)
next
  case False
  obtain fl f1 where f1: "scan_flags no_flags fmt = (fl, f1)" by fastforce
  show ?thesis
  proof (cases "scan_width fl f1 args")
    case None
    then show ?thesis using False f1 by (simp add: format_one_def text_one_def)
  next
    case (Some r)
    obtain width fl2 f2 a2 where r: "r = (width, fl2, f2, a2)" by (cases r)
    show ?thesis
    proof (cases "scan_prec f2 a2")
      case None
      then show ?thesis using False f1 Some r by (simp add: format_one_def text_one_def)
    next
      case p: (Some q)
      obtain prec f3 a3 where q: "q = (prec, f3, a3)" by (cases q)
      obtain lng f4 where l: "scan_long False f3 = (lng, f4)" by fastforce
      show ?thesis using False f1 Some r p q l
        by (cases f4) (auto simp: format_one_def text_one_def emit_conv_text option.map_comp comp_def split_def)
    qed
  qed
qed

lemma text_one_length: "text_one dsplit c fmt args = Some (fmt', args', w) \<Longrightarrow> length fmt' \<le> length fmt"
  using format_one_length [of dsplit c fmt args undefined fmt' args'] by (simp add: format_one_text)

function text_of :: "(u64 \<Rightarrow> int \<Rightarrow> bool \<times> nat \<times> nat) \<Rightarrow> string \<Rightarrow> va list \<Rightarrow> string option" where
  "text_of dsplit [] args = Some []"
| "text_of dsplit (c # fmt) args =
     (case text_one dsplit c fmt args of
        None \<Rightarrow> None
      | Some (fmt, args, w) \<Rightarrow> map_option (\<lambda>rest. w @ rest) (text_of dsplit fmt args))"
  by pat_completeness auto
termination
  by (relation "measure (\<lambda>(d, fmt, args). length fmt)") (auto dest!: sym [of "Some _"] dest: text_one_length)

lemma vformat_text: "vformat dsplit fmt args s = map_option (\<lambda>w. emit_str w s) (text_of dsplit fmt args)"
proof (induction dsplit fmt args arbitrary: s rule: text_of.induct)
  case (2 dsplit c fmt args)
  show ?case
  proof (cases "text_one dsplit c fmt args")
    case (Some r)
    obtain fmt' args' w where r: "r = (fmt', args', w)" by (cases r)
    have "vformat dsplit fmt' args' s' = map_option (\<lambda>w. emit_str w s') (text_of dsplit fmt' args')" for s'
      by (rule "2.IH" [OF Some]) (simp_all add: r)
    then show ?thesis using Some r by (simp add: format_one_text option.map_comp comp_def)
  qed (simp add: format_one_text)
qed simp

text \<open>The buffer a bounded sink leaves.\<close>

lemma emit_str_len [simp]: "len (emit_str w s) = len s + length w" "cap (emit_str w s) = cap s"
  by (induction w arbitrary: s) (simp_all add: emit_def)

lemma emit_str_buf:
  assumes "buf s = Some b" and "cap s \<le> length b"
  shows "buf (emit_str w s) =
    Some (if len s + 1 < cap s then take (len s) b @ take (cap s - 1 - len s) w @ drop (len s + length (take (cap s - 1 - len s) w)) b else b)"
  using assms
proof (induction w arbitrary: s b)
  case Nil
  then show ?case by simp
next
  case (Cons c w)
  let ?b = "if len s + 1 < cap s then b[len s := c] else b"
  have e: "buf (emit c s) = Some ?b" "len (emit c s) = len s + 1" "cap (emit c s) = cap s" using Cons.prems by (simp_all add: emit_def)
  have "buf (emit_str w (emit c s)) = Some (if len s + 2 < cap s then take (len s + 1) ?b @ take (cap s - 2 - len s) w @
      drop (len s + 1 + length (take (cap s - 2 - len s) w)) ?b else ?b)"
    using Cons.IH [OF e(1)] Cons.prems by (simp add: e(2,3) numeral_2_eq_2)
  moreover have "take (len s + 1) (b[len s := c]) = take (len s) b @ [c]" if "len s + 1 < cap s"
    using that Cons.prems(2) by (simp add: take_Suc_conv_app_nth)
  moreover have "take (cap s - 1 - len s) (c # w) = c # take (cap s - 2 - len s) w" if "len s + 1 < cap s"
    using that by (simp add: take_Cons' numeral_2_eq_2)
  ultimately show ?case using Cons.prems
    by (cases "len s + 2 < cap s") (auto simp: upd_conv_take_nth_drop add.commute)
qed



section \<open>Printing and reading back\<close>

lemma digit_char: "d < 10 \<Longrightarrow> digit_of (of_char (''0123456789abcdef'' ! d)) = Some (int d)"
proof -
  assume "d < 10"
  then have "d \<in> {0, 1, 2, 3, 4, 5, 6, 7, 8, 9}" by auto
  then show ?thesis by (auto simp: digit_of_def)
qed

lemma utoa_loop_value:
  "digits_value 10 (rev (bytes (utoa_loop n 10 ''0123456789abcdef''))) = int n \<and>
   (\<forall>c \<in> set (bytes (utoa_loop n 10 ''0123456789abcdef'')). is_digit 10 c)"
proof (induction n rule: less_induct)
  case (less n)
  show ?case
  proof (cases "n = 0")
    case True
    then show ?thesis by (simp add: utoa_loop.simps bytes_def digits_value_def)
  next
    case False
    then have u: "utoa_loop n 10 ''0123456789abcdef'' = ''0123456789abcdef'' ! (n mod 10) # utoa_loop (n div 10) 10 ''0123456789abcdef''"
      by (subst utoa_loop.simps) simp
    have "digit_of (of_char (''0123456789abcdef'' ! (n mod 10))) = Some (int (n mod 10))" by (rule digit_char) simp
    moreover have "int (n div 10) * 10 + int (n mod 10) = int n" by presburger
    ultimately show ?thesis using less.IH [of "n div 10"] False unfolding u
      by (simp add: bytes_def digits_value_def is_digit_def)
  qed
qed

lemma utoa_rev_value:
  "digits_value 10 (bytes (rev (utoa_rev n 10 False))) = int n"
  "\<forall>c \<in> set (bytes (rev (utoa_rev n 10 False))). is_digit 10 c" "utoa_rev n 10 False \<noteq> []"
proof -
  have "digit_of 48 = Some 0" by (simp add: digit_of_def)
  then show "digits_value 10 (bytes (rev (utoa_rev n 10 False))) = int n"
    "\<forall>c \<in> set (bytes (rev (utoa_rev n 10 False))). is_digit 10 c"
    using utoa_loop_value [of n] by (auto simp: utoa_rev_def bytes_def rev_map is_digit_def digits_value_def)
  show "utoa_rev n 10 False \<noteq> []" by (auto simp: utoa_rev_def utoa_loop.simps)
qed

lemma text_of_lld: "text_of dsplit ''%lld'' [VInt v] = Some (sign_of no_flags (s64 v) @ rev (utoa_rev (nat \<bar>s64 v\<bar>) 10 False))"
  by (simp add: text_one_def peek_def no_flags_def scan_width_def scan_prec_def dec_digit_def conv_text_def va_signed_def
      int_text_def in_field_def Let_def)





end
