(* ===== verification/Libc_Calendar.thy ===== *)
theory Libc_Calendar
  imports Libc_Stdio_Text "HOL-Library.Signed_Division"
begin

text \<open>
  Dates (\<open>libc/calendar.c\<close>): day counts, broken-down time, and \<open>strftime\<close>.

  \<open>long long\<close> arithmetic is on integers: from a 64-bit \<open>time_t\<close> no intermediate value leaves the
  range.  \<open>unsigned\<close> arithmetic wraps at 32 bits (\<open>u\<close>), and a conversion to \<open>int\<close> wraps to 32 bits
  (\<open>s32\<close>).  Division is C's, which rounds towards zero.
\<close>

section \<open>Days and civil dates\<close>

definition u :: "int \<Rightarrow> int" where "u x = x mod 2 ^ 32"

definition days_from_civil :: "int \<Rightarrow> int \<Rightarrow> int \<Rightarrow> int" where
  "days_from_civil y m d =
     (let y = y - (if m \<le> 2 then 1 else 0);
          era = (if y \<ge> 0 then y else y - 399) sdiv 400;
          yoe = u (y - era * 400);
          doy = u (u (153 * u (m + (if m > 2 then - 3 else 9)) + 2) div 5 + d - 1);
          doe = u (yoe * 365 + yoe div 4 - yoe div 100 + doy)
      in era * 146097 + doe - 719468)"

definition civil_from_days :: "int \<Rightarrow> int \<times> int \<times> int" where
  "civil_from_days z =
     (let z = z + 719468;
          era = (if z \<ge> 0 then z else z - 146096) sdiv 146097;
          doe = u (z - era * 146097);
          yoe = u (doe - doe div 1460 + doe div 36524 - doe div 146096) div 365;
          yr = yoe + era * 400;
          doy = u (doe - u (365 * yoe + yoe div 4 - yoe div 100));
          mp = u (5 * doy + 2) div 153;
          d = u (doy - u (153 * mp + 2) div 5 + 1);
          m = u (mp + (if mp < 10 then 3 else - 9))
      in (yr + (if m \<le> 2 then 1 else 0), m, d))"

section \<open>Broken-down time\<close>

record tm =
  tm_sec :: int
  tm_min :: int
  tm_hour :: int
  tm_mday :: int
  tm_mon :: int
  tm_year :: int
  tm_wday :: int
  tm_yday :: int
  tm_isdst :: int
  tm_gmtoff :: int
  tm_zone :: string

text \<open>The fields \<open>gmtime_r\<close> fills in; with a null pointer it sets \<open>EFAULT\<close> and returns null.\<close>

definition gmtime_fields :: "int \<Rightarrow> tm" where
  "gmtime_fields secs =
     (let days = secs sdiv 86400;
          rem = secs smod 86400;
          (rem, days) = (if rem < 0 then (rem + 86400, days - 1) else (rem, days));
          (y, m, d) = civil_from_days days
      in \<lparr>tm_sec = s32 (rem smod 60), tm_min = s32 ((rem sdiv 60) smod 60), tm_hour = s32 (rem sdiv 3600),
          tm_mday = s32 d, tm_mon = s32 m - 1, tm_year = s32 (y - 1900),
          tm_wday = s32 ((days smod 7 + 11) smod 7), tm_yday = s32 (days - days_from_civil y 1 1),
          tm_isdst = 0, tm_gmtoff = 0, tm_zone = ''UTC''\<rparr>)"

definition EFAULT :: int where "EFAULT = 14"

definition gmtime_r :: "int option \<Rightarrow> tm option \<Rightarrow> int + tm" where
  "gmtime_r t out = (case (t, out) of (Some secs, Some _) \<Rightarrow> Inr (gmtime_fields secs) | _ \<Rightarrow> Inl EFAULT)"

definition localtime_r :: "int option \<Rightarrow> tm option \<Rightarrow> int + tm" where
  "localtime_r t out = gmtime_r t out"

definition timegm_secs :: "tm \<Rightarrow> int" where
  "timegm_secs tm =
     (let year = tm_year tm + 1900;
          month = tm_mon tm;
          year = year + month sdiv 12;
          month = month smod 12;
          (month, year) = (if month < 0 then (month + 12, year - 1) else (month, year));
          days = days_from_civil year (u (u month + 1)) 1 + tm_mday tm - 1
      in days * 86400 + tm_hour tm * 3600 + tm_min tm * 60 + tm_sec tm)"

text \<open>The time and the normalised structure handed back.\<close>

definition timegm :: "tm option \<Rightarrow> int + int \<times> tm" where
  "timegm tm = (case tm of None \<Rightarrow> Inl EFAULT | Some tm \<Rightarrow> let result = timegm_secs tm in Inr (result, gmtime_fields result))"

definition mktime :: "tm option \<Rightarrow> int + int \<times> tm" where
  "mktime tm = timegm tm"

section \<open>Formatting\<close>

definition wday_short :: "string list" where
  "wday_short = [''Sun'', ''Mon'', ''Tue'', ''Wed'', ''Thu'', ''Fri'', ''Sat'']"
definition wday_long :: "string list" where
  "wday_long = [''Sunday'', ''Monday'', ''Tuesday'', ''Wednesday'', ''Thursday'', ''Friday'', ''Saturday'']"
definition mon_short :: "string list" where
  "mon_short = [''Jan'', ''Feb'', ''Mar'', ''Apr'', ''May'', ''Jun'', ''Jul'', ''Aug'', ''Sep'', ''Oct'', ''Nov'', ''Dec'']"
definition mon_long :: "string list" where
  "mon_long = [''January'', ''February'', ''March'', ''April'', ''May'', ''June'',
     ''July'', ''August'', ''September'', ''October'', ''November'', ''December'']"

text \<open>The output buffer and how much of it is used.\<close>

type_synonym out = "nat \<times> string"

fun put :: "nat \<Rightarrow> string \<Rightarrow> out \<Rightarrow> bool \<times> out" where
  "put mx [] (n, b) = (True, (n, b))"
| "put mx (c # s) (n, b) = (if n + 1 \<ge> mx then (False, (n, b)) else put mx s (n + 1, b[n := c]))"

text \<open>The digits of a number, the lowest first: the \<open>do\<close> loop writes at least one.\<close>

function num_digits :: "nat \<Rightarrow> string" where
  "num_digits v = char_of (48 + v mod 10) # (if v div 10 = 0 then [] else num_digits (v div 10))"
  by pat_completeness auto
termination by (relation "measure id") auto

declare num_digits.simps [simp del]

definition put_num :: "nat \<Rightarrow> int \<Rightarrow> nat \<Rightarrow> char \<Rightarrow> out \<Rightarrow> bool \<times> out" where
  "put_num mx v width pad ob =
     (let b = num_digits (nat \<bar>v\<bar>);
          b = b @ replicate (width - length b) pad;
          b = (if v < 0 then b @ ''-'' else b)
      in put mx (rev b) ob)"

text \<open>\<open>snprintf\<close> into a local buffer, and the string it then holds.\<close>

definition sub_text :: "nat \<Rightarrow> string \<Rightarrow> va list \<Rightarrow> string" where
  "sub_text cap_sub fmt args =
     (case vsnprintf (\<lambda>_ _. (False, 0, 0)) (Some (replicate cap_sub CHR 0x00)) cap_sub fmt args of
        Some (_, Some b) \<Rightarrow> takeWhile (\<lambda>c. c \<noteq> CHR 0x00) b
      | _ \<Rightarrow> [])"

definition clamp_wday :: "tm \<Rightarrow> nat" where
  "clamp_wday tm = (if 0 \<le> tm_wday tm \<and> tm_wday tm < 7 then nat (tm_wday tm) else 0)"
definition clamp_mon :: "tm \<Rightarrow> nat" where
  "clamp_mon tm = (if 0 \<le> tm_mon tm \<and> tm_mon tm < 12 then nat (tm_mon tm) else 0)"

text \<open>The conversions of \<open>strftime\<close>; \<^const>\<open>None\<close> is the default case.\<close>

definition strftime_conv :: "nat \<Rightarrow> char \<Rightarrow> tm \<Rightarrow> out \<Rightarrow> (bool \<times> out) option" where
  "strftime_conv mx c tm ob =
     (let wd = clamp_wday tm; mo = clamp_mon tm; year = tm_year tm + 1900 in
      if c = CHR ''a'' then Some (put mx (wday_short ! wd) ob)
      else if c = CHR ''A'' then Some (put mx (wday_long ! wd) ob)
      else if c = CHR ''b'' \<or> c = CHR ''h'' then Some (put mx (mon_short ! mo) ob)
      else if c = CHR ''B'' then Some (put mx (mon_long ! mo) ob)
      else if c = CHR ''C'' then Some (put_num mx (year sdiv 100) 2 CHR ''0'' ob)
      else if c = CHR ''d'' then Some (put_num mx (tm_mday tm) 2 CHR ''0'' ob)
      else if c = CHR ''e'' then Some (put_num mx (tm_mday tm) 2 CHR '' '' ob)
      else if c = CHR ''H'' then Some (put_num mx (tm_hour tm) 2 CHR ''0'' ob)
      else if c = CHR ''I'' then
        let h = tm_hour tm smod 12; h = (if h = 0 then 12 else h) in Some (put_num mx h 2 CHR ''0'' ob)
      else if c = CHR ''j'' then Some (put_num mx (tm_yday tm + 1) 3 CHR ''0'' ob)
      else if c = CHR ''m'' then Some (put_num mx (tm_mon tm + 1) 2 CHR ''0'' ob)
      else if c = CHR ''M'' then Some (put_num mx (tm_min tm) 2 CHR ''0'' ob)
      else if c = CHR ''n'' then Some (put mx [CHR 0x0A] ob)
      else if c = CHR ''p'' then Some (put mx (if tm_hour tm < 12 then ''AM'' else ''PM'') ob)
      else if c = CHR ''S'' then Some (put_num mx (tm_sec tm) 2 CHR ''0'' ob)
      else if c = CHR ''t'' then Some (put mx [CHR 0x09] ob)
      else if c = CHR ''u'' then Some (put_num mx (if wd = 0 then 7 else int wd) 1 CHR ''0'' ob)
      else if c = CHR ''w'' then Some (put_num mx (int wd) 1 CHR ''0'' ob)
      else if c = CHR ''y'' then Some (put_num mx (year smod 100) 2 CHR ''0'' ob)
      else if c = CHR ''Y'' then Some (put_num mx year 4 CHR ''0'' ob)
      else if c = CHR ''Z'' then Some (put mx ''UTC'' ob)
      else if c = CHR ''z'' then Some (put mx ''+0000'' ob)
      else if c = CHR ''D'' then
        Some (put mx (sub_text 16 ''%02d/%02d/%02d'' [VInt (tm_mon tm + 1), VInt (tm_mday tm), VInt (year smod 100)]) ob)
      else if c = CHR ''F'' then
        Some (put mx (sub_text 24 ''%04d-%02d-%02d'' [VInt year, VInt (tm_mon tm + 1), VInt (tm_mday tm)]) ob)
      else if c = CHR ''R'' then Some (put mx (sub_text 8 ''%02d:%02d'' [VInt (tm_hour tm), VInt (tm_min tm)]) ob)
      else if c = CHR ''T'' then
        Some (put mx (sub_text 12 ''%02d:%02d:%02d'' [VInt (tm_hour tm), VInt (tm_min tm), VInt (tm_sec tm)]) ob)
      else if c = CHR ''c'' then
        Some (put mx (sub_text 40 ''%s %s %2d %02d:%02d:%02d %d''
          [VStr (Some (wday_short ! wd)), VStr (Some (mon_short ! mo)), VInt (tm_mday tm), VInt (tm_hour tm),
           VInt (tm_min tm), VInt (tm_sec tm), VInt year]) ob)
      else if c = CHR ''s'' then Some (put_num mx (timegm_secs tm) 1 CHR ''0'' ob)
      else if c = CHR ''%'' then Some (put mx ''%'' ob)
      else None)"

text \<open>The loop over the format; the result is null when the text did not fit.\<close>

function strftime_loop :: "nat \<Rightarrow> string \<Rightarrow> tm \<Rightarrow> out \<Rightarrow> bool \<times> out" where
  "strftime_loop mx [] tm ob = (True, ob)"
| "strftime_loop mx (c # fmt) tm ob =
     (if c \<noteq> CHR ''%''
      then if fst ob + 1 \<ge> mx then (False, ob) else strftime_loop mx fmt tm (fst ob + 1, (snd ob)[fst ob := c])
      else
        case (if peek fmt = CHR ''E'' \<or> peek fmt = CHR ''O'' then tl fmt else fmt) of
          [] \<Rightarrow> if fst ob + 1 \<ge> mx then (False, ob) else (True, (fst ob + 1, (snd ob)[fst ob := CHR ''%'']))
        | d # fmt \<Rightarrow>
            case strftime_conv mx d tm ob of
              Some (ok, ob) \<Rightarrow> if ok then strftime_loop mx fmt tm ob else (False, ob)
            | None \<Rightarrow> if fst ob + 2 \<ge> mx then (False, ob)
                      else strftime_loop mx fmt tm (fst ob + 2, (snd ob)[fst ob := CHR ''%'', fst ob + 1 := d]))"
  by pat_completeness auto
termination
  by (relation "measure (\<lambda>(mx, fmt, tm, ob). length fmt)") (auto split: if_splits dest!: arg_cong [of _ "_ # _" length] simp: peek_def)

definition strftime :: "string \<Rightarrow> nat \<Rightarrow> string \<Rightarrow> tm \<Rightarrow> nat \<times> string" where
  "strftime out mx fmt tm =
     (if mx = 0 then (0, out)
      else case strftime_loop mx fmt tm (0, out) of
        (True, (n, b)) \<Rightarrow> (n, b[n := CHR 0x00])
      | (False, (n, b)) \<Rightarrow> (0, b))"

definition asctime_r :: "tm \<Rightarrow> string" where
  "asctime_r tm =
     sub_text 26 (''%s %s %2d %02d:%02d:%02d %4d'' @ [CHR 0x0A])
       [VStr (Some (wday_short ! clamp_wday tm)), VStr (Some (mon_short ! clamp_mon tm)), VInt (tm_mday tm),
        VInt (tm_hour tm), VInt (tm_min tm), VInt (tm_sec tm), VInt (tm_year tm + 1900)]"

definition ctime_r :: "int option \<Rightarrow> int + string" where
  "ctime_r t = (case localtime_r t (Some (gmtime_fields 0)) of Inl e \<Rightarrow> Inl e | Inr tm \<Rightarrow> Inr (asctime_r tm))"

section \<open>The Gregorian calendar\<close>

definition leap :: "int \<Rightarrow> bool" where
  "leap y \<longleftrightarrow> y mod 4 = 0 \<and> (y mod 100 \<noteq> 0 \<or> y mod 400 = 0)"

definition mdays :: "int \<Rightarrow> int \<Rightarrow> int" where
  "mdays y m = (if m = 2 then if leap y then 29 else 28 else if m \<in> {4, 6, 9, 11} then 30 else 31)"

definition valid_date :: "int \<Rightarrow> int \<Rightarrow> int \<Rightarrow> bool" where
  "valid_date y m d \<longleftrightarrow> 1 \<le> m \<and> m \<le> 12 \<and> 1 \<le> d \<and> d \<le> mdays y m"

text \<open>The day number by counting: whole years, the leap days among them, whole months, days.\<close>

definition leaps_before :: "int \<Rightarrow> int" where
  "leaps_before y = (y - 1) div 4 - (y - 1) div 100 + (y - 1) div 400"

definition counted_days :: "int \<Rightarrow> int \<Rightarrow> int \<Rightarrow> int" where
  "counted_days y m d =
     365 * (y - 1970) + (leaps_before y - leaps_before 1970) + (\<Sum>k\<leftarrow>[1..m - 1]. mdays y k) + d - 1"

section \<open>The arithmetic of an era\<close>

lemma div_reflect: "0 < n \<Longrightarrow> (n - 1 - z) div n = - ((z :: int) div n)"
proof -
  assume n: "0 < n"
  have "n - 1 - z = (n - 1 - z mod n) + (- (z div n)) * n" using div_mult_mod_eq [of z n] by (simp add: algebra_simps)
  then have "(n - 1 - z) div n = - (z div n) + (n - 1 - z mod n) div n" using n by (metis div_mult_self1 less_irrefl)
  moreover have "(n - 1 - z mod n) div n = 0" using n pos_mod_bound [of n z] pos_mod_sign [of n z] by (intro div_pos_pos_trivial) linarith+
  ultimately show ?thesis by simp
qed

lemma sdiv_floor:
  "(if z \<ge> 0 then z else z - 399) sdiv 400 = (z :: int) div 400"
  "(if z \<ge> 0 then z else z - 146096) sdiv 146097 = (z :: int) div 146097"
  using div_reflect [of 400 z] div_reflect [of 146097 z] by (auto simp: signed_divide_int_def sgn_if)

lemma u_small: "0 \<le> x \<Longrightarrow> x < 4294967296 \<Longrightarrow> u x = x"
  by (simp add: u_def)

text \<open>The days of an era before its year \<open>y\<close>, which starts in March.\<close>

definition era_start :: "int \<Rightarrow> int" where
  "era_start y = (if y = 400 then 146097 else y * 365 + y div 4 - y div 100)"

definition year_of :: "int \<Rightarrow> int" where
  "year_of doe = (doe - doe div 1460 + doe div 36524 - doe div 146096) div 365"

lemma era_check:
  "list_all (\<lambda>y. year_of (era_start y) = y \<and> year_of (era_start (y + 1) - 1) = y \<and>
     era_start (y + 1) - era_start y = (if leap (y + 1) then 366 else 365)) [0..399]"
  by code_simp

lemma month_check:
  "list_all (\<lambda>doy. let mp = (5 * doy + 2) div 153; d = doy - (153 * mp + 2) div 5 + 1
     in 0 \<le> mp \<and> mp \<le> 11 \<and> 1 \<le> d \<and> d \<le> (if mp = 11 then if doy = 365 then 29 else 28 else if mp \<in> {1, 3, 6, 8} then 30 else 31)) [0..365]"
  by code_simp

lemma era_year:
  assumes "0 \<le> y" and "y < 400"
  shows "year_of (era_start y) = y" and "year_of (era_start (y + 1) - 1) = y"
    and "era_start (y + 1) - era_start y = (if leap (y + 1) then 366 else 365)"
proof -
  have "y \<in> set [0..399]" using assms by simp
  then show "year_of (era_start y) = y" "year_of (era_start (y + 1) - 1) = y"
    "era_start (y + 1) - era_start y = (if leap (y + 1) then 366 else 365)"
    using era_check unfolding list_all_iff by blast+
qed

lemma year_of_mono:
  assumes "a \<le> b"
  shows "year_of a \<le> year_of b"
proof -
  define g :: "int \<Rightarrow> int" where "g c = c - c div 1460 + c div 36524 - c div 146096" for c
  have step: "g c \<le> g (c + 1)" for c
  proof -
    have up: "(x + 1) div n \<le> x div n + 1" if "0 < n" for x n :: int
      using that zdiv_mono1 [of "x + 1" "x + n" n] div_add_self2 [of n x] by simp
    let ?x = "c div 36524" and ?X = "(c + 1) div 36524"
    have q: "(c + 1) div 146096 = ?X div 4" "c div 146096 = ?x div 4"
      using zdiv_zmult2_eq [of 4 "c + 1" 36524] zdiv_zmult2_eq [of 4 c 36524] by simp_all
    have "?x \<le> ?X" "?X \<le> ?x + 1" using up [of 36524 c] by (simp_all add: zdiv_mono1)
    then consider "?X = ?x" | "?X = ?x + 1" by linarith
    then have "?X div 4 - ?x div 4 \<le> ?X - ?x" using up [of 4 ?x] by cases simp_all
    then show ?thesis using up [of 1460 c] unfolding g_def q by linarith
  qed
  obtain n where n: "b = a + int n" using assms by (metis zle_iff_zadd)
  have "g a \<le> g (a + int n)"
  proof (induction n)
    case (Suc n)
    have "a + int (Suc n) = a + int n + 1" by simp
    then show ?case using Suc step [of "a + int n"] by (metis order_trans)
  qed simp
  then show ?thesis unfolding year_of_def n g_def by (rule zdiv_mono1) simp
qed

lemma era_split:
  assumes "0 \<le> doe" and "doe < 146097"
  shows "0 \<le> year_of doe" and "year_of doe < 400" and "era_start (year_of doe) \<le> doe" and "doe < era_start (year_of doe + 1)"
proof -
  have "doe < era_start (int k) \<Longrightarrow> k \<le> 400 \<Longrightarrow> \<exists>y. 0 \<le> y \<and> y < int k \<and> era_start y \<le> doe \<and> doe < era_start (y + 1)" for k
  proof (induction k)
    case 0
    then show ?case using assms(1) by (simp add: era_start_def)
  next
    case (Suc k)
    show ?case
    proof (cases "doe < era_start (int k)")
      case True
      then show ?thesis using Suc by fastforce
    next
      case False
      then have "0 \<le> int k \<and> int k < int (Suc k) \<and> era_start (int k) \<le> doe \<and> doe < era_start (int k + 1)"
        using Suc.prems(1) by (simp add: add.commute)
      then show ?thesis by blast
    qed
  qed
  from this [of 400] obtain y where y: "0 \<le> y" "y < 400" "era_start y \<le> doe" "doe < era_start (y + 1)"
    using assms(2) by (auto simp: era_start_def)
  have "0 \<le> era_start y" using y(1,2) by (simp add: era_start_def)
  then have "y \<le> year_of doe" "year_of doe \<le> y"
    using year_of_mono [of "era_start y" doe] year_of_mono [of doe "era_start (y + 1) - 1"] era_year [OF y(1,2)] y(3,4) by simp_all
  then have "year_of doe = y" by simp
  then show "0 \<le> year_of doe" "year_of doe < 400" "era_start (year_of doe) \<le> doe" "doe < era_start (year_of doe + 1)"
    using y by simp_all
qed

lemma month_split:
  fixes doy :: int
  assumes "0 \<le> doy" and "doy \<le> 365"
  defines "mp \<equiv> (5 * doy + 2) div 153"
  defines "d \<equiv> doy - (153 * mp + 2) div 5 + 1"
  shows "0 \<le> mp" and "mp \<le> 11" and "1 \<le> d"
    and "d \<le> (if mp = 11 then if doy = 365 then 29 else 28 else if mp \<in> {1, 3, 6, 8} then 30 else 31)"
proof -
  have "doy \<in> set [0..365]" using assms by simp
  with month_check show "0 \<le> mp" "mp \<le> 11" "1 \<le> d"
    "d \<le> (if mp = 11 then if doy = 365 then 29 else 28 else if mp \<in> {1, 3, 6, 8} then 30 else 31)"
    unfolding list_all_iff mp_def d_def by (auto simp: Let_def)
qed

section \<open>The two conversions\<close>

lemma days_from_civil_era:
  fixes y :: int
  assumes "1 \<le> m" and "m \<le> 12" and "1 \<le> d" and "d \<le> 31"
  defines "y' \<equiv> y - (if m \<le> 2 then 1 else 0)"
  shows "days_from_civil y m d =
    (y' div 400) * 146097 + era_start (y' mod 400) + (153 * (if m > 2 then m - 3 else m + 9) + 2) div 5 + d - 1 - 719468"
proof -
  define yoe where "yoe = y' mod 400"
  have r: "0 \<le> yoe" "yoe < 400" by (simp_all add: yoe_def)
  have e: "y' - y' div 400 * 400 = yoe" by (simp add: yoe_def minus_div_mult_eq_mod)
  let ?mp = "if m > 2 then m - 3 else m + 9"
  have mp: "0 \<le> ?mp" "?mp \<le> 11" using assms by auto
  then have doy: "0 \<le> (153 * ?mp + 2) div 5 + d - 1" "(153 * ?mp + 2) div 5 + d - 1 \<le> 400" using assms(3,4) by linarith+
  have s: "era_start yoe = yoe * 365 + yoe div 4 - yoe div 100" using r by (simp add: era_start_def)
  have b: "0 \<le> era_start yoe" "era_start yoe \<le> 150000" unfolding s using r by linarith+
  have "u (m + (if m > 2 then - 3 else 9)) = ?mp" using mp by (auto intro: u_small)
  then have d: "u (u (153 * u (m + (if m > 2 then - 3 else 9)) + 2) div 5 + d - 1) = (153 * ?mp + 2) div 5 + d - 1"
    using u_small [of "153 * ?mp + 2"] u_small [of "(153 * ?mp + 2) div 5 + d - 1"] mp doy by (simp del: if_split_asm)
  have y: "u yoe = yoe" using r by (intro u_small) simp_all
  have "days_from_civil y m d = (y' div 400) * 146097 + u (era_start yoe + ((153 * ?mp + 2) div 5 + d - 1)) - 719468"
    unfolding days_from_civil_def Let_def y'_def [symmetric] sdiv_floor(1) e y d s by simp
  also have "u (era_start yoe + ((153 * ?mp + 2) div 5 + d - 1)) = era_start yoe + ((153 * ?mp + 2) div 5 + d - 1)"
    using b doy by (intro u_small) linarith+
  finally show ?thesis unfolding yoe_def by linarith
qed

lemma civil_from_days_era:
  fixes z :: int
  defines "z' \<equiv> z + 719468"
  defines "y \<equiv> year_of (z' mod 146097)"
  defines "doy \<equiv> z' mod 146097 - era_start y"
  defines "mp \<equiv> (5 * doy + 2) div 153"
  defines "m \<equiv> mp + (if mp < 10 then 3 else - 9)"
  shows "civil_from_days z = (y + z' div 146097 * 400 + (if m \<le> 2 then 1 else 0), m, doy - (153 * mp + 2) div 5 + 1)"
    and "0 \<le> y" and "y < 400" and "0 \<le> doy" and "doy \<le> 365" and "doy = 365 \<Longrightarrow> leap (y + 1)"
proof -
  define doe where "doe = z' mod 146097"
  have r: "0 \<le> doe" "doe < 146097" by (simp_all add: doe_def)
  note es = era_split [OF r, unfolded doe_def, folded y_def]
  show y: "0 \<le> y" "y < 400" by (fact es(1), fact es(2))
  have d: "0 \<le> doy" "doy < era_start (y + 1) - era_start y" using es(3,4) by (simp_all add: doy_def)
  show doy: "0 \<le> doy" "doy \<le> 365" using d era_year(3) [OF y] by (simp_all split: if_splits)
  show "leap (y + 1)" if "doy = 365" using d(2) era_year(3) [OF y] that by (simp split: if_splits)
  note ms = month_split [OF doy, folded mp_def]
  have e: "z' - z' div 146097 * 146097 = doe" by (simp add: doe_def minus_div_mult_eq_mod)
  have s: "era_start y = 365 * y + y div 4 - y div 100" using y by (simp add: era_start_def)
  have b: "0 \<le> era_start y" "era_start y < 150000" unfolding s using y by linarith+
  have n: "0 \<le> doe - doe div 1460 + doe div 36524 - doe div 146096" "doe - doe div 1460 + doe div 36524 - doe div 146096 < 4294967296"
    using r zdiv_mono2 [of doe 36524 146096] zdiv_mono2 [of doe 1 1460] div_int_pos_iff [of doe 1460] div_int_pos_iff [of doe 146096]
      zdiv_mono2 [of doe 1 36524] by linarith+
  have u1: "u (doe - doe div 1460 + doe div 36524 - doe div 146096) div 365 = y"
    unfolding u_small [OF n] by (simp only: y_def year_of_def doe_def)
  have u2: "u doe = doe" "u (365 * y + y div 4 - y div 100) = era_start y" "u (doe - era_start y) = doy"
    using r b doy by (simp_all add: u_small s [symmetric] doy_def doe_def)
  have u3: "u (5 * doy + 2) div 153 = mp" using doy by (subst u_small) (simp_all add: mp_def)
  have u4: "u (153 * mp + 2) = 153 * mp + 2" using ms by (intro u_small) simp_all
  have u5: "u (doy - (153 * mp + 2) div 5 + 1) = doy - (153 * mp + 2) div 5 + 1" using ms(3) ms(4) by (intro u_small) (simp_all split: if_splits)
  have u6: "u m = m" unfolding m_def using ms by (intro u_small) (auto split: if_splits)
  show "civil_from_days z = (y + z' div 146097 * 400 + (if m \<le> 2 then 1 else 0), m, doy - (153 * mp + 2) div 5 + 1)"
    unfolding civil_from_days_def Let_def z'_def [symmetric] sdiv_floor(2) e u2(1) u1 u2(2,3) u3 u4 u5 m_def [symmetric] u6 by simp
qed

lemma leap_period: "leap (y + k * 400) = leap y"
proof -
  have "(y + k * 400) mod 4 = y mod 4" "(y + k * 400) mod 100 = y mod 100"
    using mod_mult_self1 [of y "k * 100" 4] mod_mult_self1 [of y "k * 4" 100] by (simp_all add: mult.assoc)
  then show ?thesis by (simp add: leap_def)
qed

lemma civil_days_valid:
  assumes "civil_from_days z = (y, m, d)"
  shows "valid_date y m d" and "days_from_civil y m d = z"
proof -
  note c = civil_from_days_era [of z]
  define z' where "z' = z + 719468"
  define yy where "yy = year_of (z' mod 146097)"
  define doy where "doy = z' mod 146097 - era_start yy"
  define mp where "mp = (5 * doy + 2) div 153"
  note c = civil_from_days_era [of z, folded z'_def, folded yy_def, folded doy_def, folded mp_def]
  have m: "m = mp + (if mp < 10 then 3 else - 9)" and d: "d = doy - (153 * mp + 2) div 5 + 1"
    and y: "y = yy + z' div 146097 * 400 + (if m \<le> 2 then 1 else 0)" using assms c(1) by auto
  note ms = month_split [OF c(4,5), folded mp_def, folded d]
  have mr: "1 \<le> m" "m \<le> 12" "m > 2 \<longleftrightarrow> mp < 10" "(if m > 2 then m - 3 else m + 9) = mp" using ms(1,2) m by (auto split: if_splits)
  have dr: "1 \<le> d" "d \<le> 31" using ms(3,4) by (auto split: if_splits)
  have "leap y" if "m = 2" "d = 29"
    using that m ms(1,4) c(6) y leap_period [of "yy + 1" "z' div 146097"] by (auto split: if_splits simp: algebra_simps)
  then have "d \<le> 28" if "m = 2" "\<not> leap y" using that ms(1,4) m by (cases "d = 29") (auto split: if_splits)
  then show "valid_date y m d" unfolding valid_date_def mdays_def using mr dr ms(4) m by (auto split: if_splits)
  have q: "(yy + z' div 146097 * 400) div 400 = z' div 146097" "(yy + z' div 146097 * 400) mod 400 = yy" using c(2,3) by simp_all
  have y': "y - (if m \<le> 2 then 1 else 0) = yy + z' div 146097 * 400" using y by simp
  have "days_from_civil y m d = z' div 146097 * 146097 + era_start yy + (153 * mp + 2) div 5 + d - 1 - 719468"
    by (simp only: days_from_civil_era [OF mr(1,2) dr] mr(4) y' q)
  also have "\<dots> = z' div 146097 * 146097 + z' mod 146097 - 719468" unfolding d doy_def by simp
  finally show "days_from_civil y m d = z" by (simp add: z'_def)
qed

lemma div_pred: "0 < n \<Longrightarrow> y div n = (y - 1) div n + (if y mod n = 0 then 1 else (0 :: int))"
proof -
  assume n: "0 < n"
  let ?q = "y div n" and ?r = "y mod n"
  have r: "0 \<le> ?r" "?r < n" using n by simp_all
  have y: "y = ?q * n + ?r" by simp
  show ?thesis
  proof (cases "?r = 0")
    case True
    then have "y - 1 = (n - 1) + (?q - 1) * n" using y by (simp add: algebra_simps)
    then have "(y - 1) div n = ?q - 1 + (n - 1) div n" using n by (metis div_mult_self1 less_irrefl)
    moreover have "(n - 1) div n = 0" using n by simp
    ultimately show ?thesis using True by simp
  next
    case False
    then have "y - 1 = (?r - 1) + ?q * n" using y by simp
    then have "(y - 1) div n = ?q + (?r - 1) div n" using n by (metis div_mult_self1 less_irrefl)
    moreover have "(?r - 1) div n = 0" using r False by (intro div_pos_pos_trivial) linarith+
    ultimately show ?thesis using False by simp
  qed
qed

lemma leap_indicator:
  "(if leap y then 1 else 0 :: int) = (if y mod 4 = 0 then 1 else 0) - (if y mod 100 = 0 then 1 else 0) + (if y mod 400 = 0 then 1 else 0)"
proof -
  have i: "(if A \<and> (\<not> B \<or> C) then 1 else 0 :: int) = (if A then 1 else 0) - (if B then 1 else 0) + (if C then 1 else 0)"
    if "C \<Longrightarrow> B" "B \<Longrightarrow> A" for A B C using that by auto
  show ?thesis unfolding leap_def
  proof (rule i)
    show "y mod 100 = 0" if "y mod 400 = 0" using mod_mod_cancel [of 100 400 y] that by simp
    show "y mod 4 = 0" if "y mod 100 = 0" using mod_mod_cancel [of 4 100 y] that by simp
  qed
qed

lemma leaps_step: "leaps_before (y + 1) = leaps_before y + (if leap y then 1 else 0)"
proof -
  have r: "(A + a) - (B + b) + (C + c) = A - B + C + (a - b + c)" for A B C a b c :: int by simp
  have p: "y div n = (y - 1) div n + (if y mod n = 0 then 1 else 0)" if "0 < n" for n using div_pred that by blast
  have "leaps_before (y + 1) = y div 4 - y div 100 + y div 400" by (simp add: leaps_before_def)
  also have "\<dots> = leaps_before y + (if leap y then 1 else 0)"
    unfolding leaps_before_def leap_indicator by (subst p [of 4], simp, subst p [of 100], simp, subst p [of 400], simp, rule r)
  finally show ?thesis .
qed

lemma era_total: "x div 400 * 146097 + era_start (x mod 400) = 365 * x + leaps_before (x + 1)"
proof -
  let ?q = "x div 400" and ?r = "x mod 400"
  have x: "x = ?r + ?q * 100 * 4" "x = ?r + ?q * 4 * 100" by simp_all
  have "(?r + ?q * 100 * 4) div 4 = ?q * 100 + ?r div 4" "(?r + ?q * 4 * 100) div 100 = ?q * 4 + ?r div 100"
    by (rule div_mult_self1, simp)+
  then have "x div 4 = ?q * 100 + ?r div 4" "x div 100 = ?q * 4 + ?r div 100" unfolding x [symmetric] .
  moreover have "era_start ?r = ?r * 365 + ?r div 4 - ?r div 100" by (simp add: era_start_def)
  moreover have "leaps_before (x + 1) = x div 4 - x div 100 + ?q" by (simp add: leaps_before_def)
  ultimately show ?thesis using x(1) by linarith
qed

lemma days_counted:
  assumes "1 \<le> m" and "m \<le> 12" and "1 \<le> d" and "d \<le> 31"
  shows "days_from_civil y m d = counted_days y m d"
proof -
  have "m \<in> {1, 2, 3, 4, 5, 6, 7, 8, 9, 10, 11, 12}" using assms(1,2) by (simp, presburger)
  moreover have l: "leaps_before (y + 1) = leaps_before y + (if leap y then 1 else 0)" "leaps_before 1970 = 477"
    by (fact leaps_step, simp add: leaps_before_def)
  moreover have "days_from_civil y m d = 365 * (y - (if m \<le> 2 then 1 else 0)) + leaps_before (y - (if m \<le> 2 then 1 else 0) + 1) +
      (153 * (if m > 2 then m - 3 else m + 9) + 2) div 5 + d - 1 - 719468"
    by (simp only: days_from_civil_era [OF assms] era_total)
  ultimately show ?thesis unfolding counted_days_def by (elim insertE emptyE) (simp_all add: mdays_def upto.simps)
qed

text \<open>
  C28: \<open>days_from_civil\<close> counts days: for every year, before 1970 and before the year 1 as well, and
  every month, the closed formula is the number of days from 1 January 1970 that one gets by
  adding up whole years, their leap days, the lengths of the whole months, and the days.
\<close>

theorem days_from_civil_counts:
  assumes "1 \<le> m" and "m \<le> 12" and "1 \<le> d" and "d \<le> 31"
  shows "days_from_civil y m d = counted_days y m d"
  by (rule days_counted [OF assms])

theorem days_from_civil_counts_witness: "days_from_civil 2000 3 1 = counted_days 2000 3 1"
  by (rule days_from_civil_counts) simp_all

section \<open>Broken-down time and back\<close>

lemma s32_small: "- 2147483648 \<le> x \<Longrightarrow> x < 2147483648 \<Longrightarrow> s32 x = x"
  by (simp add: s32_def)

lemma smod_nonneg: "0 \<le> a \<Longrightarrow> 0 < b \<Longrightarrow> a smod b = a mod (b :: int)" "0 \<le> a \<Longrightarrow> 0 < b \<Longrightarrow> a sdiv b = a div (b :: int)"
  by (auto simp: signed_modulo_int_def signed_divide_int_def sgn_if)

lemma day_floor:
  "(if t smod 86400 < 0 then (t smod 86400 + 86400, t sdiv 86400 - 1) else (t smod 86400, t sdiv 86400)) = (t mod 86400, t div (86400 :: int))"
proof (cases "t \<ge> 0")
  case True
  then show ?thesis by (simp add: smod_nonneg)
next
  case False
  then show ?thesis using zdiv_zminus1_eq_if [of 86400 "- t"] zmod_zminus1_eq_if [of "- t" 86400] pos_mod_sign [of 86400 "- t"]
    by (auto simp: signed_modulo_int_def signed_divide_int_def sgn_if)
qed

lemma weekday: "(k smod 7 + 11) smod 7 = (k + 4) mod (7 :: int)"
proof -
  have b: "- 7 < k smod 7" "k smod 7 < 7" "k smod 7 mod 7 = k mod 7"
    using pos_mod_bound [of 7 "\<bar>k\<bar>"] pos_mod_sign [of 7 "\<bar>k\<bar>"] by (auto simp: signed_modulo_int_def sgn_if mod_minus_eq)
  then have "(k smod 7 + 11) smod 7 = (k smod 7 + 11) mod 7" by (simp add: smod_nonneg)
  also have "\<dots> = (k mod 7 + 11) mod 7" unfolding b(3) [symmetric] by (rule mod_add_left_eq [symmetric])
  also have "\<dots> = (k + 11) mod 7" by (rule mod_add_left_eq)
  also have "k + 11 = k + 4 + 7" by simp
  also have "(k + 4 + 7) mod 7 = (k + 4) mod 7" by (rule mod_add_self2)
  finally show ?thesis .
qed

lemma clock_split: "(r div 3600) * 3600 + (r div 60 mod 60) * 60 + r mod 60 = (r :: int)"
proof -
  have "r div 3600 = r div 60 div 60" using zdiv_zmult2_eq [of 60 r 60] by simp
  then show ?thesis using div_mult_mod_eq [of "r div 60" 60] div_mult_mod_eq [of r 60] by linarith
qed

lemma mdays_sum: "0 \<le> (\<Sum>k\<leftarrow>ks. mdays y k) \<and> (\<Sum>k\<leftarrow>ks. mdays y k) \<le> 31 * int (length ks)"
proof (induction ks)
  case (Cons k ks)
  have "28 \<le> mdays y k" "mdays y k \<le> 31" by (simp_all add: mdays_def)
  then show ?case using Cons by simp
qed simp

lemma gmtime_fields_eq:
  assumes "civil_from_days (t div 86400) = (y, m, d)" and "- (2 ^ 31) \<le> y - 1900" and "y - 1900 < 2 ^ 31"
  shows "gmtime_fields t = \<lparr>tm_sec = t mod 86400 mod 60, tm_min = t mod 86400 div 60 mod 60, tm_hour = t mod 86400 div 3600,
     tm_mday = d, tm_mon = m - 1, tm_year = y - 1900, tm_wday = (t div 86400 + 4) mod 7,
     tm_yday = (\<Sum>k\<leftarrow>[1..m - 1]. mdays y k) + d - 1, tm_isdst = 0, tm_gmtoff = 0, tm_zone = ''UTC''\<rparr>"
proof -
  let ?r = "t mod 86400" and ?D = "t div 86400"
  note v = civil_days_valid [OF assms(1)]
  have md: "1 \<le> m" "m \<le> 12" "1 \<le> d" "d \<le> 31" using v(1) by (auto simp: valid_date_def mdays_def split: if_splits)
  have r: "0 \<le> ?r" "?r < 86400" by simp_all
  have q: "?r smod 60 = ?r mod 60" "?r sdiv 60 smod 60 = ?r div 60 mod 60" "?r sdiv 3600 = ?r div 3600"
    using r by (simp_all add: smod_nonneg)
  have "0 \<le> ?r div 60 mod 60" "?r div 60 mod 60 < 60" "0 \<le> ?r div 3600" "?r div 3600 < 24" using r by simp_all
  moreover have w: "0 \<le> (?D + 4) mod 7" "(?D + 4) mod 7 < 7" by simp_all
  moreover have yd: "?D - days_from_civil y 1 1 = (\<Sum>k\<leftarrow>[1..m - 1]. mdays y k) + d - 1"
    using v(2) days_counted [OF md, of y] days_counted [of 1 1 y] by (simp add: counted_days_def)
  moreover have "0 \<le> (\<Sum>k\<leftarrow>[1..m - 1]. mdays y k)" "(\<Sum>k\<leftarrow>[1..m - 1]. mdays y k) \<le> 31 * 11"
    using mdays_sum [of y "[1..m - 1]"] md(1,2) by simp_all
  ultimately show ?thesis
    unfolding gmtime_fields_def Let_def day_floor prod.case assms(1) weekday q yd
    using md assms(2,3) by (simp add: s32_small)
qed

text \<open>
  C29: Breaking a time down and putting it together again gives the same time, before 1970 as well, as
  long as the year fits an \<open>int\<close>; and the fields in between are right: a clock time, a date of the
  Gregorian calendar, the weekday counted from a Thursday, and the day of the year.
\<close>

theorem gmtime_timegm:
  assumes "civil_from_days (t div 86400) = (y, m, d)" and "- (2 ^ 31) \<le> y - 1900" and "y - 1900 < 2 ^ 31"
  shows "timegm (Some (gmtime_fields t)) = Inr (t, gmtime_fields t) \<and>
      tm_sec (gmtime_fields t) \<in> {0..<60} \<and> tm_min (gmtime_fields t) \<in> {0..<60} \<and> tm_hour (gmtime_fields t) \<in> {0..<24} \<and>
      valid_date (tm_year (gmtime_fields t) + 1900) (tm_mon (gmtime_fields t) + 1) (tm_mday (gmtime_fields t)) \<and>
      tm_wday (gmtime_fields t) = (t div 86400 + 4) mod 7 \<and>
      tm_yday (gmtime_fields t) = (\<Sum>k\<leftarrow>[1..m - 1]. mdays y k) + d - 1"
proof -
  let ?f = "gmtime_fields t" and ?r = "t mod 86400"
  note f = gmtime_fields_eq [OF assms] and v = civil_days_valid [OF assms(1)]
  have md: "1 \<le> m" "m \<le> 12" "1 \<le> d" "d \<le> 31" using v(1) by (auto simp: valid_date_def mdays_def split: if_splits)
  have r: "0 \<le> ?r" "?r < 86400" by simp_all
  have "u (u (m - 1) + 1) = m" using md(1,2) by (simp add: u_small)
  moreover have "(m - 1) sdiv 12 = 0" "(m - 1) smod 12 = m - 1" using md(1,2) by (simp_all add: smod_nonneg)
  moreover have "days_from_civil y m 1 + d - 1 = t div 86400"
    using v(2) days_counted [OF md, of y] days_counted [OF md(1,2), of 1 y] by (simp add: counted_days_def)
  moreover have fs: "tm_year ?f + 1900 = y" "tm_mon ?f = m - 1" "tm_mday ?f = d" "tm_hour ?f = ?r div 3600"
      "tm_min ?f = ?r div 60 mod 60" "tm_sec ?f = ?r mod 60" "tm_wday ?f = (t div 86400 + 4) mod 7"
      "tm_yday ?f = (\<Sum>k\<leftarrow>[1..m - 1]. mdays y k) + d - 1" by (simp_all add: f)
  moreover have "(m - 1 < 0) = False" using md(1) by simp
  ultimately have "timegm_secs ?f = t div 86400 * 86400 + ?r div 3600 * 3600 + (?r div 60 mod 60) * 60 + ?r mod 60"
    by (simp only: timegm_secs_def Let_def add_0_right if_False prod.case)
  also have "\<dots> = t div 86400 * 86400 + (?r div 3600 * 3600 + (?r div 60 mod 60) * 60 + ?r mod 60)" by (simp only: add.assoc)
  also have "\<dots> = t" by (simp only: clock_split div_mult_mod_eq)
  finally have "timegm_secs ?f = t" .
  then have "timegm (Some ?f) = Inr (t, ?f)" by (simp add: timegm_def)
  moreover have "tm_mon ?f + 1 = m" using fs(2) by simp
  moreover have "0 \<le> ?r div 3600" "?r div 3600 < 24" using r by simp_all
  then have "?r mod 60 \<in> {0..<60}" "?r div 60 mod 60 \<in> {0..<60}" "?r div 3600 \<in> {0..<24}" by (simp_all only: atLeastLessThan_iff) simp_all
  ultimately show ?thesis using v(1) unfolding fs by simp
qed

theorem gmtime_timegm_witness:
  "timegm (Some (gmtime_fields (- 1))) = Inr (- 1, gmtime_fields (- 1)) \<and> tm_sec (gmtime_fields (- 1)) < 60"
proof -
  have "civil_from_days ((- 1) div 86400) = (1969, 12, 31)" by code_simp
  from gmtime_timegm [OF this] show ?thesis by simp
qed

section \<open>The bound of \<open>strftime\<close>\<close>

text \<open>What every step keeps: the buffer's length, the room for a terminator, and everything past the limit.\<close>

definition within :: "nat \<Rightarrow> string \<Rightarrow> out \<Rightarrow> bool" where
  "within mx b0 ob \<longleftrightarrow> fst ob < mx \<and> length (snd ob) = length b0 \<and> drop mx (snd ob) = drop mx b0"

lemma put_within: "within mx b0 ob \<Longrightarrow> within mx b0 (snd (put mx w ob))"
proof (induction mx w ob rule: put.induct)
  case (2 mx c s n b)
  then show ?case by (auto simp: within_def)
qed simp

lemma conv_within: "within mx b0 ob \<Longrightarrow> strftime_conv mx c tm ob = Some (ok, ob') \<Longrightarrow> within mx b0 ob'"
  using put_within [of mx b0 ob] unfolding strftime_conv_def put_num_def Let_def
  by (auto split: if_splits) (metis snd_conv)+

lemma loop_within: "within mx b0 ob \<Longrightarrow> within mx b0 (snd (strftime_loop mx fmt tm ob))"
proof (induction mx fmt tm ob rule: strftime_loop.induct)
  case (2 mx c fmt tm ob)
  let ?rest = "if peek fmt = CHR ''E'' \<or> peek fmt = CHR ''O'' then tl fmt else fmt"
  show ?case
  proof (cases "c = CHR ''%''")
    case False
    then show ?thesis using "2.IH"(1) [OF False] "2.prems" by (auto simp: within_def)
  next
    case True
    show ?thesis
    proof (cases ?rest)
      case Nil
      then show ?thesis using True "2.prems" by (auto simp: within_def)
    next
      case (Cons d fmt')
      show ?thesis
      proof (cases "strftime_conv mx d tm ob")
        case None
        then show ?thesis using "2.IH"(2) [OF _ Cons None] True Cons "2.prems" by (auto simp: within_def)
      next
        case (Some r)
        obtain ok ob' where r: "r = (ok, ob')" by (cases r)
        have w: "within mx b0 ob'" using conv_within [OF "2.prems"] Some r by simp
        then show ?thesis using "2.IH"(3) [OF _ Cons Some r [symmetric]] True Cons Some r by auto
      qed
    qed
  qed
qed simp

text \<open>
  C30: \<open>strftime\<close> never writes past the size it is given, for any format and any field values: the bytes
  of the buffer from that size on are untouched, and a non-zero result is smaller than the size
  and is where the terminator stands.
\<close>

theorem strftime_bounded:
  assumes "mx \<le> length out" and "strftime out mx fmt tm = (n, b)"
  shows "length b = length out \<and> drop mx b = drop mx out \<and> (n \<noteq> 0 \<longrightarrow> n < mx \<and> b ! n = CHR 0x00)"
proof (cases "mx = 0")
  case False
  then have "within mx out (snd (strftime_loop mx fmt tm (0, out)))" by (intro loop_within) (simp add: within_def)
  moreover obtain ok k c where l: "strftime_loop mx fmt tm (0, out) = (ok, (k, c))" by (metis prod_cases3)
  ultimately have w: "k < mx" "length c = length out" "drop mx c = drop mx out" by (simp_all add: within_def)
  show ?thesis
  proof (cases ok)
    case True
    then have "n = k" "b = c[k := CHR 0x00]" using assms(2) False l by (auto simp: strftime_def)
    then show ?thesis using w assms(1) by simp
  next
    case no: False
    then show ?thesis using assms(2) False l w by (simp add: strftime_def)
  qed
qed (use assms in \<open>simp add: strftime_def\<close>)

theorem strftime_bounded_witness:
  "fst (strftime ''xxxxxxxxxxxx'' 11 ''%F'' (gmtime_fields 0)) = 10 \<and>
   snd (strftime ''xxxxxxxxxxxx'' 11 ''%F'' (gmtime_fields 0)) ! 10 = CHR 0x00"
proof -
  obtain n b where e: "strftime ''xxxxxxxxxxxx'' 11 ''%F'' (gmtime_fields 0) = (n, b)" by fastforce
  have "fst (strftime ''xxxxxxxxxxxx'' 11 ''%F'' (gmtime_fields 0)) = 10" by code_simp
  then show ?thesis using strftime_bounded [OF _ e] e by simp
qed

end
