(* ===== verification/Chip8.thy ===== *)
theory Chip8
  imports Vx_Prelude "HOL-Library.Monad_Syntax"
begin

text \<open>
  The CHIP-8 interpreter of the desktop (\<open>src/chip8.h\<close>): the machine, the thirty-five
  instructions, the frame with its two timers, and the key and mouse handlers of the window.

  The machine's arrays are lists and every access is checked: an index outside an array is a
  fault of the interpreter, the value \<^const>\<open>None\<close>.  The theorems show that no program and no
  sequence of events reaches one, and what the sprite instruction does to the display.
  Drawing the window is left out, as it only reads the display.
\<close>

section \<open>The machine\<close>

record c8 =
  c8_mem :: "u8 list"
  c8_v :: "u8 list"
  c8_i :: u16
  c8_pc :: u16
  c8_stack :: "u16 list"
  c8_sp :: u8
  c8_dt :: u8
  c8_st :: u8
  c8_fb :: "u8 list"
  c8_keys :: "u8 list"
  c8_running :: bool
  c8_halted :: bool
  c8_rng :: u32

definition c8_boot :: c8 where
  "c8_boot = \<lparr> c8_mem = replicate 4096 0, c8_v = replicate 16 0, c8_i = 0, c8_pc = 0,
     c8_stack = replicate 16 0, c8_sp = 0, c8_dt = 0, c8_st = 0, c8_fb = replicate (64 * 32) 0,
     c8_keys = replicate 16 0, c8_running = False, c8_halted = False, c8_rng = 0x2545F491 \<rparr>"

definition c8_font :: "u8 list" where
  "c8_font =
    [0xF0,0x90,0x90,0x90,0xF0, 0x20,0x60,0x20,0x20,0x70,
     0xF0,0x10,0xF0,0x80,0xF0, 0xF0,0x10,0xF0,0x10,0xF0,
     0x90,0x90,0xF0,0x10,0x10, 0xF0,0x80,0xF0,0x10,0xF0,
     0xF0,0x80,0xF0,0x90,0xF0, 0xF0,0x10,0x20,0x40,0x40,
     0xF0,0x90,0xF0,0x90,0xF0, 0xF0,0x90,0xF0,0x10,0xF0,
     0xF0,0x90,0xF0,0x90,0x90, 0xE0,0x90,0xE0,0x90,0xE0,
     0xF0,0x80,0x80,0x80,0xF0, 0xE0,0x90,0x90,0x90,0xE0,
     0xF0,0x80,0xF0,0x80,0xF0, 0xF0,0x80,0xF0,0x80,0x80]"

definition c8_rom :: "u8 list" where
  "c8_rom =
    [0x60,0x00, 0x61,0x0C, 0x62,0x01, 0xA2,0x22,
     0x00,0xE0, 0xD0,0x15, 0x80,0x24, 0x40,0x38,
     0x62,0xFF, 0x40,0x00, 0x62,0x01, 0x71,0x01,
     0x41,0x1B, 0x61,0x0C, 0x63,0x04, 0xF3,0x15,
     0x12,0x08,
     0x00,
     0x20, 0x70, 0xF8, 0x70, 0x20]"

text \<open>The three xor-and-shift rounds of the generator; the new state is also the result.\<close>

definition c8_rand :: "c8 \<Rightarrow> u32 \<times> c8" where
  "c8_rand s =
    (let r = c8_rng s;
         r = r XOR push_bit 13 r;
         r = r XOR drop_bit 17 r;
         r = r XOR push_bit 5 r
     in (r, s\<lparr>c8_rng := r\<rparr>))"

text \<open>The copy loops of the reset: the bytes \<open>bs\<close> replace those of the memory from \<open>a\<close> on.\<close>

definition c8_load :: "nat \<Rightarrow> u8 list \<Rightarrow> u8 list \<Rightarrow> u8 list" where
  "c8_load a bs mem = take a mem @ bs @ drop (a + length bs) mem"

definition c8_reset :: "c8 \<Rightarrow> c8" where
  "c8_reset s = s\<lparr>
     c8_mem := c8_load 0x200 (take (4096 - 0x200) c8_rom) (c8_load 0 c8_font (replicate 4096 0)),
     c8_v := replicate 16 0, c8_keys := replicate 16 0, c8_fb := replicate (64 * 32) 0,
     c8_i := 0, c8_pc := 0x200, c8_sp := 0, c8_dt := 0, c8_st := 0, c8_halted := False\<rparr>"

section \<open>Instructions\<close>

definition set_v :: "nat \<Rightarrow> u8 \<Rightarrow> c8 \<Rightarrow> c8 option" where
  "set_v x b s = do { vs \<leftarrow> aput x b (c8_v s); Some (s\<lparr>c8_v := vs\<rparr>) }"

definition set_mem :: "u16 \<Rightarrow> u8 \<Rightarrow> c8 \<Rightarrow> c8 option" where
  "set_mem a b s = do { m \<leftarrow> aput (unat (a AND 0xFFF)) b (c8_mem s); Some (s\<lparr>c8_mem := m\<rparr>) }"

definition skip_next :: "c8 \<Rightarrow> c8" where
  "skip_next s = s\<lparr>c8_pc := (c8_pc s + 2) AND 0xFFF\<rparr>"

definition skip_if :: "bool \<Rightarrow> c8 \<Rightarrow> c8" where
  "skip_if b s = (if b then skip_next s else s)"

text \<open>Opcodes \<open>0\<close> and \<open>2\<close>: clear the display, return and call.\<close>

definition c8_sys :: "u16 \<Rightarrow> c8 \<Rightarrow> c8 option" where
  "c8_sys op s =
    (if op = 0x00E0 then Some (s\<lparr>c8_fb := replicate (64 * 32) 0\<rparr>)
     else if op = 0x00EE then
       if c8_sp s > 0
       then do { a \<leftarrow> aget (c8_stack s) (unat (c8_sp s - 1)); Some (s\<lparr>c8_sp := c8_sp s - 1, c8_pc := a\<rparr>) }
       else Some s
     else Some s)"

definition c8_call :: "u16 \<Rightarrow> c8 \<Rightarrow> c8 option" where
  "c8_call nnn s =
    (if c8_sp s < 16
     then do { st \<leftarrow> aput (unat (c8_sp s)) (c8_pc s) (c8_stack s);
               Some (s\<lparr>c8_stack := st, c8_sp := c8_sp s + 1, c8_pc := nnn\<rparr>) }
     else Some s)"

text \<open>Opcode \<open>8\<close>: the arithmetic group, selected by the last nibble.\<close>

definition c8_alu :: "nat \<Rightarrow> nat \<Rightarrow> nat \<Rightarrow> c8 \<Rightarrow> c8 option" where
  "c8_alu x y n s = do {
     vx \<leftarrow> aget (c8_v s) x;
     vy \<leftarrow> aget (c8_v s) y;
     if n = 0 then set_v x vy s
     else if n = 1 then set_v x (vx OR vy) s
     else if n = 2 then set_v x (vx AND vy) s
     else if n = 3 then set_v x (vx XOR vy) s
     else if n = 4 then
       do { s \<leftarrow> set_v 15 (of_bool (unat vx + unat vy > 0xFF)) s; set_v x (vx + vy) s }
     else if n = 5 then do { s \<leftarrow> set_v x (vx - vy) s; set_v 15 (of_bool (vx \<ge> vy)) s }
     else if n = 6 then do { s \<leftarrow> set_v x (drop_bit 1 vx) s; set_v 15 (vx AND 1) s }
     else if n = 7 then do { s \<leftarrow> set_v x (vy - vx) s; set_v 15 (of_bool (vy \<ge> vx)) s }
     else if n = 0xE then do { s \<leftarrow> set_v x (push_bit 1 vx) s; set_v 15 (drop_bit 7 vx AND 1) s }
     else Some s }"

text \<open>
  Opcode \<open>D\<close>: one sprite of \<open>n\<close> rows.  The coordinates are read from the registers in each
  round, as the code does.
\<close>

definition draw_pixel :: "nat \<Rightarrow> nat \<Rightarrow> u8 \<Rightarrow> nat \<Rightarrow> c8 \<Rightarrow> c8 option" where
  "draw_pixel x py bits col s =
    (if \<not> bit bits (7 - col) then Some s
     else do {
       vx \<leftarrow> aget (c8_v s) x;
       let px = (unat vx + col) mod 64;
       p \<leftarrow> aget (c8_fb s) (py * 64 + px);
       s \<leftarrow> (if p \<noteq> 0 then set_v 15 1 s else Some s);
       fb \<leftarrow> aput (py * 64 + px) (p XOR 1) (c8_fb s);
       Some (s\<lparr>c8_fb := fb\<rparr>) })"

definition draw_row :: "nat \<Rightarrow> nat \<Rightarrow> nat \<Rightarrow> c8 \<Rightarrow> c8 option" where
  "draw_row x y row s = do {
     bits \<leftarrow> aget (c8_mem s) (unat ((c8_i s + of_nat row) AND 0xFFF));
     vy \<leftarrow> aget (c8_v s) y;
     ofold (draw_pixel x ((unat vy + row) mod 32) bits) [0..<8] s }"

definition c8_draw :: "nat \<Rightarrow> nat \<Rightarrow> nat \<Rightarrow> c8 \<Rightarrow> c8 option" where
  "c8_draw x y n s = do { s \<leftarrow> set_v 15 0 s; ofold (draw_row x y) [0..<n] s }"

definition c8_keyskip :: "nat \<Rightarrow> u8 \<Rightarrow> c8 \<Rightarrow> c8 option" where
  "c8_keyskip x kk s = do {
     vx \<leftarrow> aget (c8_v s) x;
     k \<leftarrow> aget (c8_keys s) (unat (vx AND 0xF));
     Some (skip_if (kk = 0xA1 \<and> k = 0) (skip_if (kk = 0x9E \<and> k \<noteq> 0) s)) }"

text \<open>The first key that is down, for the instruction that waits for one.\<close>

fun first_key :: "nat list \<Rightarrow> u8 list \<Rightarrow> nat option option" where
  "first_key [] keys = Some None"
| "first_key (k # ks) keys =
     do { b \<leftarrow> aget keys k; if b \<noteq> 0 then Some (Some k) else first_key ks keys }"

definition c8_waitkey :: "nat \<Rightarrow> c8 \<Rightarrow> c8 option" where
  "c8_waitkey x s = do {
     got \<leftarrow> first_key [0..<16] (c8_keys s);
     case got of None \<Rightarrow> Some (s\<lparr>c8_pc := (c8_pc s - 2) AND 0xFFF\<rparr>)
     | Some k \<Rightarrow> set_v x (of_nat k) s }"

definition c8_store :: "nat \<Rightarrow> c8 \<Rightarrow> c8 option" where
  "c8_store x s = ofold (\<lambda>k s. do { b \<leftarrow> aget (c8_v s) k; set_mem (c8_i s + of_nat k) b s }) [0..<x + 1] s"

definition c8_fetch :: "nat \<Rightarrow> c8 \<Rightarrow> c8 option" where
  "c8_fetch x s =
     ofold (\<lambda>k s. do { b \<leftarrow> aget (c8_mem s) (unat ((c8_i s + of_nat k) AND 0xFFF)); set_v k b s }) [0..<x + 1] s"

definition c8_bcd :: "u8 \<Rightarrow> c8 \<Rightarrow> c8 option" where
  "c8_bcd b s = do {
     s \<leftarrow> set_mem (c8_i s + 0) (b div 100) s;
     s \<leftarrow> set_mem (c8_i s + 1) ((b div 10) mod 10) s;
     set_mem (c8_i s + 2) (b mod 10) s }"

text \<open>Opcode \<open>F\<close>: timers, the index register and block moves, selected by the last byte.\<close>

definition c8_misc :: "nat \<Rightarrow> u8 \<Rightarrow> c8 \<Rightarrow> c8 option" where
  "c8_misc x kk s = do {
     vx \<leftarrow> aget (c8_v s) x;
     if kk = 0x07 then set_v x (c8_dt s) s
     else if kk = 0x0A then c8_waitkey x s
     else if kk = 0x15 then Some (s\<lparr>c8_dt := vx\<rparr>)
     else if kk = 0x18 then Some (s\<lparr>c8_st := vx\<rparr>)
     else if kk = 0x1E then Some (s\<lparr>c8_i := (c8_i s + ucast vx) AND 0xFFF\<rparr>)
     else if kk = 0x29 then Some (s\<lparr>c8_i := ucast (vx AND 0xF) * 5\<rparr>)
     else if kk = 0x33 then c8_bcd vx s
     else if kk = 0x55 then c8_store x s
     else if kk = 0x65 then c8_fetch x s
     else Some s }"

text \<open>The decoder: the \<open>switch\<close> on the first nibble.\<close>

definition c8_exec :: "u16 \<Rightarrow> c8 \<Rightarrow> c8 option" where
  "c8_exec op s =
    (let x = unat (drop_bit 8 op AND 0x0F);
         y = unat (drop_bit 4 op AND 0x0F);
         n = unat (op AND 0x0F);
         kk = (ucast (op AND 0xFF) :: u8);
         nnn = op AND 0x0FFF;
         t = unat (drop_bit 12 op)
     in do {
     vx \<leftarrow> aget (c8_v s) x;
     vy \<leftarrow> aget (c8_v s) y;
     if t = 0 then c8_sys op s
     else if t = 1 then Some (s\<lparr>c8_pc := nnn\<rparr>)
     else if t = 2 then c8_call nnn s
     else if t = 3 then Some (skip_if (vx = kk) s)
     else if t = 4 then Some (skip_if (vx \<noteq> kk) s)
     else if t = 5 then Some (skip_if (vx = vy) s)
     else if t = 6 then set_v x kk s
     else if t = 7 then set_v x (vx + kk) s
     else if t = 8 then c8_alu x y n s
     else if t = 9 then Some (skip_if (vx \<noteq> vy) s)
     else if t = 0xA then Some (s\<lparr>c8_i := nnn\<rparr>)
     else if t = 0xB then do { v0 \<leftarrow> aget (c8_v s) 0; Some (s\<lparr>c8_pc := (nnn + ucast v0) AND 0xFFF\<rparr>) }
     else if t = 0xC then (let (r, s) = c8_rand s in set_v x (ucast r AND kk) s)
     else if t = 0xD then c8_draw x y n s
     else if t = 0xE then c8_keyskip x kk s
     else c8_misc x kk s })"

definition c8_step :: "c8 \<Rightarrow> c8 option" where
  "c8_step s =
    (if c8_halted s then Some s
     else let pc = c8_pc s AND 0xFFF in do {
       hi \<leftarrow> aget (c8_mem s) (unat pc);
       lo \<leftarrow> aget (c8_mem s) (unat ((pc + 1) AND 0xFFF));
       c8_exec (push_bit 8 (ucast hi) OR ucast lo) (s\<lparr>c8_pc := (pc + 2) AND 0xFFF\<rparr>) })"

definition c8_frame :: "c8 \<Rightarrow> c8 option" where
  "c8_frame s =
    (if \<not> c8_running s then Some s
     else do {
       s \<leftarrow> ofold (\<lambda>_. c8_step) [0..<8] s;
       let s = (if c8_dt s \<noteq> 0 then s\<lparr>c8_dt := c8_dt s - 1\<rparr> else s);
       Some (if c8_st s \<noteq> 0 then s\<lparr>c8_st := c8_st s - 1\<rparr> else s) })"

section \<open>The window\<close>

text \<open>The buttons: \<open>Run\<close> is at offset 10 and \<open>Reset\<close> at offset 72, each 56 pixels wide.\<close>

definition on_button :: "int \<Rightarrow> int \<Rightarrow> int \<Rightarrow> int \<Rightarrow> nat \<Rightarrow> bool" where
  "on_button mx my cx cy i \<longleftrightarrow>
    (let bx = cx + 10 + int i * 62 in mx \<ge> bx \<and> mx < bx + 56 \<and> my \<ge> cy + 5 \<and> my < cy + 29)"

definition c8_app_mouse :: "int \<Rightarrow> int \<Rightarrow> bool \<Rightarrow> bool \<Rightarrow> int \<Rightarrow> int \<Rightarrow> c8 \<Rightarrow> c8" where
  "c8_app_mouse mx my lmb prev_lmb cx cy s =
    (if \<not> (lmb \<and> \<not> prev_lmb) then s
     else if on_button mx my cx cy 0 then s\<lparr>c8_running := \<not> c8_running s\<rparr>
     else if on_button mx my cx cy 1 then c8_reset s\<lparr>c8_running := True\<rparr>
     else s)"

definition key_index :: "char \<Rightarrow> nat option" where
  "key_index ch =
    (case filter (\<lambda>i. ''x123qweasdzc4rfv'' ! i = ch) [0..<16] of [] \<Rightarrow> None | i # _ \<Rightarrow> Some i)"

definition c8_app_key :: "char \<Rightarrow> c8 \<Rightarrow> c8 option" where
  "c8_app_key ch s =
    (if ch = CHR '' '' then Some (s\<lparr>c8_running := \<not> c8_running s\<rparr>)
     else case key_index ch of None \<Rightarrow> Some s
     | Some i \<Rightarrow> do { ks \<leftarrow> aput i 1 (c8_keys s); Some (s\<lparr>c8_keys := ks\<rparr>) })"

definition c8_keys_decay :: "c8 \<Rightarrow> c8 option" where
  "c8_keys_decay s =
     ofold (\<lambda>i s. do { k \<leftarrow> aget (c8_keys s) i;
                       if k \<noteq> 0 then do { ks \<leftarrow> aput i 0 (c8_keys s); Some (s\<lparr>c8_keys := ks\<rparr>) } else Some s })
       [0..<16] s"

text \<open>What the desktop can call, in any order.\<close>

datatype c8_event = Frame | Key char | Mouse int int bool bool int int | Decay

fun c8_dispatch :: "c8_event \<Rightarrow> c8 \<Rightarrow> c8 option" where
  "c8_dispatch Frame s = c8_frame s"
| "c8_dispatch (Key ch) s = c8_app_key ch s"
| "c8_dispatch (Mouse mx my lmb prev cx cy) s = Some (c8_app_mouse mx my lmb prev cx cy s)"
| "c8_dispatch Decay s = c8_keys_decay s"

section \<open>No program faults the interpreter\<close>

definition c8_wf :: "c8 \<Rightarrow> bool" where
  "c8_wf s \<longleftrightarrow> length (c8_mem s) = 4096 \<and> length (c8_v s) = 16 \<and> length (c8_stack s) = 16 \<and>
     length (c8_fb s) = 2048 \<and> length (c8_keys s) = 16 \<and> c8_sp s \<le> 16 \<and>
     c8_pc s \<le> 0xFFF \<and> c8_i s \<le> 0xFFF \<and> list_all (\<lambda>a. a \<le> 0xFFF) (c8_stack s) \<and>
     list_all (\<lambda>p. p \<le> 1) (c8_fb s)"

lemma and_fff_le [simp]: "(a :: u16) AND 0xFFF \<le> 0xFFF"
  by (simp add: word_and_le1)

lemma and_fff_less [simp]: "unat ((a :: u16) AND 0xFFF) < 4096"
proof -
  have "unat (a AND 0xFFF) \<le> unat (0xFFF :: u16)" using and_fff_le word_le_nat_alt by blast
  then show ?thesis by simp
qed

lemma and_0f_less [simp]: "unat ((a :: 'a::len word) AND 0xF) < 16"
proof -
  have "(a AND 0xF) = take_bit 4 a" by (simp add: take_bit_eq_mask mask_eq_exp_minus_1)
  then have "unat (a AND 0xF) = take_bit 4 (unat a)" by (simp add: unsigned_take_bit_eq)
  then show ?thesis by (simp add: take_bit_eq_mod)
qed

lemma c8_wfD [simp, dest]:
  assumes "c8_wf s"
  shows "length (c8_mem s) = 4096" and "length (c8_v s) = 16" and "length (c8_stack s) = 16"
    and "length (c8_fb s) = 2048" and "length (c8_keys s) = 16"
  using assms by (simp_all add: c8_wf_def)

text \<open>The updates the instructions make keep the machine well formed.\<close>

lemma c8_wf_upd [simp]:
  assumes "c8_wf s"
  shows "length xs = 16 \<Longrightarrow> c8_wf (s\<lparr>c8_v := xs\<rparr>)" and "length xs = 4096 \<Longrightarrow> c8_wf (s\<lparr>c8_mem := xs\<rparr>)"
    and "length xs = 16 \<Longrightarrow> c8_wf (s\<lparr>c8_keys := xs\<rparr>)" and "c8_wf (s\<lparr>c8_dt := b\<rparr>)"
    and "c8_wf (s\<lparr>c8_st := b\<rparr>)" and "c8_wf (s\<lparr>c8_rng := r\<rparr>)" and "c8_wf (s\<lparr>c8_running := rn\<rparr>)"
    and "length xs = 2048 \<Longrightarrow> list_all (\<lambda>p. p \<le> 1) xs \<Longrightarrow> c8_wf (s\<lparr>c8_fb := xs\<rparr>)"
    and "a \<le> 0xFFF \<Longrightarrow> c8_wf (s\<lparr>c8_pc := a\<rparr>)" and "a \<le> 0xFFF \<Longrightarrow> c8_wf (s\<lparr>c8_i := a\<rparr>)"
  using assms by (simp_all add: c8_wf_def list_all_iff del: c8_wfD)

lemma c8_wf_skip [simp]: "c8_wf s \<Longrightarrow> c8_wf (skip_if b s)"
  by (simp add: skip_if_def skip_next_def)

lemma set_v_eq [simp]: "c8_wf s \<Longrightarrow> x < 16 \<Longrightarrow> set_v x b s = Some (s\<lparr>c8_v := (c8_v s)[x := b]\<rparr>)"
  by (simp add: set_v_def)

lemma set_mem_eq [simp]:
  "c8_wf s \<Longrightarrow> set_mem a b s = Some (s\<lparr>c8_mem := (c8_mem s)[unat (a AND 0xFFF) := b]\<rparr>)"
  by (simp add: set_mem_def)

definition keeps :: "(c8 \<Rightarrow> c8 option) \<Rightarrow> bool" where
  "keeps f \<longleftrightarrow> (\<forall>s. c8_wf s \<longrightarrow> (\<exists>s'. f s = Some s' \<and> c8_wf s'))"

lemma keepsI: "(\<And>s. c8_wf s \<Longrightarrow> \<exists>s'. f s = Some s' \<and> c8_wf s') \<Longrightarrow> keeps f"
  by (simp add: keeps_def)

lemma keepsD: "keeps f \<Longrightarrow> c8_wf s \<Longrightarrow> \<exists>s'. f s = Some s' \<and> c8_wf s'"
  by (simp add: keeps_def)

lemma keeps_ofold: "(\<And>i. i \<in> set xs \<Longrightarrow> keeps (f i)) \<Longrightarrow> keeps (ofold f xs)"
  by (intro keepsI ofold_total) (auto dest: keepsD)

lemma keeps_sys: "keeps (c8_sys op)"
proof (rule keepsI)
  fix s assume wf: "c8_wf s"
  have pop: "c8_wf (s\<lparr>c8_sp := c8_sp s - 1, c8_pc := c8_stack s ! unat (c8_sp s - 1)\<rparr>)"
    and "unat (c8_sp s - 1) < 16" if "c8_sp s > 0"
  proof -
    have "c8_sp s \<le> 16" using wf by (simp add: c8_wf_def del: c8_wfD)
    with that have "unat (c8_sp s - 1) < 16" and le: "c8_sp s - 1 \<le> 16"
      by (auto simp: word_le_nat_alt word_less_nat_alt unat_sub_if')
    then show "unat (c8_sp s - 1) < 16" by blast
    with wf le show "c8_wf (s\<lparr>c8_sp := c8_sp s - 1, c8_pc := c8_stack s ! unat (c8_sp s - 1)\<rparr>)"
      by (simp add: c8_wf_def list_all_length del: c8_wfD)
  qed
  with wf show "\<exists>s'. c8_sys op s = Some s' \<and> c8_wf s'" by (simp add: c8_sys_def list_all_iff)
qed

lemma keeps_call: "nnn \<le> 0xFFF \<Longrightarrow> keeps (c8_call nnn)"
proof (rule keepsI)
  fix s assume wf: "c8_wf s" and nnn: "nnn \<le> 0xFFF"
  have "unat (c8_sp s) < 16" and "c8_sp s + 1 \<le> 16" if "c8_sp s < 16"
    using that by (auto simp: word_less_nat_alt word_le_nat_alt unat_word_ariths)
  with wf nnn show "\<exists>s'. c8_call nnn s = Some s' \<and> c8_wf s'"
    by (auto simp: c8_call_def c8_wf_def list_all_iff simp del: c8_wfD dest!: set_update_subset_insert [THEN subsetD])
qed

lemma keeps_alu: "x < 16 \<Longrightarrow> y < 16 \<Longrightarrow> keeps (c8_alu x y n)"
  by (intro keepsI) (simp add: c8_alu_def)

lemma xor_one_le [simp]: "(p :: u8) \<le> 1 \<Longrightarrow> p XOR 1 \<le> 1"
proof -
  assume "p \<le> 1"
  then have "unat p = 0 \<or> unat p = 1" by (auto simp: word_le_nat_alt)
  then have "p = 0 \<or> p = 1" by (metis unat_eq_zero unat_1 word_unat_eq_iff)
  then show ?thesis by auto
qed

lemma list_all_update: "list_all P xs \<Longrightarrow> P v \<Longrightarrow> list_all P (xs[i := v])"
  by (auto simp: list_all_iff dest!: set_update_subset_insert [THEN subsetD])

lemma keeps_draw_pixel: "x < 16 \<Longrightarrow> py < 32 \<Longrightarrow> keeps (draw_pixel x py bits col)"
proof (rule keepsI)
  fix s assume wf: "c8_wf s" and "x < 16" "py < 32"
  moreover have p: "py * 64 + (unat (c8_v s ! x) + col) mod 64 < 2048" (is "?p < _")
    using \<open>py < 32\<close> mod_less_divisor [of 64 "unat (c8_v s ! x) + col"] by linarith
  moreover have p1: "c8_fb s ! ?p XOR 1 \<le> 1" and "list_all (\<lambda>p. p \<le> 1) (c8_fb s)"
    using wf p by (simp_all add: c8_wf_def list_all_length del: c8_wfD)
  ultimately show "\<exists>s'. draw_pixel x py bits col s = Some s' \<and> c8_wf s'"
    by (simp add: draw_pixel_def Let_def list_all_update)
qed

lemma keeps_draw: "x < 16 \<Longrightarrow> y < 16 \<Longrightarrow> keeps (c8_draw x y n)"
proof -
  assume xy: "x < 16" "y < 16"
  then have "keeps (draw_row x y row)" for row
    by (intro keepsI) (simp add: draw_row_def keepsD [OF keeps_ofold] keeps_draw_pixel)
  then show ?thesis by (intro keepsI) (simp add: c8_draw_def keepsD [OF keeps_ofold])
qed

lemma first_key_total: "set ks \<subseteq> {..<length keys} \<Longrightarrow> \<exists>g. first_key ks keys = Some g"
  by (induction ks) auto

lemma keeps_waitkey: "x < 16 \<Longrightarrow> keeps (c8_waitkey x)"
proof (rule keepsI)
  fix s assume "x < 16" and wf: "c8_wf s"
  moreover from wf obtain g where "first_key [0..<16] (c8_keys s) = Some g"
    using first_key_total [of "[0..<16]" "c8_keys s"] by fastforce
  ultimately show "\<exists>s'. c8_waitkey x s = Some s' \<and> c8_wf s'"
    by (cases g) (simp_all add: c8_waitkey_def)
qed

lemma keeps_block_moves: "x < 16 \<Longrightarrow> keeps (c8_store x)" "x < 16 \<Longrightarrow> keeps (c8_fetch x)"
  unfolding c8_store_def c8_fetch_def by (rule keeps_ofold, rule keepsI, auto simp del: upt_Suc)+

lemma keeps_misc: "x < 16 \<Longrightarrow> keeps (c8_misc x kk)"
proof (rule keepsI)
  fix s assume x: "x < 16" and wf: "c8_wf s"
  have "ucast (c8_v s ! x AND 0xF) * 5 \<le> (0xFFF :: u16)"
    using and_0f_less [of "c8_v s ! x"]
    by (simp add: word_le_nat_alt unat_word_ariths unsigned_ucast_eq take_bit_eq_mod del: and_0f_less)
  with x wf show "\<exists>s'. c8_misc x kk s = Some s' \<and> c8_wf s'"
    by (simp add: c8_misc_def c8_bcd_def keepsD [OF keeps_waitkey] keepsD [OF keeps_block_moves(1)] keepsD [OF keeps_block_moves(2)])
qed

lemma keeps_exec: "keeps (c8_exec op)"
proof (rule keepsI)
  fix s assume wf: "c8_wf s"
  then show "\<exists>s'. c8_exec op s = Some s' \<and> c8_wf s'"
    by (simp add: c8_exec_def Let_def c8_rand_def c8_keyskip_def keepsD [OF keeps_sys]
        keepsD [OF keeps_call] keepsD [OF keeps_alu] keepsD [OF keeps_draw] keepsD [OF keeps_misc])
qed

lemma keeps_step: "keeps c8_step"
  by (intro keepsI) (simp add: c8_step_def Let_def keepsD [OF keeps_exec])

lemma keeps_frame: "keeps c8_frame"
proof (rule keepsI)
  fix s assume wf: "c8_wf s"
  then obtain t where "ofold (\<lambda>_. c8_step) [0..<8] s = Some t" "c8_wf t"
    using keepsD [OF keeps_ofold [of "[0..<8]" "\<lambda>_. c8_step"]] keeps_step by blast
  with wf show "\<exists>s'. c8_frame s = Some s' \<and> c8_wf s'"
    by (simp add: c8_frame_def Let_def)
qed

lemma c8_wf_reset: "c8_wf s \<Longrightarrow> c8_wf (c8_reset s)"
  by (simp add: c8_wf_def c8_reset_def c8_load_def c8_font_def c8_rom_def list_all_iff del: c8_wfD)

lemma key_index_less: "key_index ch = Some i \<Longrightarrow> i < 16"
proof -
  assume "key_index ch = Some i"
  then obtain js where "filter (\<lambda>i. ''x123qweasdzc4rfv'' ! i = ch) [0..<16] = i # js"
    unfolding key_index_def by (metis (no_types, lifting) list.case_eq_if list.collapse option.distinct(1) option.inject)
  then have "i \<in> set (filter (\<lambda>i. ''x123qweasdzc4rfv'' ! i = ch) [0..<16])" by (metis list.set_intros(1))
  then show ?thesis by simp
qed

lemma keeps_event: "keeps (c8_dispatch e)"
proof (cases e)
  case Frame
  then show ?thesis using keeps_frame by (simp add: keeps_def)
next
  case (Key ch)
  then show ?thesis
    by (auto simp: keeps_def c8_app_key_def dest: key_index_less split: option.split)
next
  case (Mouse mx my lmb prev cx cy)
  then show ?thesis by (auto simp: keeps_def c8_app_mouse_def c8_wf_reset)
next
  case Decay
  have "keeps c8_keys_decay"
    unfolding c8_keys_decay_def by (rule keeps_ofold, rule keepsI) simp
  with Decay show ?thesis by (simp add: keeps_def)
qed

text \<open>C31: whatever program is in memory and in whatever order frames, keys, clicks and key releases
  arrive, the interpreter never indexes one of its arrays out of bounds: every event is handled
  completely and leaves a machine whose arrays have their sizes, whose stack pointer is at most the
  depth of the stack, whose program counter, index register and return addresses are addresses of the
  4 KB memory and whose pixels are 0 or 1.\<close>

theorem c8_events_safe:
  "c8_wf s \<Longrightarrow> \<exists>s'. ofold c8_dispatch events s = Some s' \<and> c8_wf s'"
  by (rule keepsD [OF keeps_ofold]) (rule keeps_event)

theorem c8_events_safe_witness:
  "c8_wf c8_boot \<and> (\<exists>s'. ofold c8_dispatch [Key (CHR '' ''), Mouse 80 10 True False 0 0, Frame, Key (CHR ''q''), Frame, Decay] c8_boot = Some s' \<and> c8_wf s')"
proof -
  have "c8_wf c8_boot" by (simp add: c8_wf_def c8_boot_def list_all_iff)
  with c8_events_safe [OF this] show ?thesis by blast
qed

section \<open>The sprite instruction\<close>

text \<open>
  The sprite's pixel in row \<open>r\<close> and column \<open>c\<close> is set, and the place of the display it falls on;
  the display wraps around in both directions.
\<close>

definition sprite_bit :: "c8 \<Rightarrow> nat \<Rightarrow> nat \<Rightarrow> bool" where
  "sprite_bit s r c = bit (c8_mem s ! unat ((c8_i s + of_nat r) AND 0xFFF)) (7 - c)"

definition sprite_pos :: "c8 \<Rightarrow> nat \<Rightarrow> nat \<Rightarrow> nat \<Rightarrow> nat \<Rightarrow> nat" where
  "sprite_pos s x y r c = (unat (c8_v s ! y) + r) mod 32 * 64 + (unat (c8_v s ! x) + c) mod 64"

text \<open>Place \<open>p\<close> of the display is hit by one of the rows and columns \<open>D\<close> of the sprite.\<close>

definition hit :: "c8 \<Rightarrow> nat \<Rightarrow> nat \<Rightarrow> (nat \<times> nat) set \<Rightarrow> nat \<Rightarrow> bool" where
  "hit s x y D p \<longleftrightarrow> (\<exists>(r, c) \<in> D. sprite_bit s r c \<and> p = sprite_pos s x y r c)"

definition drawn :: "c8 \<Rightarrow> nat \<Rightarrow> nat \<Rightarrow> (nat \<times> nat) set \<Rightarrow> c8" where
  "drawn s x y D = s\<lparr>
     c8_fb := map (\<lambda>p. c8_fb s ! p XOR of_bool (hit s x y D p)) [0..<2048],
     c8_v := (c8_v s)[15 := of_bool (\<exists>p < 2048. hit s x y D p \<and> c8_fb s ! p \<noteq> 0)]\<rparr>"

lemma mod_add_inj:
  assumes "(a + r) mod m = (a + r') mod m" "r < m" "r' < (m :: nat)"
  shows "r = r'"
proof -
  from assms(1) obtain q q' where "r + m * q = r' + m * q'" by (auto simp: nat_mod_eq_iff)
  then have "(r + m * q) mod m = (r' + m * q') mod m" by simp
  with assms show ?thesis by simp
qed

lemma sprite_pos_inj:
  assumes "sprite_pos s x y r c = sprite_pos s x y r' c'" "r < 32" "r' < 32" "c < 8" "c' < 8"
  shows "r = r' \<and> c = c'"
proof -
  let ?f = "\<lambda>r. (unat (c8_v s ! y) + r) mod 32" and ?g = "\<lambda>c. (unat (c8_v s ! x) + c) mod 64"
  have "?f r * 64 + ?g c = ?f r' * 64 + ?g c'" using assms(1) by (simp add: sprite_pos_def)
  moreover have "?g c < 64" "?g c' < 64" by simp_all
  ultimately have f: "?f r = ?f r'" by linarith
  with \<open>?f r * 64 + ?g c = ?f r' * 64 + ?g c'\<close> have "?g c = ?g c'" by simp
  with f assms show ?thesis by (auto dest: mod_add_inj)
qed

lemma sprite_pos_less: "sprite_pos s x y r c < 2048"
  using mod_less_divisor [of 64 "unat (c8_v s ! x) + c"] mod_less_divisor [of 32 "unat (c8_v s ! y) + r"]
  unfolding sprite_pos_def by linarith

lemma hit_insert:
  "hit s x y (insert (r, c) D) p \<longleftrightarrow> hit s x y D p \<or> (sprite_bit s r c \<and> p = sprite_pos s x y r c)"
  by (auto simp: hit_def)

lemma hit_fresh:
  assumes "(r, c) \<notin> D" "D \<subseteq> {..<32} \<times> {..<8}" "r < 32" "c < 8"
  shows "\<not> hit s x y D (sprite_pos s x y r c)"
  using assms by (auto simp: hit_def dest!: sprite_pos_inj)

lemma draw_pixel_drawn:
  assumes wf: "c8_wf s" and x: "x < 15" and D: "(r, c) \<notin> D" "D \<subseteq> {..<32} \<times> {..<8}" "r < 32" "c < 8"
    and bits: "bits = c8_mem s ! unat ((c8_i s + of_nat r) AND 0xFFF)"
  shows "draw_pixel x ((unat (c8_v s ! y) + r) mod 32) bits c (drawn s x y D) =
         Some (drawn s x y (insert (r, c) D))"
proof (cases "sprite_bit s r c")
  case False
  then have "hit s x y (insert (r, c) D) = hit s x y D" by (auto simp: hit_insert)
  with False show ?thesis by (simp add: draw_pixel_def drawn_def bits sprite_bit_def)
next
  case True
  define p where "p = sprite_pos s x y r c"
  have p: "p < 2048" and fresh: "\<not> hit s x y D p"
    using hit_fresh [OF D] by (simp_all add: p_def sprite_pos_less)
  have ins: "hit s x y (insert (r, c) D) q \<longleftrightarrow> hit s x y D q \<or> q = p" for q
    using True by (simp add: hit_insert p_def)
  have fb: "(map (\<lambda>q. c8_fb s ! q XOR of_bool (hit s x y D q)) [0..<2048])[p := c8_fb s ! p XOR 1] =
      map (\<lambda>q. c8_fb s ! q XOR of_bool (hit s x y (insert (r, c) D) q)) [0..<2048]"
    using p fresh by (intro nth_equalityI) (auto simp: ins nth_list_update)
  have fb0: "(map (\<lambda>q. c8_fb s ! q XOR of_bool (hit s x y D q)) [0..<2048])[p := 1] =
      map (\<lambda>q. c8_fb s ! q XOR of_bool (hit s x y (insert (r, c) D) q)) [0..<2048]" if "c8_fb s ! p = 0"
    using fb that by simp
  have v: "(if c8_fb s ! p \<noteq> 0 then (c8_v s)[15 := 1]
            else (c8_v s)[15 := of_bool (\<exists>q < 2048. hit s x y D q \<and> c8_fb s ! q \<noteq> 0)]) =
      (c8_v s)[15 := of_bool (\<exists>q < 2048. hit s x y (insert (r, c) D) q \<and> c8_fb s ! q \<noteq> 0)]"
    using p by (auto simp: ins)
  have pos: "(unat (c8_v s ! y) + r) mod 32 * 64 + (unat (c8_v s ! x) + c) mod 64 = p"
    by (simp add: p_def sprite_pos_def)
  have b: "bit bits (7 - c)" using True bits by (simp add: sprite_bit_def)
  have "length (c8_v s) = 16" using wf by simp
  with x p fresh b pos show ?thesis
    by (simp add: draw_pixel_def drawn_def Let_def set_v_def fb fb0 flip: v)
qed

lemma draw_row_drawn:
  assumes wf: "c8_wf s" and xy: "x < 15" "y < 15" and "r < 32"
  shows "draw_row x y r (drawn s x y ({..<r} \<times> {..<8})) = Some (drawn s x y ({..<Suc r} \<times> {..<8}))"
proof -
  let ?D = "\<lambda>k. {..<r} \<times> {..<8} \<union> {r} \<times> {..<k :: nat}"
  let ?py = "(unat (c8_v s ! y) + r) mod 32" and ?b = "c8_mem s ! unat ((c8_i s + of_nat r) AND 0xFFF)"
  have "ofold (draw_pixel x ?py ?b) [0..<k] (drawn s x y (?D 0)) = Some (drawn s x y (?D k))" if "k \<le> 8" for k
    using that
  proof (induction k)
    case (Suc k)
    have "insert (r, k) (?D k) = ?D (Suc k)" by auto
    moreover have "draw_pixel x ?py ?b k (drawn s x y (?D k)) = Some (drawn s x y (insert (r, k) (?D k)))"
      using Suc.prems \<open>r < 32\<close> by (intro draw_pixel_drawn wf xy) auto
    ultimately show ?case using Suc by (simp add: ofold_append)
  qed simp
  from this [of 8] have "ofold (draw_pixel x ?py ?b) [0..<8] (drawn s x y ({..<r} \<times> {..<8})) = Some (drawn s x y (?D 8))"
    by simp
  moreover have "?D 8 = {..<Suc r} \<times> {..<8}" by auto
  ultimately show ?thesis using wf xy by (simp add: draw_row_def drawn_def)
qed

lemma c8_draw_drawn:
  assumes wf: "c8_wf s" and xy: "x < 15" "y < 15" and "n \<le> 32"
  shows "c8_draw x y n s = Some (drawn s x y ({..<n} \<times> {..<8}))"
proof -
  have "map ((!) (c8_fb s)) [0..<2048] = c8_fb s" using wf map_nth [of "c8_fb s"] by simp
  then have "set_v 15 0 s = Some (drawn s x y ({..<0} \<times> {..<8}))"
    using wf by (simp add: drawn_def hit_def)
  moreover have "ofold (draw_row x y) [0..<k] (drawn s x y ({..<0} \<times> {..<8})) = Some (drawn s x y ({..<k} \<times> {..<8}))"
    if "k \<le> 32" for k
    using that by (induction k) (simp_all add: ofold_append draw_row_drawn [OF wf xy] del: lessThan_0)
  ultimately show ?thesis using \<open>n \<le> 32\<close> by (simp add: c8_draw_def)
qed

text \<open>Drawing a sprite does not move it: the second drawing falls on the same places.\<close>

lemma hit_drawn: "x < 15 \<Longrightarrow> y < 15 \<Longrightarrow> hit (drawn s x y D) x y E = hit s x y E"
  by (auto simp: fun_eq_iff hit_def sprite_bit_def sprite_pos_def drawn_def)

lemma drawn_twice:
  assumes "c8_wf s" "x < 15" "y < 15"
  shows "c8_fb (drawn (drawn s x y D) x y D) = c8_fb s"
proof -
  have "c8_fb (drawn (drawn s x y D) x y D) =
      map (\<lambda>p. (c8_fb s ! p XOR of_bool (hit s x y D p)) XOR of_bool (hit s x y D p)) [0..<2048]"
    using assms by (simp add: drawn_def [of "drawn s x y D"] hit_drawn) (simp add: drawn_def)
  also have "\<dots> = map ((!) (c8_fb s)) [0..<2048]" by (simp add: xor.assoc)
  also have "\<dots> = c8_fb s" using assms map_nth [of "c8_fb s"] by simp
  finally show ?thesis .
qed

lemma c8_wf_drawn: "c8_wf s \<Longrightarrow> c8_wf (drawn s x y D)"
proof -
  assume wf: "c8_wf s"
  have "p < 2048 \<Longrightarrow> c8_fb s ! p \<le> 1" for p
    using wf by (simp add: c8_wf_def list_all_length del: c8_wfD)
  then show ?thesis using wf by (simp add: drawn_def list_all_iff)
qed

text \<open>C32: the sprite instruction turns over exactly the places of the display that a set pixel of the
  sprite falls on, wrapping around at the edges, and reports in VF whether one of them was lit; no
  other register and no memory changes, and drawing the same sprite again restores the display.  The
  coordinates must not be in VF, which the instruction overwrites before it reads them.\<close>

theorem c8_draw_sprite:
  assumes "c8_wf s" and "x < 15" "y < 15" and "n < 16"
  shows "\<exists>s'. c8_draw x y n s = Some s' \<and>
    (\<forall>p < 2048. c8_fb s' ! p = c8_fb s ! p XOR of_bool (hit s x y ({..<n} \<times> {..<8}) p)) \<and>
    c8_v s' = (c8_v s)[15 := of_bool (\<exists>p < 2048. hit s x y ({..<n} \<times> {..<8}) p \<and> c8_fb s ! p \<noteq> 0)] \<and>
    s'\<lparr>c8_fb := c8_fb s, c8_v := c8_v s\<rparr> = s \<and>
    (\<exists>s''. c8_draw x y n s' = Some s'' \<and> c8_fb s'' = c8_fb s)"
proof -
  let ?t = "drawn s x y ({..<n} \<times> {..<8})"
  have "c8_draw x y n s = Some ?t" using assms by (simp add: c8_draw_drawn)
  moreover have "c8_draw x y n ?t = Some (drawn ?t x y ({..<n} \<times> {..<8}))"
    using assms by (simp add: c8_draw_drawn c8_wf_drawn)
  ultimately show ?thesis
    using assms drawn_twice [OF assms(1-3)] by (auto simp: drawn_def simp del: upt_rec_numeral)
qed

text \<open>The bundled program after a reset, at the point where it first draws: the sprite is taken from
  address \<open>0x222\<close>, one before the diamond.\<close>

theorem c8_draw_sprite_witness:
  "\<exists>s'. c8_draw 0 1 5 (c8_reset c8_boot\<lparr>c8_i := 0x222\<rparr>) = Some s' \<and> c8_fb s' ! 66 = 1 \<and> c8_v s' ! 15 = 0"
proof -
  define s where "s = c8_reset c8_boot\<lparr>c8_i := 0x222\<rparr>"
  have fb0: "c8_fb s = replicate 2048 0" by (simp add: s_def c8_reset_def)
  have wf: "c8_wf s"
    unfolding s_def by (intro c8_wf_upd c8_wf_reset) (simp_all add: c8_wf_def c8_boot_def list_all_iff)
  have "c8_mem s ! 0x223 = 0x20"
    by (simp add: s_def c8_reset_def c8_load_def c8_rom_def c8_font_def nth_append nth_Cons')
  then have "sprite_bit s 1 2" by (simp add: sprite_bit_def s_def)
  moreover have "sprite_pos s 0 1 1 2 = 66" by (simp add: sprite_pos_def s_def c8_reset_def)
  ultimately have "hit s 0 1 ({..<5} \<times> {..<8}) 66" by (force simp: hit_def)
  with c8_draw_sprite [OF wf, of 0 1 5] show ?thesis
    using wf by (auto simp: fb0 s_def [symmetric])
qed

end
