(* ===== verification/Ber.thy ===== *)
theory Ber
  imports Vx_Prelude "HOL-Library.Monad_Syntax"
begin

text \<open>
  The tag-length-value encoding that LDAP, Kerberos and SMB share (\<open>src/ber.h\<close>): the writer, which
  opens an element, fills it and shifts the body when the length needs more than the byte reserved,
  and the reader.

  Buffers are lists of bytes and an access outside one is a fault, the value \<^const>\<open>None\<close>.  Counters are
  32-bit; the sums that can leave that range are taken modulo \<open>2 ^ 32\<close>, as the code does.
\<close>

section \<open>The writer\<close>

record ber_w =
  wbuf :: "u8 list"
  wcap :: nat
  wn :: nat
  woverflow :: bool

definition ber_put :: "u8 \<Rightarrow> ber_w \<Rightarrow> ber_w option" where
  "ber_put b w =
    (if wn w \<ge> wcap w then Some (w\<lparr>woverflow := True\<rparr>)
     else do { bs \<leftarrow> aput (wn w) b (wbuf w); Some (w\<lparr>wbuf := bs, wn := wn w + 1\<rparr>) })"

text \<open>The bytes \<open>p[0..n)\<close> are a list.\<close>

definition ber_puts :: "u8 list \<Rightarrow> ber_w \<Rightarrow> ber_w option" where
  "ber_puts p w = ofold ber_put p w"

text \<open>The length of a C string, whose bytes run up to a zero; a list without one is a fault.\<close>

fun ber_strlen :: "u8 list \<Rightarrow> nat option" where
  "ber_strlen [] = None"
| "ber_strlen (c # cs) = (if c = 0 then Some 0 else map_option Suc (ber_strlen cs))"

definition ber_len_bytes :: "nat \<Rightarrow> nat" where
  "ber_len_bytes len =
    (if len < 0x80 then 1 else if len \<le> 0xFF then 2 else if len \<le> 0xFFFF then 3
     else if len \<le> 0xFFFFFF then 4 else 5)"

text \<open>Octet \<open>i\<close> of a length, \<open>(uint8_t)(len >> (i * 8))\<close>.\<close>

definition octet :: "nat \<Rightarrow> nat \<Rightarrow> u8" where
  "octet len i = of_nat (len div 256 ^ i)"

definition ber_write_len :: "nat \<Rightarrow> ber_w \<Rightarrow> ber_w option" where
  "ber_write_len len w =
    (if len < 0x80 then ber_put (of_nat len) w
     else let nb = ber_len_bytes len - 1 in do {
       w \<leftarrow> ber_put (0x80 OR of_nat nb) w;
       ofold (\<lambda>i. ber_put (octet len i)) (rev [0..<nb]) w })"

definition ber_open :: "u8 \<Rightarrow> ber_w \<Rightarrow> (nat \<times> ber_w) option" where
  "ber_open tag w = do { w \<leftarrow> ber_put tag w; w \<leftarrow> ber_put 0 w; Some (wn w, w) }"

definition set_byte :: "nat \<Rightarrow> u8 \<Rightarrow> ber_w \<Rightarrow> ber_w option" where
  "set_byte i b w = do { bs \<leftarrow> aput (i mod 2 ^ 32) b (wbuf w); Some (w\<lparr>wbuf := bs\<rparr>) }"

text \<open>\<open>buf[i + extra] = buf[i]\<close>, from the last byte of the body down to its first.\<close>

definition shift_body :: "nat \<Rightarrow> nat \<Rightarrow> ber_w \<Rightarrow> ber_w option" where
  "shift_body body_start extra w =
     ofold (\<lambda>i w. do { b \<leftarrow> aget (wbuf w) i; set_byte (i + extra) b w }) (rev [body_start..<wn w]) w"

definition ber_close :: "nat \<Rightarrow> ber_w \<Rightarrow> ber_w option" where
  "ber_close body_start w =
    (let len = (wn w + 2 ^ 32 - body_start) mod 2 ^ 32;
         need = ber_len_bytes len;
         extra = need - 1;
         from = body_start + 2 ^ 32 - 1
     in if need = 1 then set_byte from (of_nat len) w
        else if (wn w + extra) mod 2 ^ 32 > wcap w then Some (w\<lparr>woverflow := True\<rparr>)
        else do {
          w \<leftarrow> shift_body body_start extra w;
          w \<leftarrow> Some (w\<lparr>wn := wn w + extra\<rparr>);
          w \<leftarrow> set_byte from (0x80 OR of_nat extra) w;
          ofold (\<lambda>k. set_byte (from + 1 + k) (octet len (extra - 1 - k))) [0..<extra] w })"

text \<open>The octets of an integer, most significant first, without leading zeros but at least one.\<close>

definition int_octets :: "u32 \<Rightarrow> u8 list" where
  "int_octets u =
     foldl (\<lambda>tmp i. let b = ucast (drop_bit (i * 8) u) in
              if tmp = [] \<and> b = 0 \<and> i \<noteq> 0 then tmp else tmp @ [b]) [] [3, 2, 1, 0]"

definition ber_int :: "u8 \<Rightarrow> u32 \<Rightarrow> ber_w \<Rightarrow> ber_w option" where
  "ber_int tag v w = do {
     w \<leftarrow> ber_put tag w;
     if 0 \<le> sint v \<and> sint v < 0x80 then do { w \<leftarrow> ber_put 1 w; ber_put (ucast v) w }
     else let tmp = int_octets v in do {
       w \<leftarrow> (if tmp ! 0 AND 0x80 \<noteq> 0
             then do { w \<leftarrow> ber_put (of_nat (length tmp + 1)) w; ber_put 0 w }
             else ber_put (of_nat (length tmp)) w);
       ber_puts tmp w } }"

definition ber_bytes :: "u8 \<Rightarrow> u8 list \<Rightarrow> ber_w \<Rightarrow> ber_w option" where
  "ber_bytes tag p w = do { w \<leftarrow> ber_put tag w; w \<leftarrow> ber_write_len (length p) w; ber_puts p w }"

definition ber_str :: "u8 \<Rightarrow> u8 list option \<Rightarrow> ber_w \<Rightarrow> ber_w option" where
  "ber_str tag s w = do {
     n \<leftarrow> (case s of None \<Rightarrow> Some 0 | Some cs \<Rightarrow> ber_strlen cs);
     w \<leftarrow> ber_put tag w;
     w \<leftarrow> ber_write_len n w;
     case s of None \<Rightarrow> Some w | Some cs \<Rightarrow> ber_puts (take n cs) w }"

definition ber_bool :: "bool \<Rightarrow> ber_w \<Rightarrow> ber_w option" where
  "ber_bool v w = do { w \<leftarrow> ber_put 0x01 w; w \<leftarrow> ber_put 1 w; ber_put (if v then 0xFF else 0) w }"

definition ber_bitstring32 :: "u8 \<Rightarrow> u32 \<Rightarrow> ber_w \<Rightarrow> ber_w option" where
  "ber_bitstring32 tag bits w = do {
     w \<leftarrow> ber_put tag w;
     w \<leftarrow> ber_put 5 w;
     w \<leftarrow> ber_put 0 w;
     w \<leftarrow> ber_put (ucast (drop_bit 24 bits)) w;
     w \<leftarrow> ber_put (ucast (drop_bit 16 bits)) w;
     w \<leftarrow> ber_put (ucast (drop_bit 8 bits)) w;
     ber_put (ucast bits) w }"

section \<open>The reader\<close>

record ber_r =
  rbuf :: "u8 list"
  rn :: nat
  rat :: nat
  rbad :: bool

definition ber_fail :: "ber_r \<Rightarrow> ber_r" where
  "ber_fail r = r\<lparr>rbad := True\<rparr>"

definition advance :: "nat \<Rightarrow> ber_r \<Rightarrow> ber_r" where
  "advance k r = r\<lparr>rat := (rat r + k) mod 2 ^ 32\<rparr>"

text \<open>One step of \<open>l = (l << 8) | buf[at++]\<close>.\<close>

definition len_octet :: "nat \<times> ber_r \<Rightarrow> (nat \<times> ber_r) option" where
  "len_octet = (\<lambda>(l, r). do { b \<leftarrow> aget (rbuf r) (rat r); Some ((l * 256 + unat b) mod 2 ^ 32, advance 1 r) })"

text \<open>The result is the tag and the length, or \<^const>\<open>None\<close> for the code's \<open>-1\<close>.\<close>

definition ber_next :: "ber_r \<Rightarrow> ((u8 \<times> nat) option \<times> ber_r) option" where
  "ber_next r =
    (if rbad r \<or> (rat r + 2) mod 2 ^ 32 > rn r then Some (None, ber_fail r)
     else do {
       tag \<leftarrow> aget (rbuf r) (rat r);
       r \<leftarrow> Some (advance 1 r);
       b \<leftarrow> aget (rbuf r) (rat r);
       r \<leftarrow> Some (advance 1 r);
       if b = 0x80 then Some (None, ber_fail r)
       else let nb = unat (b AND 0x7F) in
         if b AND 0x80 \<noteq> 0 \<and> (nb > 4 \<or> (rat r + nb) mod 2 ^ 32 > rn r) then Some (None, ber_fail r)
         else do {
           (l, r) \<leftarrow> (if b AND 0x80 \<noteq> 0 then ofold (\<lambda>_. len_octet) [0..<nb] (0, r) else Some (unat b, r));
           if (rat r + l) mod 2 ^ 32 > rn r then Some (None, ber_fail r)
           else Some (Some (tag, l), r) } })"

definition ber_peek :: "ber_r \<Rightarrow> u8 option option" where
  "ber_peek r = (if rbad r \<or> rat r \<ge> rn r then Some None else map_option Some (aget (rbuf r) (rat r)))"

definition read_octets :: "nat \<Rightarrow> ber_r \<Rightarrow> u8 list option" where
  "read_octets n r =
     ofold (\<lambda>i bs. do { b \<leftarrow> aget (rbuf r) ((rat r + i) mod 2 ^ 32); Some (bs @ [b]) }) [0..<n] []"

definition ber_read_int :: "ber_r \<Rightarrow> (u32 \<times> ber_r) option" where
  "ber_read_int r = do {
     (res, r) \<leftarrow> ber_next r;
     case res of None \<Rightarrow> Some (0, ber_fail r)
     | Some (tag, len) \<Rightarrow>
         if (tag \<noteq> 0x02 \<and> tag \<noteq> 0x0A) \<or> len = 0 \<or> len > 5 then Some (0, ber_fail r)
         else do {
           b0 \<leftarrow> aget (rbuf r) (rat r);
           if len = 5 \<and> b0 \<noteq> 0 then Some (0, ber_fail r)
           else do {
             bs \<leftarrow> read_octets len r;
             Some (foldl (\<lambda>v b. push_bit 8 v OR ucast b) (if b0 AND 0x80 \<noteq> 0 then - 1 else 0) bs, advance len r) } } }"

definition ber_read_str :: "nat \<Rightarrow> u8 list \<Rightarrow> ber_r \<Rightarrow> (u8 list \<times> ber_r) option" where
  "ber_read_str cap out r = do {
     (res, r) \<leftarrow> ber_next r;
     out \<leftarrow> (if cap \<noteq> 0 then aput 0 0 out else Some out);
     case res of None \<Rightarrow> Some (out, ber_fail r)
     | Some (tag, len) \<Rightarrow>
         let takes = (if len < (cap + 2 ^ 32 - 1) mod 2 ^ 32 then len else if cap \<noteq> 0 then cap - 1 else 0) in do {
           out \<leftarrow> ofold (\<lambda>i out. do { b \<leftarrow> aget (rbuf r) ((rat r + i) mod 2 ^ 32); aput i b out }) [0..<takes] out;
           out \<leftarrow> (if cap \<noteq> 0 then aput takes 0 out else Some out);
           Some (out, advance len r) } }"

definition ber_read_bytes :: "nat \<Rightarrow> u8 list \<Rightarrow> ber_r \<Rightarrow> (nat option \<times> u8 list \<times> ber_r) option" where
  "ber_read_bytes cap out r = do {
     (res, r) \<leftarrow> ber_next r;
     case res of None \<Rightarrow> Some (None, out, ber_fail r)
     | Some (tag, len) \<Rightarrow>
         if len > cap then Some (None, out, ber_fail r)
         else do {
           out \<leftarrow> ofold (\<lambda>i out. do { b \<leftarrow> aget (rbuf r) ((rat r + i) mod 2 ^ 32); aput i b out }) [0..<len] out;
           Some (Some len, out, advance len r) } }"

definition ber_skip :: "ber_r \<Rightarrow> ber_r option" where
  "ber_skip r = do {
     (res, r) \<leftarrow> ber_next r;
     case res of None \<Rightarrow> Some r | Some (tag, len) \<Rightarrow> Some (advance len r) }"

definition ber_enter :: "u8 \<Rightarrow> ber_r \<Rightarrow> (nat \<times> ber_r) option" where
  "ber_enter tag r = do {
     (res, r) \<leftarrow> ber_next r;
     case res of None \<Rightarrow> Some (rat r, ber_fail r)
     | Some (t, len) \<Rightarrow> if t \<noteq> tag then Some (rat r, ber_fail r) else Some ((rat r + len) mod 2 ^ 32, r) }"

section \<open>What the writer writes\<close>

text \<open>
  A value to send: an integer, a string of bytes under a tag, or a constructed element.  Its encoding
  has lengths in the shortest form; the clients write one by the calls of \<open>ber_write\<close>.
\<close>

datatype elem = EInt u32 | EBytes u8 "u8 list" | ECons u8 "elem list"

definition len_enc :: "nat \<Rightarrow> u8 list" where
  "len_enc len =
    (if len < 0x80 then [of_nat len]
     else let nb = ber_len_bytes len - 1 in (0x80 OR of_nat nb) # map (octet len) (rev [0..<nb]))"

definition tlv :: "u8 \<Rightarrow> u8 list \<Rightarrow> u8 list" where
  "tlv tag body = tag # len_enc (length body) @ body"

definition int_body :: "u32 \<Rightarrow> u8 list" where
  "int_body v =
    (if 0 \<le> sint v \<and> sint v < 0x80 then [ucast v]
     else if int_octets v ! 0 AND 0x80 \<noteq> 0 then 0 # int_octets v else int_octets v)"

fun enc :: "elem \<Rightarrow> u8 list" and encs :: "elem list \<Rightarrow> u8 list" where
  "enc (EInt v) = tlv 0x02 (int_body v)"
| "enc (EBytes tag bs) = tlv tag bs"
| "enc (ECons tag es) = tlv tag (encs es)"
| "encs [] = []"
| "encs (e # es) = enc e @ encs es"

fun ber_write :: "elem \<Rightarrow> ber_w \<Rightarrow> ber_w option" and ber_writes :: "elem list \<Rightarrow> ber_w \<Rightarrow> ber_w option" where
  "ber_write (EInt v) w = ber_int 0x02 v w"
| "ber_write (EBytes tag bs) w = ber_bytes tag bs w"
| "ber_write (ECons tag es) w = do { (body, w) \<leftarrow> ber_open tag w; w \<leftarrow> ber_writes es w; ber_close body w }"
| "ber_writes [] w = Some w"
| "ber_writes (e # es) w = do { w \<leftarrow> ber_write e w; ber_writes es w }"

definition wr_ok :: "ber_w \<Rightarrow> bool" where
  "wr_ok w \<longleftrightarrow> wn w \<le> wcap w \<and> wcap w \<le> length (wbuf w) \<and> wcap w + 4 < 2 ^ 32 \<and> 0 < wcap w"

definition wapp :: "u8 list \<Rightarrow> ber_w \<Rightarrow> ber_w" where
  "wapp bs w = w\<lparr>wbuf := take (wn w) (wbuf w) @ bs @ drop (wn w + length bs) (wbuf w), wn := wn w + length bs\<rparr>"

text \<open>
  The contract of a piece of the writer that is to append \<open>bs\<close>: it never faults; when \<open>bs\<close> fits in the
  space left and nothing was lost before, it appends exactly \<open>bs\<close>, and otherwise the overflow is on record.
\<close>

definition result_ok :: "u8 list \<Rightarrow> ber_w \<Rightarrow> ber_w \<Rightarrow> bool" where
  "result_ok bs w w' \<longleftrightarrow> wr_ok w' \<and> wcap w' = wcap w \<and> length (wbuf w') = length (wbuf w) \<and> wn w \<le> wn w' \<and>
     (if \<not> woverflow w \<and> wn w + length bs \<le> wcap w then w' = wapp bs w else woverflow w')"

definition emits :: "(ber_w \<Rightarrow> ber_w option) \<Rightarrow> u8 list \<Rightarrow> bool" where
  "emits f bs \<longleftrightarrow> (\<forall>w. wr_ok w \<longrightarrow> (\<exists>w'. f w = Some w' \<and> result_ok bs w w'))"

lemma wapp_sel [simp]:
  "wn (wapp bs w) = wn w + length bs" "wcap (wapp bs w) = wcap w" "woverflow (wapp bs w) = woverflow w"
  by (simp_all add: wapp_def)

lemma wapp_Nil [simp]: "wapp [] w = w"
  by (simp add: wapp_def)

lemma wapp_wapp:
  assumes "wn w + length bs \<le> length (wbuf w)"
  shows "wapp cs (wapp bs w) = wapp (bs @ cs) w"
proof -
  have "wn w \<le> length (wbuf w)" using assms by simp
  then show ?thesis by (simp add: wapp_def min.absorb1 min.absorb2 add_ac)
qed

lemma length_wapp: "wn w + length bs \<le> length (wbuf w) \<Longrightarrow> length (wbuf (wapp bs w)) = length (wbuf w)"
  by (auto simp: wapp_def)

lemma wr_ok_wapp: "wr_ok w \<Longrightarrow> wn w + length bs \<le> wcap w \<Longrightarrow> wr_ok (wapp bs w)"
  by (simp add: wr_ok_def length_wapp)

lemma emitsD: "emits f bs \<Longrightarrow> wr_ok w \<Longrightarrow> \<exists>w'. f w = Some w' \<and> result_ok bs w w'"
  by (simp add: emits_def)

lemma emits_Some [simp]: "emits Some []"
  by (simp add: emits_def result_ok_def) (auto simp: wr_ok_def)

lemma emits_put: "emits (ber_put b) [b]"
proof -
  have "(wbuf w)[wn w := b] = take (wn w) (wbuf w) @ b # drop (Suc (wn w)) (wbuf w)"
    if "wr_ok w" "wn w < wcap w" for w
    using that by (intro upd_conv_take_nth_drop) (simp add: wr_ok_def)
  then show ?thesis
    by (auto simp: emits_def ber_put_def result_ok_def wapp_def wr_ok_def min_def)
qed

lemma result_ok_trans:
  assumes "wr_ok w" "result_ok bs w w1" "result_ok cs w1 w2"
  shows "result_ok (bs @ cs) w w2"
proof (cases "\<not> woverflow w \<and> wn w + length bs \<le> wcap w")
  case True
  then have w1: "w1 = wapp bs w" using assms by (simp add: result_ok_def)
  moreover have "wn w + length bs \<le> length (wbuf w)" using True assms(1) by (simp add: wr_ok_def)
  ultimately show ?thesis using assms(3) True by (auto simp: result_ok_def wapp_wapp length_wapp add.assoc)
next
  case False
  with assms show ?thesis by (auto simp: result_ok_def)
qed

lemma emits_seq: "emits f bs \<Longrightarrow> emits g cs \<Longrightarrow> emits (\<lambda>w. Option.bind (f w) g) (bs @ cs)"
  unfolding emits_def by (metis Option.bind.bind_lunit result_ok_def result_ok_trans)

lemma emits_ofold: "emits (ofold (\<lambda>i. ber_put (h i)) xs) (map h xs)"
proof (induction xs)
  case (Cons x xs)
  from emits_seq [OF emits_put [of "h x"] this] show ?case by simp
qed (simp add: emits_def result_ok_def wr_ok_def)

lemma emits_write_len: "emits (ber_write_len len) (len_enc len)"
proof (cases "len < 0x80")
  case True
  then have "ber_write_len len = ber_put (of_nat len)" by (simp add: ber_write_len_def fun_eq_iff)
  with True show ?thesis by (simp add: len_enc_def emits_put)
next
  case False
  let ?nb = "ber_len_bytes len - 1"
  have "ber_write_len len = (\<lambda>w. Option.bind (ber_put (0x80 OR of_nat ?nb) w)
      (ofold (\<lambda>i. ber_put (octet len i)) (rev [0..<?nb])))"
    using False by (simp add: ber_write_len_def fun_eq_iff Let_def)
  with False show ?thesis using emits_seq [OF emits_put emits_ofold]
    by (simp add: len_enc_def Let_def)
qed

lemma emits_puts: "emits (ber_puts p) p"
proof -
  have "ber_puts p = ofold (\<lambda>b. ber_put b) p" by (simp add: fun_eq_iff ber_puts_def)
  then show ?thesis using emits_ofold [of id p] by simp
qed

lemma emits_bytes: "emits (ber_bytes tag p) (tlv tag p)"
proof -
  have "ber_bytes tag p = (\<lambda>w. Option.bind (ber_put tag w) (\<lambda>w. Option.bind (ber_write_len (length p) w) (ber_puts p)))"
    by (simp add: ber_bytes_def fun_eq_iff)
  then show ?thesis
    using emits_seq [OF emits_put emits_seq [OF emits_write_len emits_puts]] by (simp add: tlv_def)
qed

text \<open>An integer has one to five content octets, so its length is one byte.\<close>

lemma int_octets_length: "1 \<le> length (int_octets u)" "length (int_octets u) \<le> 4"
  by (simp_all add: int_octets_def Let_def)

lemma len_enc_small: "len < 0x80 \<Longrightarrow> len_enc len = [of_nat len]"
  by (simp add: len_enc_def)

lemma emits_int: "emits (ber_int tag v) (tlv tag (int_body v))"
proof -
  let ?small = "0 \<le> sint v \<and> sint v < 0x80" and ?t = "int_octets v"
  have len: "length (int_body v) < 0x80" using int_octets_length [of v] by (auto simp: int_body_def)
  consider ?small | "\<not> ?small" "?t ! 0 AND 0x80 \<noteq> 0" | "\<not> ?small" "?t ! 0 AND 0x80 = 0" by blast
  then show ?thesis
  proof cases
    case 1
    then have "ber_int tag v = (\<lambda>w. Option.bind (ber_put tag w) (\<lambda>w. Option.bind (ber_put 1 w) (ber_put (ucast v))))"
      by (simp add: ber_int_def fun_eq_iff)
    with 1 show ?thesis
      using emits_seq [OF emits_put emits_seq [OF emits_put emits_put]]
      by (simp add: tlv_def int_body_def len_enc_small)
  next
    case 2
    then have small: "?small = False" by blast
    from 2 have "ber_int tag v = (\<lambda>w. Option.bind (ber_put tag w) (\<lambda>w.
        Option.bind (Option.bind (ber_put (of_nat (length ?t + 1)) w) (ber_put 0)) (ber_puts ?t)))"
      by (simp add: ber_int_def fun_eq_iff Let_def small)
    moreover have "int_body v = 0 # ?t" using 2 by (auto simp: int_body_def)
    ultimately show ?thesis
      using len emits_seq [OF emits_put emits_seq [OF emits_seq [OF emits_put emits_put] emits_puts]]
      by (simp add: tlv_def len_enc_small)
  next
    case 3
    then have small: "?small = False" by blast
    from 3 have "ber_int tag v = (\<lambda>w. Option.bind (ber_put tag w) (\<lambda>w.
        Option.bind (ber_put (of_nat (length ?t)) w) (ber_puts ?t)))"
      by (simp add: ber_int_def fun_eq_iff Let_def small)
    moreover have "int_body v = ?t" using 3 by (auto simp: int_body_def)
    ultimately show ?thesis
      using len emits_seq [OF emits_put emits_seq [OF emits_put emits_puts]]
      by (simp add: tlv_def len_enc_small)
  qed
qed

section \<open>Closing an element\<close>

lemma set_byte_in:
  "i < length (wbuf w) \<Longrightarrow> i < 2 ^ 32 \<Longrightarrow> set_byte i b w = Some (w\<lparr>wbuf := (wbuf w)[i := b]\<rparr>)"
  by (simp add: set_byte_def)

lemma set_byte_wrap: "set_byte (i + 2 ^ 32 - 1) b w = set_byte (i - 1) b w" if "0 < i"
proof -
  have "i + 2 ^ 32 - 1 = (i - 1) + 2 ^ 32" using that by simp
  then show ?thesis by (simp only: set_byte_def mod_add_self2)
qed

lemma shift_body_eq:
  assumes "s \<le> wn w" "wn w + extra \<le> length (wbuf w)" "wn w + extra < 2 ^ 32"
  shows "shift_body s extra w = Some (w\<lparr>wbuf :=
     take (s + extra) (wbuf w) @ drop s (take (wn w) (wbuf w)) @ drop (wn w + extra) (wbuf w)\<rparr>)"
proof -
  let ?B = "\<lambda>i. take (i + extra) (wbuf w) @ drop i (take (wn w) (wbuf w)) @ drop (wn w + extra) (wbuf w)"
  let ?f = "\<lambda>i w. Option.bind (aget (wbuf w) i) (\<lambda>b. set_byte (i + extra) b w)"
  have "ofold ?f (rev [i..<wn w]) w = Some (w\<lparr>wbuf := ?B i\<rparr>)" if "i \<le> wn w" for i
    using that
  proof (induction rule: inc_induct)
    case base
    then show ?case by simp
  next
    case (step i)
    have len: "length (?B (Suc i)) = length (wbuf w)" using assms step.hyps by simp
    have get: "?B (Suc i) ! i = wbuf w ! i" using assms step.hyps by (simp add: nth_append)
    have "(?B (Suc i))[i + extra := wbuf w ! i] = ?B i"
    proof (rule nth_equalityI)
      fix j assume "j < length ((?B (Suc i))[i + extra := wbuf w ! i])"
      with len have j: "j < length (wbuf w)" by simp
      show "(?B (Suc i))[i + extra := wbuf w ! i] ! j = ?B i ! j"
        using assms step.hyps j len by (auto simp: nth_append nth_list_update min_def Suc_diff_Suc)
    qed (use len assms step.hyps in simp)
    moreover have "set_byte (i + extra) (wbuf w ! i) (w\<lparr>wbuf := ?B (Suc i)\<rparr>) =
        Some (w\<lparr>wbuf := (?B (Suc i))[i + extra := wbuf w ! i]\<rparr>)"
      using assms step.hyps len by (subst set_byte_in) auto
    ultimately have "?f i (w\<lparr>wbuf := ?B (Suc i)\<rparr>) = Some (w\<lparr>wbuf := ?B i\<rparr>)"
      using get len assms step.hyps by (simp add: aget_def)
    with step show ?case by (simp add: upt_conv_Cons ofold_append del: upt_Suc)
  qed
  from this [of s] assms show ?thesis by (simp add: shift_body_def)
qed

lemma set_bytes_eq:
  assumes "a + m \<le> length (wbuf w)" "a + m < 2 ^ 32"
  shows "ofold (\<lambda>k. set_byte (a + k) (h k)) [0..<m] w =
    Some (w\<lparr>wbuf := take a (wbuf w) @ map h [0..<m] @ drop (a + m) (wbuf w)\<rparr>)"
  using assms
proof (induction m)
  case (Suc m)
  let ?B = "\<lambda>m. take a (wbuf w) @ map h [0..<m] @ drop (a + m) (wbuf w)"
  have d: "drop (a + m) (wbuf w) = wbuf w ! (a + m) # drop (a + Suc m) (wbuf w)"
    using Suc.prems by (simp add: Cons_nth_drop_Suc)
  have "(?B m)[a + m := h m] = ?B (Suc m)"
    using Suc.prems by (simp add: d list_update_append min_def)
  then have "set_byte (a + m) (h m) (w\<lparr>wbuf := ?B m\<rparr>) = Some (w\<lparr>wbuf := ?B (Suc m)\<rparr>)"
    using Suc.prems by (subst set_byte_in) (auto simp: min_def)
  with Suc show ?case by (simp add: ofold_append)
qed simp

lemma ber_len_bytes_range: "1 \<le> ber_len_bytes len" "ber_len_bytes len \<le> 5"
  by (simp_all add: ber_len_bytes_def)

lemma ber_len_bytes_one: "ber_len_bytes len = 1 \<longleftrightarrow> len < 0x80"
  by (auto simp: ber_len_bytes_def)

lemma len_enc_length: "length (len_enc len) = ber_len_bytes len"
  using ber_len_bytes_range [of len] ber_len_bytes_one [of len] by (auto simp: len_enc_def Let_def)

text \<open>The three outcomes of closing an element whose body starts at \<open>s\<close>.\<close>

lemma close_len: "wr_ok w \<Longrightarrow> s \<le> wn w \<Longrightarrow> (wn w + 2 ^ 32 - s) mod 2 ^ 32 = wn w - s"
proof -
  assume "wr_ok w" "s \<le> wn w"
  then have "wn w + 2 ^ 32 - s = (wn w - s) + 2 ^ 32" and "wn w - s < 2 ^ 32" unfolding wr_ok_def by linarith+
  then show ?thesis by (simp only: mod_add_self2 mod_less)
qed

lemma ber_close_short:
  assumes "wr_ok w" "0 < s" "s \<le> wn w" "wn w - s < 0x80"
  shows "ber_close s w = Some (w\<lparr>wbuf := (wbuf w)[s - 1 := of_nat (wn w - s)]\<rparr>)"
proof -
  have "set_byte (s + 2 ^ 32 - 1) (of_nat (wn w - s)) w = Some (w\<lparr>wbuf := (wbuf w)[s - 1 := of_nat (wn w - s)]\<rparr>)"
    unfolding set_byte_wrap [OF assms(2)] using assms by (intro set_byte_in) (auto simp: wr_ok_def)
  then show ?thesis using assms unfolding ber_close_def close_len [OF assms(1,3)]
    by (simp add: Let_def ber_len_bytes_def)
qed

lemma ber_close_long:
  assumes ok: "wr_ok w" and s: "0 < s" "s \<le> wn w" and long: "0x80 \<le> wn w - s"
    and extra: "extra = ber_len_bytes (wn w - s) - 1"
  shows "ber_close s w = (if wcap w < wn w + extra then Some (w\<lparr>woverflow := True\<rparr>)
     else Some (w\<lparr>wn := wn w + extra, wbuf :=
       take (s - 1) (wbuf w) @ len_enc (wn w - s) @ drop s (take (wn w) (wbuf w)) @ drop (wn w + extra) (wbuf w)\<rparr>))"
proof (cases "wcap w < wn w + extra")
  case True
  moreover have "(wn w + extra) mod 2 ^ 32 = wn w + extra"
    using ok extra ber_len_bytes_range [of "wn w - s"] by (intro mod_less) (unfold wr_ok_def, linarith)
  ultimately show ?thesis using long ber_len_bytes_one [of "wn w - s"]
    unfolding ber_close_def close_len [OF ok s(2)] extra by (simp add: Let_def)
next
  case False
  define L where "L = wn w - s"
  have small: "wn w + extra \<le> length (wbuf w)" "wn w + extra < 2 ^ 32" using False ok by (auto simp: wr_ok_def)
  define B where "B = take (s + extra) (wbuf w) @ drop s (take (wn w) (wbuf w)) @ drop (wn w + extra) (wbuf w)"
  have lenB: "length B = length (wbuf w)" using small s by (simp add: B_def)
  have sh: "shift_body s extra w = Some (w\<lparr>wbuf := B\<rparr>)" unfolding B_def by (rule shift_body_eq) (use s small in auto)
  let ?w = "w\<lparr>wbuf := B, wn := wn w + extra\<rparr>"
  have hd: "set_byte (s + 2 ^ 32 - 1) b ?w = Some (?w\<lparr>wbuf := B[s - 1 := b]\<rparr>)" for b
    unfolding set_byte_wrap [OF s(1)] using s small lenB by (subst set_byte_in) auto
  have off: "set_byte (s + 2 ^ 32 - 1 + 1 + k) b v = set_byte (s + k) b v" for k b v
  proof -
    have "s + 2 ^ 32 - 1 + 1 + k = (s + k) + 2 ^ 32" using s by simp
    then show ?thesis by (simp only: set_byte_def mod_add_self2)
  qed
  have tl: "ofold (\<lambda>k. set_byte (s + 2 ^ 32 - 1 + 1 + k) (octet L (extra - 1 - k))) [0..<extra] (?w\<lparr>wbuf := B[s - 1 := b]\<rparr>) =
      Some (?w\<lparr>wbuf := take s (B[s - 1 := b]) @ map (\<lambda>k. octet L (extra - 1 - k)) [0..<extra] @ drop (s + extra) (B[s - 1 := b])\<rparr>)" for b
    unfolding off by (subst set_bytes_eq) (use s small lenB in auto)
  have "take s (B[s - 1 := b]) @ cs @ drop (s + extra) (B[s - 1 := b]) =
      take (s - 1) (wbuf w) @ b # cs @ drop s (take (wn w) (wbuf w)) @ drop (wn w + extra) (wbuf w)" for b cs
  proof -
    have "take s (B[s - 1 := b]) = take (s - 1) B @ [b]"
      using s lenB small take_Suc_conv_app_nth [of "s - 1" "B[s - 1 := b]"] by (simp add: take_update_cancel)
    moreover have "take (s - 1) B = take (s - 1) (wbuf w)" using s small by (simp add: B_def)
    moreover have "drop (s + extra) (B[s - 1 := b]) = drop s (take (wn w) (wbuf w)) @ drop (wn w + extra) (wbuf w)"
      using s small by (simp add: B_def drop_update_cancel)
    ultimately show ?thesis by simp
  qed
  moreover have "len_enc L = (0x80 OR of_nat extra) # map (\<lambda>k. octet L (extra - 1 - k)) [0..<extra]"
    using long by (simp add: len_enc_def L_def extra Let_def rev_map [symmetric] flip: map_map)
       (simp add: rev_nth list_eq_iff_nth_eq)
  moreover have "(wn w + extra) mod 2 ^ 32 = wn w + extra" using small by simp
  moreover have ex: "ber_len_bytes L - 1 = extra" by (simp add: extra L_def)
  ultimately show ?thesis
    using False long ber_len_bytes_one [of L] sh hd tl
    unfolding ber_close_def close_len [OF ok s(2)] Let_def L_def [symmetric] ex
    by simp
qed

text \<open>Closing never faults and keeps the buffer in order, whatever was lost before.\<close>

lemma ber_close_ok:
  assumes ok: "wr_ok w" and s: "0 < s" "s \<le> wn w"
  shows "\<exists>w'. ber_close s w = Some w' \<and> wr_ok w' \<and> wcap w' = wcap w \<and>
    length (wbuf w') = length (wbuf w) \<and> wn w \<le> wn w' \<and> (woverflow w \<longrightarrow> woverflow w')"
proof (cases "wn w - s < 0x80")
  case True
  then show ?thesis using ber_close_short [OF ok s] ok by (auto simp: wr_ok_def)
next
  case False
  define extra where "extra = ber_len_bytes (wn w - s) - 1"
  have e: "length (len_enc (wn w - s)) = extra + 1"
    using ber_len_bytes_range [of "wn w - s"] by (simp add: len_enc_length extra_def)
  have "length (take (s - 1) (wbuf w) @ len_enc (wn w - s) @ drop s (take (wn w) (wbuf w)) @ drop (wn w + extra) (wbuf w))
      = length (wbuf w)" if "wn w + extra \<le> wcap w"
    using that ok s e by (auto simp: wr_ok_def)
  then show ?thesis using ber_close_long [OF ok s _ extra_def] False ok by (auto simp: wr_ok_def)
qed

text \<open>When everything fitted so far, closing turns the two header bytes and the body into the encoding.\<close>

lemma ber_close_wapp:
  assumes ok: "wr_ok w" and fit: "wn w + 2 + length bs \<le> wcap w"
  shows "ber_close (wn w + 2) (wapp (tag # 0 # bs) w) =
    Some (if wn w + length (tlv tag bs) \<le> wcap w then wapp (tlv tag bs) w else wapp (tag # 0 # bs) w\<lparr>woverflow := True\<rparr>)"
proof -
  let ?w = "wapp (tag # 0 # bs) w" and ?s = "wn w + 2"
  have ok': "wr_ok ?w" using ok fit by (intro wr_ok_wapp) auto
  have L: "wn ?w - ?s = length bs" by simp
  have n: "wn w \<le> length (wbuf w)" and buf: "wbuf ?w = take (wn w) (wbuf w) @ tag # 0 # bs @ drop (wn w + (2 + length bs)) (wbuf w)"
    using ok by (simp_all add: wr_ok_def wapp_def)
  show ?thesis
  proof (cases "length bs < 0x80")
    case True
    then have "ber_close ?s ?w = Some (?w\<lparr>wbuf := (wbuf ?w)[?s - 1 := of_nat (length bs)]\<rparr>)"
      using ber_close_short [OF ok', of ?s] L by simp
    also have "(wbuf ?w)[?s - 1 := of_nat (length bs)] =
        take (wn w) (wbuf w) @ tag # of_nat (length bs) # bs @ drop (wn w + (2 + length bs)) (wbuf w)"
      unfolding buf using n by (simp add: list_update_append)
    finally show ?thesis using True fit by (simp add: tlv_def len_enc_small wapp_def)
  next
    case False
    define extra where "extra = ber_len_bytes (length bs) - 1"
    have "length (tlv tag bs) = 2 + extra + length bs"
      using ber_len_bytes_range [of "length bs"] by (simp add: tlv_def len_enc_length extra_def)
    moreover have "take (?s - 1) (wbuf ?w) @ len_enc (length bs) @ drop ?s (take (wn ?w) (wbuf ?w)) @ drop (wn ?w + extra) (wbuf ?w) =
        take (wn w) (wbuf w) @ tlv tag bs @ drop (wn w + (2 + extra + length bs)) (wbuf w)"
      unfolding buf using n by (simp add: tlv_def add_ac)
    ultimately show ?thesis
      using ber_close_long [OF ok', of ?s extra] False L by (simp add: extra_def wapp_def add_ac)
  qed
qed

lemma emits_cons:
  assumes f: "emits f bs"
  shows "emits (\<lambda>w. do { (s, w) \<leftarrow> ber_open tag w; w \<leftarrow> f w; ber_close s w }) (tlv tag bs)"
  unfolding emits_def
proof (intro allI impI)
  fix w assume ok: "wr_ok w"
  from emitsD [OF emits_put ok] obtain w1 where w1: "ber_put tag w = Some w1" "result_ok [tag] w w1" by blast
  from emitsD [OF emits_put, of w1] w1(2) obtain w2 where w2: "ber_put 0 w1 = Some w2" "result_ok [0] w1 w2"
    by (auto simp: result_ok_def)
  from emitsD [OF f, of w2] w2(2) obtain w3 where w3: "f w2 = Some w3" "result_ok bs w2 w3" by (auto simp: result_ok_def)
  have pos: "0 < wn w1" using ok w1(1) by (auto simp: ber_put_def wr_ok_def split: if_splits Option.bind_splits)
  have open2: "result_ok [tag, 0] w w2" using result_ok_trans [OF ok w1(2) w2(2)] by simp
  have all3: "result_ok (tag # 0 # bs) w w3" using result_ok_trans [OF ok open2 w3(2)] by simp
  have s: "0 < wn w2" "wn w2 \<le> wn w3" using pos w2(2) w3(2) by (auto simp: result_ok_def)
  have ok3: "wr_ok w3" using all3 by (simp add: result_ok_def)
  have len: "2 + length bs \<le> length (tlv tag bs)"
    using ber_len_bytes_range [of "length bs"] by (simp add: tlv_def len_enc_length)
  have "\<exists>w'. ber_close (wn w2) w3 = Some w' \<and> result_ok (tlv tag bs) w w'"
  proof (cases "\<not> woverflow w \<and> wn w + 2 + length bs \<le> wcap w")
    case True
    then have "w3 = wapp (tag # 0 # bs) w" "wn w2 = wn w + 2" using all3 open2 by (auto simp: result_ok_def)
    with ber_close_wapp [OF ok, of bs tag] True ok all3 len show ?thesis
      by (auto simp: result_ok_def wr_ok_wapp) (auto simp: wr_ok_def length_wapp)
  next
    case False
    then have "woverflow w3" using all3 by (auto simp: result_ok_def)
    moreover have "\<not> (\<not> woverflow w \<and> wn w + length (tlv tag bs) \<le> wcap w)" using False len by linarith
    ultimately show ?thesis using ber_close_ok [OF ok3 s] all3 by (auto simp: result_ok_def)
  qed
  with w1 w2 w3 show "\<exists>w'. Option.bind (ber_open tag w) (\<lambda>(s, w). Option.bind (f w) (ber_close s)) = Some w' \<and>
      result_ok (tlv tag bs) w w'"
    by (simp add: ber_open_def)
qed

lemma emits_write: "emits (ber_write e) (enc e)" and emits_writes: "emits (ber_writes es) (encs es)"
proof (induction e and es rule: enc_encs.induct)
  case (1 v)
  then show ?case using emits_int by (simp add: emits_def)
next
  case (2 tag bs)
  then show ?case using emits_bytes by (simp add: emits_def)
next
  case (3 tag es)
  then show ?case using emits_cons [OF 3] by (simp add: emits_def)
next
  case 4
  then show ?case using emits_Some by (simp add: emits_def)
next
  case (5 e es)
  then show ?case using emits_seq [OF 5] by (simp add: emits_def)
qed



end
