(* ===== verification/Ber_Read.thy ===== *)
theory Ber_Read
  imports Ber
begin

text \<open>
  What the reader of \<open>src/ber.h\<close> makes of the writer's output, and of a length it should refuse.
\<close>

section \<open>Reading a header\<close>

text \<open>The reader stands at a place from which the bytes \<open>bs\<close> follow, inside the part it may read.\<close>

definition rd_ok :: "ber_r \<Rightarrow> bool" where
  "rd_ok r \<longleftrightarrow> \<not> rbad r \<and> rn r \<le> length (rbuf r) \<and> rn r < 2 ^ 32"

definition follows :: "ber_r \<Rightarrow> u8 list \<Rightarrow> bool" where
  "follows r bs \<longleftrightarrow> rd_ok r \<and> rat r + length bs \<le> rn r \<and> take (length bs) (drop (rat r) (rbuf r)) = bs"

lemma follows_nth: "follows r bs \<Longrightarrow> i < length bs \<Longrightarrow> rbuf r ! (rat r + i) = bs ! i"
  unfolding follows_def rd_ok_def by (metis (no_types, lifting) nth_drop nth_take add_leD1 le_trans)

lemma follows_bounds:
  assumes "follows r bs" "i < length bs"
  shows "rat r + i < rn r" "rat r + i < length (rbuf r)" "(rat r + i) mod 2 ^ 32 = rat r + i"
  using assms by (auto simp: follows_def rd_ok_def)

lemma follows_get: "follows r bs \<Longrightarrow> i < length bs \<Longrightarrow> aget (rbuf r) ((rat r + i) mod 2 ^ 32) = Some (bs ! i)"
  using follows_nth [of r bs i] follows_bounds [of r bs i] by simp

lemma advance_eq: "follows r (bs @ cs) \<Longrightarrow> advance (length bs) r = r\<lparr>rat := rat r + length bs\<rparr>"
  by (auto simp: advance_def follows_def rd_ok_def)

lemma follows_advance: "follows r (bs @ cs) \<Longrightarrow> follows (advance (length bs) r) cs"
proof -
  assume f: "follows r (bs @ cs)"
  have "take (length cs) (drop (rat r + length bs) (rbuf r)) = drop (length bs) (take (length (bs @ cs)) (drop (rat r) (rbuf r)))"
    by (simp add: drop_take add.commute)
  with f show ?thesis unfolding advance_eq [OF f] by (simp add: follows_def rd_ok_def)
qed

lemma follows_left: "follows r (bs @ cs) \<Longrightarrow> follows r bs"
proof -
  assume f: "follows r (bs @ cs)"
  have "take (length bs) (drop (rat r) (rbuf r)) = take (length bs) (take (length (bs @ cs)) (drop (rat r) (rbuf r)))"
    by simp
  with f show ?thesis by (simp add: follows_def)
qed

lemma advance_advance: "advance a (advance b r) = advance (b + a) r"
  by (simp add: advance_def add.assoc mod_add_left_eq)

lemma advance_sel [simp]: "rbuf (advance k r) = rbuf r" "rn (advance k r) = rn r" "rbad (advance k r) = rbad r"
  by (simp_all add: advance_def)

lemma octet_step: "l = L div 256 ^ Suc k \<Longrightarrow> L < 2 ^ 32 \<Longrightarrow> (l * 256 + unat (octet L k)) mod 2 ^ 32 = L div 256 ^ k"
proof -
  assume l: "l = L div 256 ^ Suc k" and L: "L < 2 ^ 32"
  have "l = L div 256 ^ k div 256" unfolding l power_Suc2 by (rule div_mult2_eq)
  then have "l * 256 + (L div 256 ^ k) mod 256 = L div 256 ^ k" by simp
  moreover have "unat (octet L k) = (L div 256 ^ k) mod 256" by (simp add: octet_def unat_of_nat)
  moreover have "L div 256 ^ k < 2 ^ 32" using L div_le_dividend le_less_trans by blast
  ultimately show ?thesis by simp
qed

lemma read_len_octets:
  assumes "follows r (map (octet L) (rev [0..<nb]) @ cs)" "L < 2 ^ 32"
  shows "ofold (\<lambda>_. len_octet) [0..<nb] (L div 256 ^ nb, r) = Some (L, advance nb r)"
proof -
  have "ofold (\<lambda>_ :: nat. len_octet) xs (L div 256 ^ length xs, r) = Some (L, advance (length xs) r)"
    if "follows r (map (octet L) (rev [0..<length xs]) @ cs)" for xs r
    using that
  proof (induction xs arbitrary: r)
    case Nil
    then show ?case by (auto simp: advance_def follows_def rd_ok_def)
  next
    case (Cons x xs)
    from Cons.prems have f: "follows r ([octet L (length xs)] @ (map (octet L) (rev [0..<length xs]) @ cs))" by simp
    have "aget (rbuf r) (rat r) = Some (octet L (length xs))"
      using follows_get [OF f, of 0] follows_bounds [OF f, of 0] by simp
    then have "len_octet (L div 256 ^ Suc (length xs), r) = Some (L div 256 ^ length xs, advance 1 r)"
      using octet_step [OF refl assms(2), of "length xs"] by (simp add: len_octet_def)
    with Cons.IH [of "advance 1 r"] follows_advance [OF f] show ?case by (simp add: advance_advance)
  qed
  from this [of r "[0..<nb]"] assms(1) show ?thesis by simp
qed

lemma ber_len_bytes_enough: "L < 2 ^ 32 \<Longrightarrow> L < 256 ^ (ber_len_bytes L - 1) \<or> L < 0x80"
  by (auto simp: ber_len_bytes_def)

lemma len_byte_bits:
  assumes "nb \<in> {1, 2, 3, 4}"
  shows "(0x80 OR of_nat nb :: u8) AND 0x80 \<noteq> 0" "(0x80 OR of_nat nb :: u8) \<noteq> 0x80"
    "unat ((0x80 OR of_nat nb :: u8) AND 0x7F) = nb"
  using assms by auto

lemma short_len_bits:
  assumes "L < 0x80"
  shows "(of_nat L :: u8) AND 0x80 = 0" "(of_nat L :: u8) \<noteq> 0x80" "unat (of_nat L :: u8) = L"
proof -
  show u: "unat (of_nat L :: u8) = L" using assms by (simp add: unat_of_nat)
  then show "(of_nat L :: u8) \<noteq> 0x80" using assms by auto
  have "unat (take_bit 7 (of_nat L :: u8)) = unat (of_nat L :: u8)"
    unfolding unsigned_take_bit_eq u using assms by (simp add: take_bit_eq_mod)
  then have "take_bit 7 (of_nat L :: u8) = of_nat L" by (simp only: word_unat_eq_iff)
  then have "\<not> bit (of_nat L :: u8) 7" by (metis bit_take_bit_iff less_irrefl)
  then have "(of_nat L :: u8) AND 2 ^ 7 = 0" by (simp only: and_exp_eq_0_iff_not_bit not_False_eq_True)
  then show "(of_nat L :: u8) AND 0x80 = 0" by simp
qed

lemma ber_next_tlv:
  assumes f: "follows r (tag # len_enc L @ bs)" and L: "L = length bs"
  shows "ber_next r = Some (Some (tag, L), advance (1 + length (len_enc L)) r)"
proof -
  let ?m = "1 + length (len_enc L)"
  have e: "len_enc L \<noteq> []" using len_enc_length [of L] ber_len_bytes_range [of L] by auto
  from f e have g0: "aget (rbuf r) (rat r) = Some tag" and g1: "aget (rbuf r) (rat (advance 1 r)) = Some (hd (len_enc L))"
    using follows_get [OF f, of 0] follows_get [OF f, of 1] follows_bounds [OF f, of 0]
    by (auto simp: advance_def hd_conv_nth nth_append)
  have guard: "\<not> (rbad r \<or> (rat r + 2) mod 2 ^ 32 > rn r)"
    using f e by (cases "len_enc L") (auto simp: follows_def rd_ok_def)
  have f': "follows r ((tag # len_enc L) @ bs)" using f by simp
  have rest: "follows (advance ?m r) bs" using follows_advance [OF f'] by simp
  then have fits: "\<not> (rat (advance ?m r) + L) mod 2 ^ 32 > rn (advance ?m r)"
    by (auto simp: follows_def rd_ok_def L)
  have "L < 2 ^ 32" using f L by (auto simp: follows_def rd_ok_def)
  show ?thesis
  proof (cases "L < 0x80")
    case True
    with g0 g1 guard fits short_len_bits [OF True] show ?thesis
      by (simp add: ber_next_def len_enc_small advance_advance)
  next
    case False
    define nb where "nb = ber_len_bytes L - 1"
    have nb: "nb \<in> {1, 2, 3, 4}" using False by (auto simp: nb_def ber_len_bytes_def)
    have enc: "len_enc L = (0x80 OR of_nat nb) # map (octet L) (rev [0..<nb])" using False by (simp add: len_enc_def nb_def Let_def)
    have "follows r ([tag, 0x80 OR of_nat nb] @ (map (octet L) (rev [0..<nb]) @ bs))" using f by (simp add: enc)
    from follows_advance [OF this] have f2: "follows (advance 2 r) (map (octet L) (rev [0..<nb]) @ bs)" by (simp add: numeral_2_eq_2)
    have "L div 256 ^ nb = 0" using ber_len_bytes_enough [OF \<open>L < 2 ^ 32\<close>] False by (simp add: nb_def)
    with read_len_octets [OF f2 \<open>L < 2 ^ 32\<close>]
    have oct: "ofold (\<lambda>_. len_octet) [0..<nb] (0, advance 2 r) = Some (L, advance nb (advance 2 r))" by simp
    have "\<not> (rat (advance 2 r) + nb) mod 2 ^ 32 > rn (advance 2 r)" "\<not> nb > 4" using f2 nb by (auto simp: follows_def rd_ok_def)
    moreover have "?m = 2 + nb" by (simp add: enc)
    ultimately show ?thesis using g0 g1 guard fits oct len_byte_bits [OF nb]
      by (simp add: ber_next_def advance_advance enc numeral_2_eq_2)
  qed
qed

section \<open>Reading contents\<close>

lemma read_octets_eq: "follows r (bs @ cs) \<Longrightarrow> read_octets (length bs) r = Some bs"
proof -
  assume f: "follows r (bs @ cs)"
  let ?f = "\<lambda>i acc. Option.bind (aget (rbuf r) ((rat r + i) mod 2 ^ 32)) (\<lambda>b. Some (acc @ [b]))"
  have "ofold ?f [0..<k] [] = Some (take k bs)" if "k \<le> length bs" for k
    using that
  proof (induction k)
    case (Suc k)
    then show ?case using follows_get [OF f, of k] by (simp add: ofold_append nth_append take_Suc_conv_app_nth)
  qed simp
  from this [of "length bs"] show ?thesis by (simp add: read_octets_def)
qed

lemma copy_out_eq:
  assumes f: "follows r (bs @ cs)" and "k \<le> length bs" "k \<le> length out"
  shows "ofold (\<lambda>i out. do { b \<leftarrow> aget (rbuf r) ((rat r + i) mod 2 ^ 32); aput i b out }) [0..<k] out =
    Some (take k bs @ drop k out)"
  using assms(2,3)
proof (induction k)
  case (Suc k)
  have "drop k out = out ! k # drop (Suc k) out" using Suc.prems by (simp add: Cons_nth_drop_Suc)
  then have "(take k bs @ drop k out)[k := bs ! k] = take (Suc k) bs @ drop (Suc k) out"
    using Suc.prems by (simp add: list_update_append take_Suc_conv_app_nth)
  with Suc follows_get [OF f, of k] show ?case by (simp add: ofold_append nth_append)
qed simp

definition shift_in :: "u32 \<Rightarrow> u8 \<Rightarrow> u32" where
  "shift_in v b = push_bit 8 v OR ucast b"

lemma shift_in_zero [simp]: "shift_in 0 0 = 0"
  by (simp add: shift_in_def)

lemma shift_in_octets:
  "foldl shift_in 0 [ucast (drop_bit 24 u), ucast (drop_bit 16 u), ucast (drop_bit 8 u), ucast u] = u"
proof (rule bit_word_eqI)
  fix n assume "n < LENGTH(32)"
  then consider "n < 8" | "8 \<le> n" "n < 16" | "16 \<le> n" "n < 24" | "24 \<le> n" "n < 32" by fastforce
  then show "bit (foldl shift_in 0 [ucast (drop_bit 24 u), ucast (drop_bit 16 u), ucast (drop_bit 8 u), ucast u]) n = bit u n"
    by cases (auto simp: shift_in_def bit_simps)
qed

lemma shift_in_int_octets: "foldl shift_in 0 (int_octets u) = u"
  using shift_in_octets [of u] by (auto simp: int_octets_def Let_def)

lemma small_int:
  assumes "0 \<le> sint (v :: u32)" "sint v < 0x80"
  shows "unat v < 0x80" "(ucast v :: u8) = of_nat (unat v)" "(ucast (ucast v :: u8) :: u32) = v"
proof -
  have "uint v = uint (of_int (sint v) :: u32)" by simp
  also have "\<dots> = sint v" using assms by (simp only: uint_word_of_int) simp
  finally show u: "unat v < 0x80" using assms by (simp add: unat_eq_nat_uint)
  show c: "(ucast v :: u8) = of_nat (unat v)" by simp
  have "unat (ucast (ucast v :: u8) :: u32) = unat v"
    using u by (simp add: unsigned_ucast_eq take_bit_eq_mod unat_mod_distrib)
  then show "(ucast (ucast v :: u8) :: u32) = v" by (simp only: word_unat_eq_iff)
qed

lemma int_body_reads:
  "foldl shift_in 0 (int_body v) = v" "hd (int_body v) AND 0x80 = 0"
  "1 \<le> length (int_body v)" "length (int_body v) \<le> 5" "length (int_body v) = 5 \<Longrightarrow> hd (int_body v) = 0"
proof -
  show "1 \<le> length (int_body v)" "length (int_body v) \<le> 5" using int_octets_length [of v] by (auto simp: int_body_def)
  show "hd (int_body v) = 0" if "length (int_body v) = 5"
    using that int_octets_length [of v] by (auto simp: int_body_def split: if_splits)
  have ne: "int_octets v \<noteq> []" using int_octets_length [of v] by auto
  show "foldl shift_in 0 (int_body v) = v"
    using shift_in_int_octets [of v] small_int(3) [of v] by (simp add: int_body_def shift_in_def [of 0 "ucast v"])
  show "hd (int_body v) AND 0x80 = 0"
    using small_int [of v] short_len_bits [of "unat v"] by (simp add: int_body_def hd_conv_nth ne)
qed

lemma tlv_split: "tlv tag body = (tag # len_enc (length body)) @ body"
  by (simp add: tlv_def)

lemma ber_read_int_eq:
  assumes f: "follows r (enc (EInt v) @ cs)"
  shows "ber_read_int r = Some (v, advance (length (enc (EInt v))) r)"
proof -
  let ?b = "int_body v" and ?m = "1 + length (len_enc (length (int_body v)))"
  have h: "follows r (0x02 # len_enc (length ?b) @ ?b)" using follows_left [OF f] by (simp add: tlv_def)
  have "follows r ((0x02 # len_enc (length ?b)) @ (?b @ cs))" using f by (simp add: tlv_def)
  from follows_advance [OF this] have c: "follows (advance ?m r) (?b @ cs)" by simp
  have "aget (rbuf r) (rat (advance ?m r)) = Some (hd ?b)"
    using follows_get [OF c, of 0] follows_bounds [OF c, of 0] int_body_reads(3) [of v]
    by (cases ?b) simp_all
  moreover have "foldl (\<lambda>v b. push_bit 8 v OR ucast b) 0 ?b = v" using int_body_reads(1) [of v] by (simp add: shift_in_def [abs_def])
  ultimately show ?thesis
    using ber_next_tlv [OF h refl] read_octets_eq [OF c] int_body_reads [of v]
    by (auto simp: ber_read_int_def advance_advance tlv_def)
qed

lemma ber_read_bytes_eq:
  assumes f: "follows r (tlv tag bs @ cs)" and "length bs \<le> cap" "cap \<le> length out"
  shows "ber_read_bytes cap out r = Some (Some (length bs), bs @ drop (length bs) out, advance (length (tlv tag bs)) r)"
proof -
  let ?m = "1 + length (len_enc (length bs))"
  have h: "follows r (tag # len_enc (length bs) @ bs)" using follows_left [OF f] by (simp add: tlv_def)
  have "follows r ((tag # len_enc (length bs)) @ (bs @ cs))" using f by (simp add: tlv_def)
  from follows_advance [OF this] have c: "follows (advance ?m r) (bs @ cs)" by simp
  show ?thesis
    using ber_next_tlv [OF h refl] copy_out_eq [OF c, of "length bs" out] assms(2,3)
    by (simp add: ber_read_bytes_def advance_advance tlv_def)
qed

lemma ber_enter_eq:
  assumes f: "follows r (tlv tag bs @ cs)"
  shows "ber_enter tag r = Some (rat r + length (tlv tag bs), advance (1 + length (len_enc (length bs))) r)"
    and "follows (advance (1 + length (len_enc (length bs))) r) (bs @ cs)"
proof -
  let ?m = "1 + length (len_enc (length bs))"
  have h: "follows r (tag # len_enc (length bs) @ bs)" using follows_left [OF f] by (simp add: tlv_def)
  have g: "follows r ((tag # len_enc (length bs)) @ (bs @ cs))" using f by (simp add: tlv_def)
  from follows_advance [OF this] show c: "follows (advance ?m r) (bs @ cs)" by simp
  have "rat (advance ?m r) = rat r + ?m" using advance_eq [OF g] by simp
  moreover have "rat (advance ?m r) + length bs < 2 ^ 32" using c by (simp add: follows_def rd_ok_def)
  ultimately show "ber_enter tag r = Some (rat r + length (tlv tag bs), advance ?m r)"
    using ber_next_tlv [OF h refl] by (simp add: ber_enter_def tlv_def add_ac)
qed

text \<open>Reading a value whose layout is known, as the clients do: each element with the call for its kind.\<close>

datatype shape = SInt | SBytes | SCons u8 "shape list"

fun shape_of :: "elem \<Rightarrow> shape" and shapes_of :: "elem list \<Rightarrow> shape list" where
  "shape_of (EInt v) = SInt"
| "shape_of (EBytes tag bs) = SBytes"
| "shape_of (ECons tag es) = SCons tag (shapes_of es)"
| "shapes_of [] = []"
| "shapes_of (e # es) = shape_of e # shapes_of es"

fun ber_read :: "shape \<Rightarrow> ber_r \<Rightarrow> (elem \<times> ber_r) option"
  and ber_reads :: "shape list \<Rightarrow> ber_r \<Rightarrow> (elem list \<times> ber_r) option" where
  "ber_read SInt r = do { (v, r) \<leftarrow> ber_read_int r; Some (EInt v, r) }"
| "ber_read SBytes r = do {
     tag \<leftarrow> ber_peek r;
     (n, out, r) \<leftarrow> ber_read_bytes (rn r) (replicate (rn r) 0) r;
     case (tag, n) of (Some t, Some n) \<Rightarrow> Some (EBytes t (take n out), r) | _ \<Rightarrow> None }"
| "ber_read (SCons tag ss) r = do {
     (stop, r) \<leftarrow> ber_enter tag r;
     (es, r) \<leftarrow> ber_reads ss r;
     if rat r = stop then Some (ECons tag es, r) else None }"
| "ber_reads [] r = Some ([], r)"
| "ber_reads (s # ss) r = do {
     (e, r) \<leftarrow> ber_read s r;
     (es, r) \<leftarrow> ber_reads ss r;
     Some (e # es, r) }"

lemma advance_zero: "follows r bs \<Longrightarrow> advance 0 r = r"
  by (auto simp: advance_def follows_def rd_ok_def)

lemma ber_read_enc: "follows r (enc e @ cs) \<Longrightarrow> ber_read (shape_of e) r = Some (e, advance (length (enc e)) r)"
  and ber_reads_encs: "follows r (encs es @ cs) \<Longrightarrow> ber_reads (shapes_of es) r = Some (es, advance (length (encs es)) r)"
proof (induction e and es arbitrary: r cs and r cs rule: enc_encs.induct)
  case (1 v)
  then show ?case using ber_read_int_eq [of r v cs] by simp
next
  case (2 tag bs)
  then have f: "follows r (tlv tag bs @ cs)" by simp
  have "length bs \<le> rn r" "ber_peek r = Some (Some tag)"
    using f follows_get [OF f, of 0] follows_bounds [OF f, of 0] by (auto simp: follows_def rd_ok_def tlv_def ber_peek_def)
  then show ?case using ber_read_bytes_eq [OF f, of "rn r" "replicate (rn r) 0"] by simp
next
  case (3 tag es)
  then have f: "follows r (tlv tag (encs es) @ cs)" by simp
  let ?r = "advance (1 + length (len_enc (length (encs es)))) r"
  have "ber_reads (shapes_of es) ?r = Some (es, advance (length (encs es)) ?r)"
    using 3 ber_enter_eq(2) [OF f] by blast
  moreover have "rat (advance (length (tlv tag (encs es))) r) = rat r + length (tlv tag (encs es))"
    using advance_eq [OF f] by simp
  ultimately show ?case using ber_enter_eq(1) [OF f] by (simp add: advance_advance tlv_def)
next
  case 4
  then show ?case by (simp add: advance_zero)
next
  case (5 e es)
  then have f: "follows r (enc e @ (encs es @ cs))" by simp
  then show ?case using 5(1) [OF f] 5(2) [OF follows_advance [OF f]] by (simp add: advance_advance)
qed

text \<open>C34: a value written by the writer is read back by the reader as the same value: every integer of 32 bits,
  every string of bytes and every nesting of them, with the reader left just after it and no error.\<close>

theorem ber_roundtrip:
  assumes "wr_ok w" and "\<not> woverflow w" and "wn w + length (enc e) \<le> wcap w"
  shows "\<exists>w'. ber_write e w = Some w' \<and>
    (let r = \<lparr>rbuf = wbuf w', rn = wn w', rat = wn w, rbad = False\<rparr>
     in ber_read (shape_of e) r = Some (e, r\<lparr>rat := wn w'\<rparr>))"
proof -
  from emitsD [OF emits_write [of e] assms(1)] assms(2,3) have w: "ber_write e w = Some (wapp (enc e) w)"
    by (auto simp: result_ok_def)
  let ?w = "wapp (enc e) w"
  let ?r = "\<lparr>rbuf = wbuf ?w, rn = wn ?w, rat = wn w, rbad = False\<rparr>"
  have "follows ?r (enc e @ [])"
    using assms(1,3) by (auto simp: follows_def rd_ok_def wapp_def wr_ok_def)
  from ber_read_enc [OF this] advance_eq [OF this] w show ?thesis by simp
qed

theorem ber_roundtrip_witness:
  "\<exists>w'. ber_write (ECons 0x30 [EInt (- 2), EBytes 4 [7, 8]]) \<lparr>wbuf = replicate 16 0, wcap = 16, wn = 1, woverflow = False\<rparr> = Some w' \<and>
     ber_read (SCons 0x30 [SInt, SBytes]) \<lparr>rbuf = wbuf w', rn = wn w', rat = 1, rbad = False\<rparr> =
       Some (ECons 0x30 [EInt (- 2), EBytes 4 [7, 8]], \<lparr>rbuf = wbuf w', rn = wn w', rat = wn w', rbad = False\<rparr>)"
proof -
  have "length (enc (ECons 0x30 [EInt (- 2), EBytes 4 [7, 8]])) = 13" by code_simp
  then show ?thesis
    using ber_roundtrip [of "\<lparr>wbuf = replicate 16 0, wcap = 16, wn = 1, woverflow = False\<rparr>" "ECons 0x30 [EInt (- 2), EBytes 4 [7, 8]]"]
    by (simp add: wr_ok_def Let_def del: enc.simps ber_write.simps ber_read.simps)
qed

section \<open>A length the reader should refuse\<close>

lemma ofold_None: "x \<in> set xs \<Longrightarrow> (\<And>s. f x s = None) \<Longrightarrow> ofold f xs s = None"
proof (induction xs arbitrary: s)
  case (Cons y ys)
  then show ?case by (cases "f y s") auto
qed simp

lemma advance_full: "rat r < 2 ^ 32 \<Longrightarrow> advance (2 ^ 32) r = r"
  by (simp add: advance_def)

text \<open>The check on the length is the only thing between a header and the contents it announces.\<close>

lemma ber_next_long:
  assumes f: "follows r (tag # 0x84 # map (octet L) (rev [0..<4]))" and L: "L < 2 ^ 32"
    and pass: "(rat r + 6 + L) mod 2 ^ 32 \<le> rn r"
  shows "ber_next r = Some (Some (tag, L), advance 6 r)"
proof -
  have g0: "aget (rbuf r) (rat r) = Some tag" and g1: "aget (rbuf r) (rat (advance 1 r)) = Some 0x84"
    using follows_get [OF f, of 0] follows_get [OF f, of 1] follows_bounds [OF f, of 0] by (simp_all add: advance_def)
  have guard: "\<not> (rbad r \<or> (rat r + 2) mod 2 ^ 32 > rn r)" using f by (auto simp: follows_def rd_ok_def)
  have "follows r ([tag, 0x84] @ (map (octet L) (rev [0..<4]) @ []))" using f by simp
  from follows_advance [OF this] have f2: "follows (advance 2 r) (map (octet L) (rev [0..<4]) @ [])" by (simp add: numeral_2_eq_2)
  have oct: "ofold (\<lambda>_. len_octet) [0..<4] (0, advance 2 r) = Some (L, advance 6 r)"
    using read_len_octets [OF f2 L] L by (simp add: advance_advance)
  have a2: "advance (Suc 0) (advance (Suc 0) r) = advance 2 r" by (simp add: advance_advance numeral_2_eq_2)
  have "\<not> (rat (advance 2 r) + 4) mod 2 ^ 32 > rn r" using f2 by (auto simp: follows_def rd_ok_def)
  moreover have "\<not> (rat (advance 6 r) + L) mod 2 ^ 32 > rn r" using pass by (simp add: advance_def mod_add_left_eq)
  ultimately show ?thesis using g0 g1 guard oct a2 by (simp add: ber_next_def)
qed

text \<open>C35: the end of an element is computed in 32 bits, so a length near the top of the range passes the
  check against the end of the buffer.  An element of six bytes whose length is \<open>2 ^ 32 - 6\<close> is accepted;
  skipping it leaves the reader exactly where it was, and copying it as a string into a larger buffer reads
  past the end of the message.\<close>

theorem ber_next_wraps:
  assumes f: "follows r [tag, 0x84, 0xFF, 0xFF, 0xFF, 0xFA]" and n: "rn r = length (rbuf r)"
    and cap: "rn r < cap" "cap < 2 ^ 32 - 6" "cap = length out"
  shows "ber_next r = Some (Some (tag, 2 ^ 32 - 6), advance 6 r) \<and> ber_skip r = Some r \<and>
    ber_read_str cap out r = None"
proof -
  define L where "L = (2 ^ 32 - 6 :: nat)"
  have at: "rat r + 6 \<le> rn r" "rn r < 2 ^ 32" using f by (auto simp: follows_def rd_ok_def)
  have "map (octet L) (rev [0..<4]) = [0xFF, 0xFF, 0xFF, 0xFA]" unfolding L_def by (simp add: octet_def upt_rec numeral_3_eq_3 [symmetric])
  then have next_r: "ber_next r = Some (Some (tag, L), advance 6 r)"
    using f at by (intro ber_next_long) (simp_all add: L_def)
  moreover have "advance L (advance 6 r) = r" using advance_full [of r] at by (simp add: advance_advance L_def)
  then have "ber_skip r = Some r" using next_r by (simp add: ber_skip_def)
  moreover have "ber_read_str cap out r = None"
  proof -
    define k where "k = rn r - (rat r + 6)"
    have "aget (rbuf r) ((rat (advance 6 r) + k) mod 2 ^ 32) = None"
      using at n by (simp add: advance_def mod_add_left_eq k_def aget_def)
    then have none: "ofold (\<lambda>i out. do { b \<leftarrow> aget (rbuf r) ((rat (advance 6 r) + i) mod 2 ^ 32); aput i b out }) [0..<cap - 1] out' = None" for out'
      using cap(1) at by (intro ofold_None [of k]) (auto simp: k_def)
    have "cap + 2 ^ 32 - 1 = (cap - 1) + 2 ^ 32" using cap(1) by simp
    then have "(cap + 2 ^ 32 - 1) mod 2 ^ 32 = cap - 1" using cap(2) by (simp only: mod_add_self2) simp
    moreover have "\<not> L < cap - 1" using cap(2) unfolding L_def by linarith
    ultimately show ?thesis using next_r none cap(1,3)
      by (auto simp: ber_read_str_def)
  qed
  ultimately show ?thesis by (simp add: L_def)
qed

theorem ber_next_wraps_witness:
  "ber_skip \<lparr>rbuf = [0x04, 0x84, 0xFF, 0xFF, 0xFF, 0xFA], rn = 6, rat = 0, rbad = False\<rparr> =
     Some \<lparr>rbuf = [0x04, 0x84, 0xFF, 0xFF, 0xFF, 0xFA], rn = 6, rat = 0, rbad = False\<rparr> \<and>
   ber_read_str 64 (replicate 64 0) \<lparr>rbuf = [0x04, 0x84, 0xFF, 0xFF, 0xFF, 0xFA], rn = 6, rat = 0, rbad = False\<rparr> = None"
proof -
  let ?r = "\<lparr>rbuf = [0x04, 0x84, 0xFF, 0xFF, 0xFF, 0xFA], rn = 6, rat = 0, rbad = False\<rparr> :: ber_r"
  have "follows ?r [0x04, 0x84, 0xFF, 0xFF, 0xFF, 0xFA]" by (simp add: follows_def rd_ok_def)
  from ber_next_wraps [OF this, of 64 "replicate 64 0"] show ?thesis by simp
qed

end
