(* ===== verification/Sha256.thy ===== *)
theory Sha256
  imports Vx_Prelude "HOL-Library.Monad_Syntax"
begin

text \<open>
  The hash of \<open>src/sha256.h\<close>: the compression of a block, the interface that takes a message in pieces,
  the salted password hash, the comparison that does not stop early, and HMAC.

  Fixed-size arrays are lists of that length.  The block buffer is written at a position the
  code computes, so those writes are checked and a write outside it is the value \<^const>\<open>None\<close>.
\<close>

record sha256_t =
  sh :: "u32 list"
  slen :: u64
  sbuf :: "u8 list"
  buflen :: nat

definition sha256_k :: "u32 list" where
  "sha256_k =
   [0x428a2f98, 0x71374491, 0xb5c0fbcf, 0xe9b5dba5,
    0x3956c25b, 0x59f111f1, 0x923f82a4, 0xab1c5ed5,
    0xd807aa98, 0x12835b01, 0x243185be, 0x550c7dc3,
    0x72be5d74, 0x80deb1fe, 0x9bdc06a7, 0xc19bf174,
    0xe49b69c1, 0xefbe4786, 0x0fc19dc6, 0x240ca1cc,
    0x2de92c6f, 0x4a7484aa, 0x5cb0a9dc, 0x76f988da,
    0x983e5152, 0xa831c66d, 0xb00327c8, 0xbf597fc7,
    0xc6e00bf3, 0xd5a79147, 0x06ca6351, 0x14292967,
    0x27b70a85, 0x2e1b2138, 0x4d2c6dfc, 0x53380d13,
    0x650a7354, 0x766a0abb, 0x81c2c92e, 0x92722c85,
    0xa2bfe8a1, 0xa81a664b, 0xc24b8b70, 0xc76c51a3,
    0xd192e819, 0xd6990624, 0xf40e3585, 0x106aa070,
    0x19a4c116, 0x1e376c08, 0x2748774c, 0x34b0bcb5,
    0x391c0cb3, 0x4ed8aa4a, 0x5b9cca4f, 0x682e6ff3,
    0x748f82ee, 0x78a5636f, 0x84c87814, 0x8cc70208,
    0x90befffa, 0xa4506ceb, 0xbef9a3f7, 0xc67178f2]"

definition sha256_ror :: "u32 \<Rightarrow> nat \<Rightarrow> u32" where
  "sha256_ror x n = drop_bit n x OR push_bit (32 - n) x"

section \<open>One block\<close>

text \<open>The sixteen big-endian words of the block, then the forty-eight words computed from them.\<close>

definition be_word :: "u8 list \<Rightarrow> nat \<Rightarrow> u32" where
  "be_word p i = push_bit 24 (ucast (p ! (i * 4))) OR push_bit 16 (ucast (p ! (i * 4 + 1))) OR
     push_bit 8 (ucast (p ! (i * 4 + 2))) OR ucast (p ! (i * 4 + 3))"

definition next_word :: "nat \<Rightarrow> u32 list \<Rightarrow> u32 list" where
  "next_word i w =
    (let s0 = sha256_ror (w ! (i - 15)) 7 XOR sha256_ror (w ! (i - 15)) 18 XOR drop_bit 3 (w ! (i - 15));
         s1 = sha256_ror (w ! (i - 2)) 17 XOR sha256_ror (w ! (i - 2)) 19 XOR drop_bit 10 (w ! (i - 2))
     in w @ [w ! (i - 16) + s0 + w ! (i - 7) + s1])"

definition schedule :: "u8 list \<Rightarrow> u32 list" where
  "schedule p = fold next_word [16..<64] (map (be_word p) [0..<16])"

type_synonym vars = "u32 \<times> u32 \<times> u32 \<times> u32 \<times> u32 \<times> u32 \<times> u32 \<times> u32"

definition sha256_round :: "u32 list \<Rightarrow> nat \<Rightarrow> vars \<Rightarrow> vars" where
  "sha256_round w i = (\<lambda>(a, b, c, d, e, f, g, hh).
    (let S1 = sha256_ror e 6 XOR sha256_ror e 11 XOR sha256_ror e 25;
         ch = (e AND f) XOR (NOT e AND g);
         t1 = hh + S1 + ch + sha256_k ! i + w ! i;
         S0 = sha256_ror a 2 XOR sha256_ror a 13 XOR sha256_ror a 22;
         mj = (a AND b) XOR (a AND c) XOR (b AND c);
         t2 = S0 + mj
     in (t1 + t2, a, b, c, d + t1, e, f, g)))"

definition compress :: "u32 list \<Rightarrow> u8 list \<Rightarrow> u32 list" where
  "compress h p =
    (case fold (sha256_round (schedule p)) [0..<64] (h ! 0, h ! 1, h ! 2, h ! 3, h ! 4, h ! 5, h ! 6, h ! 7) of
       (a, b, c, d, e, f, g, hh) \<Rightarrow>
         [h ! 0 + a, h ! 1 + b, h ! 2 + c, h ! 3 + d, h ! 4 + e, h ! 5 + f, h ! 6 + g, h ! 7 + hh])"

definition sha256_block :: "u8 list \<Rightarrow> sha256_t \<Rightarrow> sha256_t" where
  "sha256_block p s = s\<lparr>sh := compress (sh s) p\<rparr>"

section \<open>A message in pieces\<close>

definition sha256_init :: "sha256_t \<Rightarrow> sha256_t" where
  "sha256_init s = s\<lparr>
     sh := [0x6a09e667, 0xbb67ae85, 0x3c6ef372, 0xa54ff53a, 0x510e527f, 0x9b05688c, 0x1f83d9ab, 0x5be0cd19],
     slen := 0, buflen := 0\<rparr>"

text \<open>The inner copy loop, and the loop over the message.  The count \<open>64 - buflen\<close> is unsigned.\<close>

definition fill_buf :: "u8 list \<Rightarrow> nat \<Rightarrow> sha256_t \<Rightarrow> sha256_t option" where
  "fill_buf p k s = do {
     b \<leftarrow> ofold (\<lambda>i b. do { v \<leftarrow> aget p i; aput (buflen s + i) v b }) [0..<k] (sbuf s);
     Some (s\<lparr>sbuf := b, buflen := buflen s + k\<rparr>) }"

definition flush_full :: "sha256_t \<Rightarrow> sha256_t" where
  "flush_full s = (if buflen s = 64 then sha256_block (sbuf s) s\<lparr>buflen := 0\<rparr> else s)"

partial_function (option) update_loop :: "u8 list \<Rightarrow> sha256_t \<Rightarrow> sha256_t option" where
  "update_loop p s =
    (if p = [] then Some s
     else let room = (64 + 2 ^ 32 - buflen s) mod 2 ^ 32;
              k = (if room > length p then length p else room)
          in Option.bind (fill_buf p k s) (\<lambda>s. update_loop (drop k p) (flush_full s)))"

definition sha256_update :: "u8 list \<Rightarrow> sha256_t \<Rightarrow> sha256_t option" where
  "sha256_update p s = update_loop p (s\<lparr>slen := slen s + of_nat (length p)\<rparr>)"

text \<open>\<open>buf[buflen++] = b\<close>, and the loop that pads with zeros up to a position.\<close>

definition push_byte :: "u8 \<Rightarrow> sha256_t \<Rightarrow> sha256_t option" where
  "push_byte b s = do { bs \<leftarrow> aput (buflen s) b (sbuf s); Some (s\<lparr>sbuf := bs, buflen := buflen s + 1\<rparr>) }"

definition zero_to :: "nat \<Rightarrow> sha256_t \<Rightarrow> sha256_t option" where
  "zero_to n s = ofold (\<lambda>_. push_byte 0) [buflen s..<n] s"

definition word_bytes :: "u32 \<Rightarrow> u8 list" where
  "word_bytes v = [ucast (drop_bit 24 v), ucast (drop_bit 16 v), ucast (drop_bit 8 v), ucast v]"

definition length_bytes :: "u64 \<Rightarrow> u8 list" where
  "length_bytes bits = map (\<lambda>i. ucast (drop_bit (i * 8) bits)) (rev [0..<8])"

definition sha256_final :: "sha256_t \<Rightarrow> u8 list option" where
  "sha256_final s =
    (let bits = slen s * 8 in do {
       s \<leftarrow> push_byte 0x80 s;
       s \<leftarrow> (if buflen s > 56
             then do { s \<leftarrow> zero_to 64 s; Some (sha256_block (sbuf s) s\<lparr>buflen := 0\<rparr>) }
             else Some s);
       s \<leftarrow> zero_to 56 s;
       s \<leftarrow> ofold push_byte (length_bytes bits) s;
       s \<leftarrow> Some (sha256_block (sbuf s) s);
       Some (concat (map (\<lambda>i. word_bytes (sh s ! i)) [0..<8])) })"

text \<open>A fresh structure on the stack: its fields hold anything.\<close>

definition sha256 :: "sha256_t \<Rightarrow> u8 list \<Rightarrow> u8 list option" where
  "sha256 s0 p = do { s \<leftarrow> sha256_update p (sha256_init s0); sha256_final s }"

definition sha256_two :: "sha256_t \<Rightarrow> u8 list \<Rightarrow> u8 list \<Rightarrow> u8 list option" where
  "sha256_two s0 p q = do {
     s \<leftarrow> sha256_update p (sha256_init s0);
     s \<leftarrow> sha256_update q s;
     sha256_final s }"

definition pw_hash :: "sha256_t \<Rightarrow> nat \<Rightarrow> u8 list \<Rightarrow> u8 list \<Rightarrow> u8 list option" where
  "pw_hash s0 iters salt pw = do {
     out \<leftarrow> sha256_two s0 salt pw;
     ofold (\<lambda>_ out. sha256_two s0 out salt) [1..<iters] out }"

fun ct_diff :: "u8 list \<Rightarrow> u8 list \<Rightarrow> nat \<Rightarrow> u8 \<Rightarrow> u8 option" where
  "ct_diff a b 0 diff = Some diff"
| "ct_diff (x # a) (y # b) (Suc n) diff = ct_diff a b n (diff OR (x XOR y))"
| "ct_diff _ _ (Suc n) diff = None"

definition ct_equal :: "u8 list \<Rightarrow> u8 list \<Rightarrow> nat \<Rightarrow> bool option" where
  "ct_equal a b n = map_option (\<lambda>d. d = 0) (ct_diff a b n 0)"

definition hmac_sha256 :: "sha256_t \<Rightarrow> u8 list \<Rightarrow> u8 list \<Rightarrow> u8 list option" where
  "hmac_sha256 s0 key msg = do {
     k \<leftarrow> (if length key > 64 then map_option (\<lambda>d. d @ replicate 32 0) (sha256 s0 key)
           else Some (key @ replicate (64 - length key) 0));
     inner \<leftarrow> sha256_two s0 (map (\<lambda>b. b XOR 0x36) k) msg;
     sha256_two s0 (map (\<lambda>b. b XOR 0x5C) k) inner }"

section \<open>The hash of a whole message\<close>

text \<open>
  The standard's definition: the message is padded with one bit, zeros and its length in bits to a
  multiple of 64 bytes, and the blocks are compressed one after the other.
\<close>

function chunk64 :: "u8 list \<Rightarrow> u8 list list" where
  "chunk64 m = (if length m < 64 then [] else take 64 m # chunk64 (drop 64 m))"
  by pat_completeness auto
termination by (relation "measure length") auto

declare chunk64.simps [simp del]

definition h0 :: "u32 list" where
  "h0 = [0x6a09e667, 0xbb67ae85, 0x3c6ef372, 0xa54ff53a, 0x510e527f, 0x9b05688c, 0x1f83d9ab, 0x5be0cd19]"

definition pad :: "u8 list \<Rightarrow> u8 list" where
  "pad m = m @ 0x80 # replicate ((119 - length m mod 64) mod 64) 0 @ length_bytes (of_nat (length m * 8))"

definition digest :: "u8 list \<Rightarrow> u8 list" where
  "digest m = concat (map word_bytes (foldl compress h0 (chunk64 (pad m))))"

lemma chunk64_append: "64 dvd length a \<Longrightarrow> chunk64 (a @ b) = chunk64 a @ chunk64 b"
proof (induction a rule: chunk64.induct)
  case (1 a)
  show ?case
  proof (cases "length a < 64")
    case True
    with 1(2) have "a = []" using nat_dvd_not_less by auto
    then show ?thesis by (simp add: chunk64.simps [of "[]"])
  next
    case False
    then have "64 dvd length (drop 64 a)" using 1(2) by (simp add: dvd_diff_nat)
    with 1(1) False show ?thesis by (simp add: chunk64.simps [of a] chunk64.simps [of "a @ b"])
  qed
qed

lemma chunk64_one: "length b = 64 \<Longrightarrow> chunk64 b = [b]"
  by (simp add: chunk64.simps)

lemma length_compress: "length (compress h p) = 8"
  by (simp add: compress_def split: prod.split)

lemma length_hashed: "length (foldl compress h0 bs) = 8"
  by (cases bs rule: rev_cases) (simp_all add: length_compress h0_def)

text \<open>
  The structure after the whole blocks \<open>full\<close> were compressed, with the bytes \<open>r\<close> waiting in the buffer.
\<close>

definition filled :: "sha256_t \<Rightarrow> u8 list \<Rightarrow> u8 list \<Rightarrow> bool" where
  "filled s full r \<longleftrightarrow> length (sbuf s) = 64 \<and> length r \<le> 64 \<and> buflen s = length r \<and> take (length r) (sbuf s) = r \<and>
     64 dvd length full \<and> sh s = foldl compress h0 (chunk64 full)"

lemma filled_push:
  assumes f: "filled s full r" and "length r < 64"
  shows "\<exists>s'. push_byte b s = Some s' \<and> filled s' full (r @ [b]) \<and> slen s' = slen s"
proof -
  have "take (Suc (length r)) ((sbuf s)[length r := b]) = r @ [b]"
    using assms by (simp add: filled_def take_Suc_conv_app_nth take_update_cancel)
  with assms show ?thesis by (simp add: push_byte_def filled_def)
qed

lemma filled_pushes:
  "filled s full r \<Longrightarrow> length r + length bs \<le> 64 \<Longrightarrow>
   \<exists>s'. ofold push_byte bs s = Some s' \<and> filled s' full (r @ bs) \<and> slen s' = slen s"
proof (induction bs arbitrary: s r)
  case (Cons b bs)
  then obtain t where "push_byte b s = Some t" "filled t full (r @ [b])" "slen t = slen s"
    using filled_push [of s full r b] by auto
  with Cons.IH [of t "r @ [b]"] Cons.prems show ?case by auto
qed simp

lemma filled_zeros:
  assumes "filled s full r" "n \<le> 64"
  shows "\<exists>s'. zero_to n s = Some s' \<and> filled s' full (r @ replicate (n - length r) 0) \<and> slen s' = slen s"
proof -
  have "ofold (\<lambda>_. push_byte 0) xs s = ofold push_byte (replicate (length xs) 0) s" for xs :: "nat list" and s
    by (induction xs arbitrary: s) (auto split: Option.bind_split)
  moreover have "length r + length (replicate (n - length r) (0 :: u8)) \<le> 64" using assms by (auto simp: filled_def)
  ultimately show ?thesis using filled_pushes [OF assms(1), of "replicate (n - length r) 0"] assms(1)
    by (simp add: zero_to_def filled_def)
qed

lemma filled_flush:
  "filled s full r \<Longrightarrow> length r = 64 \<Longrightarrow> filled (sha256_block (sbuf s) s\<lparr>buflen := 0\<rparr>) (full @ r) []"
  by (auto simp: filled_def sha256_block_def chunk64_append chunk64_one)

lemma copy_into:
  assumes "k \<le> length p" "n + k \<le> length b"
  shows "ofold (\<lambda>i b. do { v \<leftarrow> aget p i; aput (n + i) v b }) [0..<k] b = Some (take n b @ take k p @ drop (n + k) b)"
  using assms
proof (induction k)
  case (Suc k)
  have "drop (n + k) b = b ! (n + k) # drop (n + Suc k) b" using Suc.prems by (simp add: Cons_nth_drop_Suc)
  then have "(take n b @ take k p @ drop (n + k) b)[n + k := p ! k] = take n b @ take (Suc k) p @ drop (n + Suc k) b"
    using Suc.prems by (simp add: list_update_append take_Suc_conv_app_nth)
  with Suc show ?case by (simp add: ofold_append)
qed simp

lemma filled_fill:
  assumes f: "filled s full r" and "k \<le> length p" "length r + k \<le> 64"
  shows "\<exists>s'. fill_buf p k s = Some s' \<and> filled s' full (r @ take k p) \<and> slen s' = slen s"
proof -
  have "fill_buf p k s = Some (s\<lparr>sbuf := take (length r) (sbuf s) @ take k p @ drop (length r + k) (sbuf s), buflen := length r + k\<rparr>)"
    using assms copy_into [of k p "length r" "sbuf s"] by (simp add: fill_buf_def filled_def)
  with assms show ?thesis by (simp add: filled_def)
qed

lemma update_loop_filled:
  "filled s full r \<Longrightarrow> length r < 64 \<Longrightarrow>
   \<exists>s' full' r'. update_loop p s = Some s' \<and> filled s' full' r' \<and> length r' < 64 \<and> full' @ r' = full @ r @ p \<and> slen s' = slen s"
proof (induction "length p" arbitrary: p s full r rule: less_induct)
  case less
  show ?case
  proof (cases "p = []")
    case True
    with less.prems show ?thesis by (auto simp: update_loop.simps)
  next
    case False
    define k where "k = min (64 - length r) (length p)"
    have "64 + 2 ^ 32 - buflen s = (64 - length r) + 2 ^ 32" using less.prems by (simp add: filled_def)
    then have room: "(64 + 2 ^ 32 - buflen s) mod 2 ^ 32 = 64 - length r" by (simp only: mod_add_self2) simp
    have k: "0 < k" "k \<le> length p" "length r + k \<le> 64" using less.prems False by (auto simp: k_def)
    obtain t where t: "fill_buf p k s = Some t" "filled t full (r @ take k p)" "slen t = slen s"
      using filled_fill [OF less.prems(1) k(2,3)] by blast
    have step: "update_loop p s = update_loop (drop k p) (flush_full t)"
      using False t(1) room by (subst update_loop.simps) (auto simp: k_def min_def Let_def)
    have shorter: "length (drop k p) < length p" using k False by simp
    show ?thesis
    proof (cases "length r + k = 64")
      case True
      then have "filled (flush_full t) (full @ r @ take k p) []"
        using filled_flush [OF t(2)] k t(2) by (simp add: flush_full_def filled_def)
      from less.hyps [OF shorter this] obtain s' full' r' where "update_loop (drop k p) (flush_full t) = Some s'"
        "filled s' full' r'" "length r' < 64" "full' @ r' = (full @ r @ take k p) @ [] @ drop k p" "slen s' = slen (flush_full t)"
        by auto
      with step t(3) show ?thesis by (auto simp: flush_full_def sha256_block_def)
    next
      case F: False
      then have "flush_full t = t" "length (r @ take k p) < 64" using t(2) k by (auto simp: flush_full_def filled_def)
      with less.hyps [OF shorter t(2)] step t(3) show ?thesis by fastforce
    qed
  qed
qed

lemma sha256_update_filled:
  assumes "filled s full r" "length r < 64"
  shows "\<exists>s' full' r'. sha256_update p s = Some s' \<and> filled s' full' r' \<and> length r' < 64 \<and>
    full' @ r' = full @ r @ p \<and> slen s' = slen s + of_nat (length p)"
  using update_loop_filled [of "s\<lparr>slen := slen s + of_nat (length p)\<rparr>" full r p] assms
  by (simp add: sha256_update_def filled_def)

text \<open>Any sequence of updates amounts to one message.\<close>

lemma sha256_updates:
  assumes "filled s full r" "length r < 64"
  shows "\<exists>s' full' r'. ofold sha256_update ps s = Some s' \<and> filled s' full' r' \<and> length r' < 64 \<and>
    full' @ r' = full @ r @ concat ps \<and> slen s' = slen s + of_nat (length (concat ps))"
  using assms
proof (induction ps arbitrary: s full r)
  case (Cons p ps)
  from sha256_update_filled [OF Cons.prems, of p] obtain t full1 r1
    where t: "sha256_update p s = Some t" "filled t full1 r1" "length r1 < 64" "full1 @ r1 = full @ r @ p"
      "slen t = slen s + of_nat (length p)" by blast
  from Cons.IH [OF t(2,3)] obtain s' full' r' where "ofold sha256_update ps t = Some s'" "filled s' full' r'"
    "length r' < 64" "full' @ r' = full1 @ r1 @ concat ps" "slen s' = slen t + of_nat (length (concat ps))" by blast
  moreover have "full1 @ r1 @ concat ps = full @ r @ concat (p # ps)" using t(4) by (metis append_assoc concat.simps(2))
  ultimately show ?case using t by (auto simp: add.assoc)
qed auto

lemma filled_init: "length (sbuf s) = 64 \<Longrightarrow> filled (sha256_init s) [] []"
  by (simp add: filled_def sha256_init_def h0_def chunk64.simps)

lemma length_length_bytes [simp]: "length (length_bytes b) = 8"
  by (simp add: length_bytes_def)

text \<open>The last bytes and the padding fill one block, or two when fewer than nine bytes are left in the first.\<close>

lemma pad_zeros: "n < 64 \<Longrightarrow> (119 - n) mod 64 = (if n \<le> 55 then 55 - n else 119 - n)" for n :: nat
  by (auto simp: mod_if)

lemma sha256_final_digest:
  assumes f: "filled s full r" "length r < 64" and m: "m = full @ r" and len: "slen s = of_nat (length m)"
  shows "sha256_final s = Some (digest m)"
proof -
  define L where "L = length_bytes (slen s * 8)"
  have mod: "length m mod 64 = length r" using f by (auto simp: m filled_def)
  have pad: "pad m = full @ (r @ 0x80 # replicate ((119 - length r) mod 64) 0 @ L)"
    unfolding pad_def mod by (simp add: m L_def len)
  have dvd: "64 dvd length full" using f by (simp add: filled_def)
  obtain t where t: "push_byte 0x80 s = Some t" "filled t full (r @ [0x80])" "slen t = slen s"
    using filled_push [OF f] by blast
  have fin: "(do { s \<leftarrow> zero_to 56 u; s \<leftarrow> ofold push_byte L s; s \<leftarrow> Some (sha256_block (sbuf s) s);
        Some (concat (map (\<lambda>i. word_bytes (sh s ! i)) [0..<8])) }) =
      Some (concat (map word_bytes (foldl compress h0 (chunk64 (full' @ q @ replicate (56 - length q) 0 @ L)))))"
    if u: "filled u full' q" "length q \<le> 56" for u full' q
  proof -
    obtain v where v: "zero_to 56 u = Some v" "filled v full' (q @ replicate (56 - length q) 0)"
      using filled_zeros [OF u(1), of 56] by auto
    obtain w where w: "ofold push_byte L v = Some w" "filled w full' ((q @ replicate (56 - length q) 0) @ L)"
      using filled_pushes [OF v(2), of L] u(2) by (auto simp: L_def)
    have "length ((q @ replicate (56 - length q) 0) @ L) = 64" using u(2) by (simp add: L_def)
    from filled_flush [OF w(2) this]
    have sh: "sh (sha256_block (sbuf w) w) = foldl compress h0 (chunk64 (full' @ q @ replicate (56 - length q) 0 @ L))"
      by (simp add: filled_def)
    have "map (\<lambda>i. word_bytes (xs ! i)) [0..<8] = map word_bytes xs" if "length xs = 8" for xs
      using that by (metis map_nth map_map comp_apply map_cong)
    from this [OF length_hashed] sh v(1) w(1) show ?thesis by simp
  qed
  show ?thesis
  proof (cases "length r \<le> 55")
    case True
    with fin [OF t(2)] t(1,2) pad_zeros [of "length r"] show ?thesis
      by (simp add: sha256_final_def Let_def L_def [symmetric] filled_def digest_def pad)
  next
    case False
    obtain u where u: "zero_to 64 t = Some u" "filled u full ((r @ [0x80]) @ replicate (64 - length (r @ [0x80])) 0)"
      using filled_zeros [OF t(2), of 64] by auto
    have "length ((r @ [0x80]) @ replicate (64 - length (r @ [0x80])) 0) = 64" using f(2) by simp
    moreover have "replicate (119 - length r) (0 :: u8) = replicate (63 - length r) 0 @ replicate 56 0"
      using f(2) by (simp flip: replicate_add)
    ultimately show ?thesis using fin [OF filled_flush [OF u(2)]] u(1) t(1,2) False f(2) pad_zeros [of "length r"]
      by (simp add: sha256_final_def Let_def L_def [symmetric] filled_def digest_def pad)
  qed
qed

lemma sha256_pieces:
  assumes "length (sbuf s0) = 64"
  shows "Option.bind (ofold sha256_update ps (sha256_init s0)) sha256_final = Some (digest (concat ps))"
proof -
  from sha256_updates [OF filled_init [OF assms], of ps] obtain s' full' r' where s': "ofold sha256_update ps (sha256_init s0) = Some s'"
    "filled s' full' r'" "length r' < 64" "full' @ r' = concat ps" "slen s' = of_nat (length (concat ps))"
    by (auto simp: sha256_init_def)
  with sha256_final_digest [OF s'(2,3)] show ?thesis by simp
qed

lemma sha256_digest: "length (sbuf s0) = 64 \<Longrightarrow> sha256 s0 p = Some (digest p)"
  using sha256_pieces [of s0 "[p]"] by (simp add: sha256_def)

lemma sha256_two_digest: "length (sbuf s0) = 64 \<Longrightarrow> sha256_two s0 p q = Some (digest (p @ q))"
  using sha256_pieces [of s0 "[p, q]"] by (simp add: sha256_two_def)

lemma length_digest: "length (digest m) = 32"
proof -
  have "length (concat (map word_bytes xs)) = 4 * length xs" for xs by (induction xs) (simp_all add: word_bytes_def)
  then show ?thesis by (simp add: digest_def length_hashed)
qed

section \<open>Password hash, comparison, HMAC\<close>

lemma pw_hash_digest:
  assumes "length (sbuf s0) = 64"
  shows "pw_hash s0 iters salt pw = Some (((\<lambda>out. digest (out @ salt)) ^^ (iters - 1)) (digest (salt @ pw)))"
proof -
  define g where "g = (\<lambda>out. digest (out @ salt))"
  have two: "sha256_two s0 out salt = Some (g out)" for out by (simp add: sha256_two_digest [OF assms] g_def)
  have "ofold (\<lambda>_ out. sha256_two s0 out salt) xs out = Some ((g ^^ length xs) out)" for xs :: "nat list" and out
    by (induction xs arbitrary: out) (simp_all add: two funpow_swap1)
  then show ?thesis by (simp add: pw_hash_def sha256_two_digest [OF assms] g_def)
qed

lemma xor_eq_0: "(x :: u8) XOR y = 0 \<longleftrightarrow> x = y"
  by (metis xor_self_eq xor.left_neutral xor.assoc xor.commute xor.right_neutral)

lemma or_eq_0: "(x :: u8) OR y = 0 \<longleftrightarrow> x = 0 \<and> y = 0"
  by (auto simp: or_eq_0_iff)

lemma ct_equal_iff:
  assumes "n \<le> length a" "n \<le> length b"
  shows "ct_equal a b n = Some (take n a = take n b)"
proof -
  have "\<exists>d. ct_diff a b n diff = Some d \<and> (d = 0 \<longleftrightarrow> diff = 0 \<and> take n a = take n b)" for diff
    using assms by (induction a b n diff rule: ct_diff.induct) (auto simp: or_eq_0 xor_eq_0)
  from this [of 0] show ?thesis by (auto simp: ct_equal_def)
qed

lemma hmac_digest:
  assumes "length (sbuf s0) = 64"
  defines "k \<equiv> \<lambda>key. if length key > 64 then digest key @ replicate 32 0 else key @ replicate (64 - length key) 0"
  shows "hmac_sha256 s0 key msg =
    Some (digest (map (\<lambda>b. b XOR 0x5C) (k key) @ digest (map (\<lambda>b. b XOR 0x36) (k key) @ msg)))"
  by (simp add: hmac_sha256_def k_def sha256_digest [OF assms(1)] sha256_two_digest [OF assms(1)])

text \<open>C36: a message may be hashed in pieces of any sizes, empty ones included: no update writes outside the
  64-byte buffer, and the result is the hash of the whole message as the standard defines it, padded once
  and compressed block by block.\<close>

theorem sha256_stream:
  assumes "length (sbuf s0) = 64"
  shows "Option.bind (ofold sha256_update ps (sha256_init s0)) sha256_final = Some (digest (concat ps))"
  by (rule sha256_pieces) (rule assms)

theorem sha256_stream_witness:
  "Option.bind (ofold sha256_update [[0x61], [], [0x62, 0x63]]
       (sha256_init \<lparr>sh = [], slen = 5, sbuf = replicate 64 7, buflen = 9\<rparr>)) sha256_final =
    Some (digest [0x61, 0x62, 0x63])"
  using sha256_stream [of "\<lparr>sh = [], slen = 5, sbuf = replicate 64 7, buflen = 9\<rparr>" "[[0x61], [], [0x62, 0x63]]"]
  by simp

end
