(* ===== verification/Chacha20.thy ===== *)
theory Chacha20
  imports Sha256
begin

text \<open>
  The stream cipher of \<open>src/chacha20.h\<close>: the key stream block, the in-place encryption of a piece of a
  longer stream, the key derivation over the hash, and the comparison of verifiers.
\<close>

section \<open>The key stream\<close>

definition cc20_rotl :: "u32 \<Rightarrow> nat \<Rightarrow> u32" where
  "cc20_rotl v n = push_bit n v OR drop_bit (32 - n) v"

text \<open>The quarter round on four words of the state, by their indices.\<close>

definition cc20_qr :: "nat \<times> nat \<times> nat \<times> nat \<Rightarrow> u32 list \<Rightarrow> u32 list" where
  "cc20_qr = (\<lambda>(ia, ib, ic, id) x.
    (let a = x ! ia; b = x ! ib; c = x ! ic; d = x ! id;
         a = a + b; d = d XOR a; d = cc20_rotl d 16;
         c = c + d; b = b XOR c; b = cc20_rotl b 12;
         a = a + b; d = d XOR a; d = cc20_rotl d 8;
         c = c + d; b = b XOR c; b = cc20_rotl b 7
     in x[ia := a, ib := b, ic := c, id := d]))"

definition double_round :: "u32 list \<Rightarrow> u32 list" where
  "double_round x = fold cc20_qr
     [(0, 4, 8, 12), (1, 5, 9, 13), (2, 6, 10, 14), (3, 7, 11, 15),
      (0, 5, 10, 15), (1, 6, 11, 12), (2, 7, 8, 13), (3, 4, 9, 14)] x"

definition le_word :: "u8 list \<Rightarrow> nat \<Rightarrow> u32" where
  "le_word p i = ucast (p ! (i * 4)) OR push_bit 8 (ucast (p ! (i * 4 + 1))) OR
     push_bit 16 (ucast (p ! (i * 4 + 2))) OR push_bit 24 (ucast (p ! (i * 4 + 3)))"

definition le_bytes :: "u32 \<Rightarrow> u8 list" where
  "le_bytes v = [ucast v, ucast (drop_bit 8 v), ucast (drop_bit 16 v), ucast (drop_bit 24 v)]"

definition cc20_state :: "u8 list \<Rightarrow> u32 \<Rightarrow> u8 list \<Rightarrow> u32 list" where
  "cc20_state key counter nonce =
     [0x61707865, 0x3320646e, 0x79622d32, 0x6b206574] @ map (le_word key) [0..<8] @ counter # map (le_word nonce) [0..<3]"

definition cc20_block :: "u8 list \<Rightarrow> u32 \<Rightarrow> u8 list \<Rightarrow> u8 list" where
  "cc20_block key counter nonce =
    (let s = cc20_state key counter nonce;
         x = (double_round ^^ 10) s
     in concat (map (\<lambda>i. le_bytes (x ! i + s ! i)) [0..<16]))"

section \<open>Encryption of a piece\<close>

text \<open>The inner loop: \<open>j\<close> runs over the block and \<open>i\<close> over the buffer until either ends; the new \<open>i\<close> is returned.\<close>

function xor_block :: "u8 list \<Rightarrow> nat \<Rightarrow> nat \<Rightarrow> nat \<Rightarrow> u8 list \<Rightarrow> (nat \<times> u8 list) option" where
  "xor_block ks j i len buf =
    (if j < 64 \<and> i < len
     then do { b \<leftarrow> aget buf i; k \<leftarrow> aget ks j; buf \<leftarrow> aput i (b XOR k) buf; xor_block ks (j + 1) (i + 1) len buf }
     else Some (i, buf))"
  by pat_completeness auto
termination by (relation "measure (\<lambda>(ks, j, i, len, buf). 64 - j)") auto

declare xor_block.simps [simp del]

partial_function (option) xor_loop :: "u8 list \<Rightarrow> u8 list \<Rightarrow> u32 \<Rightarrow> nat \<Rightarrow> nat \<Rightarrow> nat \<Rightarrow> u8 list \<Rightarrow> u8 list option" where
  "xor_loop key nonce counter skip i len buf =
    (if i < len
     then Option.bind (xor_block (cc20_block key counter nonce) skip i len buf)
            (\<lambda>(i, buf). xor_loop key nonce (counter + 1) 0 i len buf)
     else Some buf)"

definition cc20_xor :: "u8 list \<Rightarrow> u8 list \<Rightarrow> nat \<Rightarrow> u8 list \<Rightarrow> nat \<Rightarrow> u8 list option" where
  "cc20_xor key nonce offset buf len =
     xor_loop key nonce (of_nat (offset div 64)) (offset mod 64) 0 len buf"

section \<open>Key derivation and comparison\<close>

text \<open>The bytes after the salt: the passphrase up to its terminator, at most 64 of them.\<close>

fun phrase_bytes :: "nat \<Rightarrow> u8 list \<Rightarrow> u8 list option" where
  "phrase_bytes room [] = None"
| "phrase_bytes room (c # cs) =
     (if c \<noteq> 0 \<and> room > 0 then map_option ((#) c) (phrase_bytes (room - 1) cs) else Some [])"

definition cc20_derive_key :: "sha256_t \<Rightarrow> nat \<Rightarrow> u8 list \<Rightarrow> u8 list \<Rightarrow> u8 list option" where
  "cc20_derive_key s0 rounds passphrase salt = do {
     ph \<leftarrow> phrase_bytes 64 passphrase;
     d \<leftarrow> sha256 s0 (take 16 salt @ ph);
     ofold (\<lambda>_ d. sha256 s0 d) [1..<rounds] d }"

definition cc20_equal :: "u8 list \<Rightarrow> u8 list \<Rightarrow> nat \<Rightarrow> bool option" where
  "cc20_equal a b n = map_option (\<lambda>d. d = 0) (ct_diff a b n 0)"

section \<open>The cipher on a whole stream\<close>

text \<open>The key stream as one sequence; its block counter has 32 bits.\<close>

definition keystream :: "u8 list \<Rightarrow> u8 list \<Rightarrow> nat \<Rightarrow> u8" where
  "keystream key nonce p = cc20_block key (of_nat (p div 64)) nonce ! (p mod 64)"

definition crypt :: "u8 list \<Rightarrow> u8 list \<Rightarrow> nat \<Rightarrow> u8 list \<Rightarrow> u8 list" where
  "crypt key nonce offset xs = map (\<lambda>i. xs ! i XOR keystream key nonce (offset + i)) [0..<length xs]"

lemma length_cc20_block: "length (cc20_block key counter nonce) = 64"
proof -
  have "length (concat (map (\<lambda>i. le_bytes (f i)) [0..<n])) = 4 * n" for f :: "nat \<Rightarrow> u32" and n
    by (induction n) (simp_all add: le_bytes_def)
  then show ?thesis by (simp add: cc20_block_def Let_def)
qed

lemma xor_block_eq:
  assumes "length ks = 64" "j \<le> 64" "i \<le> len" "len \<le> length buf"
  defines "n \<equiv> min (64 - j) (len - i)"
  shows "xor_block ks j i len buf =
    Some (i + n, take i buf @ map (\<lambda>t. buf ! (i + t) XOR ks ! (j + t)) [0..<n] @ drop (i + n) buf)"
  using assms(1-4) unfolding n_def
proof (induction ks j i len buf rule: xor_block.induct)
  case (1 ks j i len buf)
  show ?case
  proof (cases "j < 64 \<and> i < len")
    case True
    let ?b = "buf[i := buf ! i XOR ks ! j]" and ?n = "min (64 - Suc j) (len - Suc i)"
    have n: "min (64 - j) (len - i) = Suc ?n" using True by auto
    have IH: "xor_block ks (j + 1) (i + 1) len ?b =
        Some (Suc i + ?n, take (Suc i) ?b @ map (\<lambda>t. ?b ! (Suc i + t) XOR ks ! (Suc j + t)) [0..<?n] @ drop (Suc i + ?n) ?b)"
      using "1.IH" [of "buf ! i" "ks ! j" ?b] True "1.prems" by simp
    have "take (Suc i) ?b = take i buf @ [buf ! i XOR ks ! j]"
      using True "1.prems" by (simp add: take_Suc_conv_app_nth take_update_cancel)
    moreover have "map (\<lambda>t. buf ! (i + t) XOR ks ! (j + t)) [0..<Suc ?n] =
        (buf ! i XOR ks ! j) # map (\<lambda>t. buf ! (Suc i + t) XOR ks ! (Suc j + t)) [0..<?n]"
      by (simp add: upt_conv_Cons map_Suc_upt [symmetric] del: upt_Suc)
    ultimately show ?thesis using IH True "1.prems" unfolding n
      by (simp add: xor_block.simps [of ks j i len buf] drop_update_cancel del: upt_Suc)
  next
    case False
    then have "min (64 - j) (len - i) = 0" using "1.prems" by auto
    with False show ?thesis by (subst xor_block.simps) auto
  qed
qed

lemma xor_loop_eq:
  assumes "i \<le> len" "len \<le> length buf"
    and "i < len \<Longrightarrow> counter = of_nat ((offset + i) div 64) \<and> skip = (offset + i) mod 64"
  shows "xor_loop key nonce counter skip i len buf =
    Some (take i buf @ map (\<lambda>t. buf ! t XOR keystream key nonce (offset + t)) [i..<len] @ drop len buf)"
  using assms
proof (induction "len - i" arbitrary: i counter skip buf rule: less_induct)
  case less
  show ?case
  proof (cases "i < len")
    case True
    define n where "n = min (64 - skip) (len - i)"
    let ?k = "\<lambda>t. keystream key nonce (offset + t)"
    let ?b = "take i buf @ map (\<lambda>t. buf ! t XOR ?k t) [i..<i + n] @ drop (i + n) buf"
    have c: "counter = of_nat ((offset + i) div 64)" and sk: "skip = (offset + i) mod 64" using less.prems(3) True by blast+
    have pos: "0 < n" "i + n \<le> len" "skip + n \<le> 64" "skip < 64" using True sk by (auto simp: n_def)
    have key: "cc20_block key counter nonce ! (skip + t) = ?k (i + t)" if "t < n" for t
    proof -
      have "offset + (i + t) = (offset + i) div 64 * 64 + (skip + t)" using sk by simp
      moreover have "(q * 64 + (skip + t)) div 64 = q" "(q * 64 + (skip + t)) mod 64 = skip + t" for q
        using that pos by simp_all
      ultimately have "(offset + (i + t)) div 64 = (offset + i) div 64" "(offset + (i + t)) mod 64 = skip + t" by metis+
      then show ?thesis by (simp add: keystream_def c)
    qed
    have "map (\<lambda>t. buf ! (i + t) XOR cc20_block key counter nonce ! (skip + t)) [0..<n] = map (\<lambda>t. buf ! t XOR ?k t) [i..<i + n]"
      using key by (intro nth_equalityI) simp_all
    then have blk: "xor_block (cc20_block key counter nonce) skip i len buf = Some (i + n, ?b)"
      using xor_block_eq [OF length_cc20_block, of skip i len buf key counter nonce] less.prems(2) True pos(4)
      by (simp add: n_def [symmetric])
    have len: "length ?b = length buf" using less.prems pos by simp
    have next_pos: "counter + 1 = of_nat ((offset + (i + n)) div 64) \<and> 0 = (offset + (i + n)) mod 64" if "i + n < len"
    proof -
      have "skip + n = 64" using that sk by (auto simp: n_def)
      then have "offset + (i + n) = ((offset + i) div 64 + 1) * 64" 
      proof -
        have "q * 64 + skip = offset + i \<Longrightarrow> skip + n = 64 \<Longrightarrow> offset + (i + n) = (q + 1) * 64" for q by simp
        then show ?thesis using \<open>skip + n = 64\<close> sk by (metis div_mult_mod_eq)
      qed
      then show ?thesis by (simp add: c)
    qed
    have "xor_loop key nonce (counter + 1) 0 (i + n) len ?b =
        Some (take (i + n) ?b @ map (\<lambda>t. ?b ! t XOR ?k t) [i + n..<len] @ drop len ?b)"
      using less.hyps [of "i + n" ?b "counter + 1" 0] next_pos pos True len less.prems(2) by simp
    also have "take (i + n) ?b = take i buf @ map (\<lambda>t. buf ! t XOR ?k t) [i..<i + n]" using less.prems pos by simp
    also have "map (\<lambda>t. ?b ! t XOR ?k t) [i + n..<len] = map (\<lambda>t. buf ! t XOR ?k t) [i + n..<len]"
      using less.prems pos by (intro map_cong) (auto simp: nth_append)
    also have "drop len ?b = drop len buf" using less.prems pos by simp
    finally show ?thesis using True pos blk upt_add_eq_append [of i "i + n" "len - (i + n)"]
      by (subst xor_loop.simps) simp
  qed (use less.prems in \<open>simp add: xor_loop.simps\<close>)
qed

lemma cc20_xor_eq:
  assumes "len \<le> length buf"
  shows "cc20_xor key nonce offset buf len = Some (crypt key nonce offset (take len buf) @ drop len buf)"
  using xor_loop_eq [of 0 len buf "of_nat (offset div 64)" offset "offset mod 64" key nonce] assms
  by (simp add: cc20_xor_def crypt_def)

lemma crypt_append: "crypt key nonce offset (xs @ ys) = crypt key nonce offset xs @ crypt key nonce (offset + length xs) ys"
  unfolding crypt_def by (intro nth_equalityI) (auto simp: nth_append add.assoc)

lemma crypt_crypt: "crypt key nonce offset (crypt key nonce offset xs) = xs"
  unfolding crypt_def by (intro nth_equalityI) (simp_all add: xor.assoc)

lemma length_crypt [simp]: "length (crypt key nonce offset xs) = length xs"
  by (simp add: crypt_def)

text \<open>C37: a piece of a stream is encrypted by adding to it the key stream from the piece's position on, for every
  position and length, so that a file processed in two pieces that meet anywhere gives the same bytes as the file
  processed at once; and encrypting the result at the same position gives the file back.\<close>

theorem cc20_xor_stream:
  "\<exists>c d. cc20_xor key nonce offset xs (length xs) = Some c \<and>
     c = map (\<lambda>i. xs ! i XOR keystream key nonce (offset + i)) [0..<length xs] \<and>
     cc20_xor key nonce (offset + length xs) ys (length ys) = Some d \<and>
     cc20_xor key nonce offset (xs @ ys) (length (xs @ ys)) = Some (c @ d) \<and>
     cc20_xor key nonce offset (c @ d) (length (c @ d)) = Some (xs @ ys)"
  by (auto simp: cc20_xor_eq crypt_append crypt_crypt simp flip: crypt_def)

lemma phrase_bytes_eq: "c = 0 \<Longrightarrow> 0 \<notin> set ph \<Longrightarrow> phrase_bytes room (ph @ c # rest) = Some (take room ph)"
  by (induction ph arbitrary: room) (auto simp: take_Cons' split: nat.split)

text \<open>Only the first 64 bytes of the passphrase count.\<close>

lemma cc20_derive_key_digest:
  assumes "length (sbuf s0) = 64" "length salt = 16" "0 \<notin> set ph"
  shows "cc20_derive_key s0 rounds (ph @ [0]) salt = Some ((digest ^^ (rounds - 1)) (digest (salt @ take 64 ph)))"
proof -
  have "ofold (\<lambda>_ d. sha256 s0 d) xs d = Some ((digest ^^ length xs) d)" for xs :: "nat list" and d
    by (induction xs arbitrary: d) (simp_all add: sha256_digest [OF assms(1)] funpow_swap1)
  with assms show ?thesis by (simp add: cc20_derive_key_def phrase_bytes_eq sha256_digest)
qed

end
