(* ===== verification/Blk.thy ===== *)
theory Blk
  imports Vx_Prelude "HOL-Library.Monad_Syntax"
begin

text \<open>
  The block layer (\<open>src/blk.h\<close>): the table of disks, the dispatch to the four drivers, the table of
  retired sectors and the read-ahead cache, with the whole of \<open>blk_read\<close> and \<open>blk_write\<close>.

  The drivers talk to hardware and are parameters: a record of functions on a state of the hardware.
  What is relied on is stated as \<open>drivers_ok\<close>.  An access outside a buffer is a fault, the
  value \<^const>\<open>None\<close> of the outer option; a call that returns an error is an inner \<^const>\<open>None\<close> or \<^const>\<open>False\<close>.
\<close>

section \<open>Disks and drivers\<close>

datatype blk_kind = BLK_NONE | BLK_NVME | BLK_AHCI | BLK_ATA | BLK_USB

record blk_dev_t =
  dkind :: blk_kind
  dunit :: u8
  dsectors :: u64
  dbus :: string

text \<open>What the drivers offer, by the name of the function the dispatch calls.\<close>

record 'w drivers =
  nvme_read :: "u8 \<Rightarrow> u64 \<Rightarrow> nat \<Rightarrow> 'w \<Rightarrow> u8 list option \<times> 'w"
  ahci_read :: "u8 \<Rightarrow> u64 \<Rightarrow> nat \<Rightarrow> 'w \<Rightarrow> u8 list option \<times> 'w"
  ata_read :: "u64 \<Rightarrow> nat \<Rightarrow> 'w \<Rightarrow> u8 list option \<times> 'w"
  usbmsc_read :: "u8 \<Rightarrow> u64 \<Rightarrow> nat \<Rightarrow> 'w \<Rightarrow> u8 list option \<times> 'w"
  nvme_write :: "u8 \<Rightarrow> u64 \<Rightarrow> nat \<Rightarrow> u8 list \<Rightarrow> 'w \<Rightarrow> bool \<times> 'w"
  ahci_write :: "u8 \<Rightarrow> u64 \<Rightarrow> nat \<Rightarrow> u8 list \<Rightarrow> 'w \<Rightarrow> bool \<times> 'w"
  ata_write :: "u64 \<Rightarrow> nat \<Rightarrow> u8 list \<Rightarrow> 'w \<Rightarrow> bool \<times> 'w"
  usbmsc_write :: "u8 \<Rightarrow> u64 \<Rightarrow> nat \<Rightarrow> u8 list \<Rightarrow> 'w \<Rightarrow> bool \<times> 'w"
  nvme_flush :: "u8 \<Rightarrow> 'w \<Rightarrow> bool \<times> 'w"
  ahci_flush :: "u8 \<Rightarrow> 'w \<Rightarrow> bool \<times> 'w"
  ata_flush :: "'w \<Rightarrow> bool \<times> 'w"

record blk_line =
  lbase :: u64
  lcount :: nat
  lused :: u64
  ldata :: "u8 list"

record blk =
  blk_devs :: "blk_dev_t list"
  blk_cur :: "nat option"
  blk_remap :: "(u64 \<times> u64 \<times> nat) list"
  blk_spare_next :: u64
  blk_read_errors :: u64
  blk_cache :: "blk_line list option"
  blk_cache_clock :: u64
  blk_cache_hits :: u64
  blk_cache_misses :: u64
  blk_readahead :: u64

text \<open>The table holds six disks, and its length is \<open>blk_count\<close>.\<close>

definition blk_add :: "blk_kind \<Rightarrow> u8 \<Rightarrow> u64 \<Rightarrow> string \<Rightarrow> blk \<Rightarrow> blk" where
  "blk_add kind unit sectors bus s =
    (if length (blk_devs s) \<ge> 6 \<or> sectors = 0 then s
     else s\<lparr>blk_devs := blk_devs s @ [\<lparr>dkind = kind, dunit = unit, dsectors = sectors, dbus = bus\<rparr>]\<rparr>)"

text \<open>The memory sticks are given as their list: whether a unit is in use, and its size.\<close>

definition blk_usb_attached :: "(bool \<times> u64) list \<Rightarrow> int \<Rightarrow> blk \<Rightarrow> blk" where
  "blk_usb_attached sticks unit s =
    (if unit < 0 \<or> unit \<ge> int (length sticks) \<or> \<not> fst (sticks ! nat unit) then s
     else if \<exists>d \<in> set (blk_devs s). dkind d = BLK_USB \<and> uint (dunit d) = unit then s
     else let s = blk_add BLK_USB (of_int unit) (snd (sticks ! nat unit)) ''USB'' s
          in if blk_cur s = None \<and> length (blk_devs s) > 0 then s\<lparr>blk_cur := Some 0\<rparr> else s)"

text \<open>What the buses report: the capacities of the NVMe and SATA disks, the IDE disk if there is one.\<close>

definition blk_init :: "u64 list \<Rightarrow> u64 list \<Rightarrow> u64 option \<Rightarrow> (bool \<times> u64) list \<Rightarrow> blk \<Rightarrow> blk" where
  "blk_init nvme ahci ata sticks s =
    (let s = s\<lparr>blk_devs := [], blk_cur := None\<rparr>;
         s = fold (\<lambda>i. blk_add BLK_NVME (of_nat i) (nvme ! i) ''NVMe'') [0..<length nvme] s;
         s = fold (\<lambda>i. blk_add BLK_AHCI (of_nat i) (ahci ! i) ''SATA'') [0..<length ahci] s;
         s = (case ata of Some n \<Rightarrow> blk_add BLK_ATA 0 n ''IDE'' s | None \<Rightarrow> s);
         s = fold (\<lambda>i s. if fst (sticks ! i) then blk_add BLK_USB (of_nat i) (snd (sticks ! i)) ''USB'' s else s)
               [0..<length sticks] s
     in if length (blk_devs s) > 0 then s\<lparr>blk_cur := Some 0\<rparr> else s)"

definition blk_select :: "int \<Rightarrow> blk \<Rightarrow> bool \<times> blk" where
  "blk_select idx s =
    (if idx < 0 \<or> idx \<ge> int (length (blk_devs s)) then (False, s) else (True, s\<lparr>blk_cur := Some (nat idx)\<rparr>))"

definition blk_present :: "blk \<Rightarrow> bool" where
  "blk_present s \<longleftrightarrow> blk_cur s \<noteq> None"

definition blk_sectors :: "blk \<Rightarrow> u64" where
  "blk_sectors s = (case blk_cur s of Some c \<Rightarrow> dsectors (blk_devs s ! c) | None \<Rightarrow> 0)"

section \<open>Retired sectors\<close>

definition blk_remap_lookup :: "u64 \<Rightarrow> blk \<Rightarrow> u64" where
  "blk_remap_lookup lba s =
    (case filter (\<lambda>(bad, spare, n). bad = lba) (blk_remap s) of [] \<Rightarrow> lba | (bad, spare, n) # _ \<Rightarrow> spare)"

definition blk_read_raw :: "'w drivers \<Rightarrow> blk_dev_t \<Rightarrow> u64 \<Rightarrow> nat \<Rightarrow> 'w \<Rightarrow> u8 list option \<times> 'w" where
  "blk_read_raw drv d lba n w =
    (case dkind d of
       BLK_NVME \<Rightarrow> nvme_read drv (dunit d) lba n w
     | BLK_AHCI \<Rightarrow> ahci_read drv (dunit d) lba n w
     | BLK_ATA \<Rightarrow> ata_read drv lba n w
     | BLK_USB \<Rightarrow> usbmsc_read drv (dunit d) lba n w
     | BLK_NONE \<Rightarrow> (None, w))"

definition blk_write_raw :: "'w drivers \<Rightarrow> blk_dev_t \<Rightarrow> u64 \<Rightarrow> nat \<Rightarrow> u8 list \<Rightarrow> 'w \<Rightarrow> bool \<times> 'w" where
  "blk_write_raw drv d lba n buf w =
    (case dkind d of
       BLK_NVME \<Rightarrow> nvme_write drv (dunit d) lba n buf w
     | BLK_AHCI \<Rightarrow> ahci_write drv (dunit d) lba n buf w
     | BLK_ATA \<Rightarrow> ata_write drv lba n buf w
     | BLK_USB \<Rightarrow> usbmsc_write drv (dunit d) lba n buf w
     | BLK_NONE \<Rightarrow> (False, w))"

definition blk_flush :: "'w drivers \<Rightarrow> blk \<Rightarrow> 'w \<Rightarrow> bool \<times> 'w" where
  "blk_flush drv s w =
    (case blk_cur s of None \<Rightarrow> (False, w)
     | Some c \<Rightarrow> let d = blk_devs s ! c in
         (case dkind d of
            BLK_NVME \<Rightarrow> nvme_flush drv (dunit d) w
          | BLK_AHCI \<Rightarrow> ahci_flush drv (dunit d) w
          | BLK_ATA \<Rightarrow> ata_flush drv w
          | _ \<Rightarrow> (False, w)))"

text \<open>Up to three attempts at one sector.\<close>

fun retry :: "'w drivers \<Rightarrow> blk_dev_t \<Rightarrow> u64 \<Rightarrow> nat \<Rightarrow> 'w \<Rightarrow> bool \<times> 'w" where
  "retry drv d lba 0 w = (False, w)"
| "retry drv d lba (Suc k) w =
    (case blk_read_raw drv d lba 1 w of (Some _, w) \<Rightarrow> (True, w) | (None, w) \<Rightarrow> retry drv d lba k w)"

definition blk_retire_sector :: "'w drivers \<Rightarrow> blk_dev_t \<Rightarrow> u64 \<Rightarrow> blk \<Rightarrow> 'w \<Rightarrow> bool \<times> blk \<times> 'w" where
  "blk_retire_sector drv d lba s w =
    (case retry drv d lba 3 w of
       (True, w) \<Rightarrow> (True, s, w)
     | (False, w) \<Rightarrow>
         let s = s\<lparr>blk_read_errors := blk_read_errors s + 1\<rparr> in
         if length (blk_remap s) \<ge> 256 then (False, s, w)
         else if blk_spare_next s = 0 \<and> dsectors d < 4096 then (False, s, w)
         else let spare = (if blk_spare_next s = 0 then dsectors d - 1024 else blk_spare_next s)
              in (False, s\<lparr>blk_remap := blk_remap s @ [(lba, spare, 3)], blk_spare_next := spare + 1\<rparr>, w))"

section \<open>The read-ahead cache\<close>

text \<open>The allocation of the sixteen lines may fail; \<open>mem\<close> is what the lines' data hold before anything is read.\<close>

definition blk_cache_init :: "u8 list list option \<Rightarrow> blk \<Rightarrow> blk" where
  "blk_cache_init mem s =
    (if blk_cache s \<noteq> None then s
     else case mem of None \<Rightarrow> s
     | Some ds \<Rightarrow> s\<lparr>blk_cache := Some (map (\<lambda>data. \<lparr>lbase = - 1, lcount = 0, lused = 0, ldata = data\<rparr>) ds)\<rparr>)"

definition drop_line :: "u64 \<Rightarrow> nat \<Rightarrow> blk_line \<Rightarrow> blk_line" where
  "drop_line lba n l =
    (if lbase l = - 1 then l
     else if lba + of_nat n \<le> lbase l \<or> lbase l + of_nat (lcount l) \<le> lba then l
     else l\<lparr>lbase := - 1, lcount := 0\<rparr>)"

definition blk_cache_drop :: "u64 \<Rightarrow> nat \<Rightarrow> blk \<Rightarrow> blk" where
  "blk_cache_drop lba n s =
    (case blk_cache s of None \<Rightarrow> s | Some ls \<Rightarrow> s\<lparr>blk_cache := Some (map (drop_line lba n) ls)\<rparr>)"

definition slice :: "nat \<Rightarrow> nat \<Rightarrow> 'a list \<Rightarrow> 'a list option" where
  "slice off n xs = (if off + n \<le> length xs then Some (take n (drop off xs)) else None)"

text \<open>A read that bypasses the cache.\<close>

definition read_direct :: "'w drivers \<Rightarrow> blk_dev_t \<Rightarrow> u64 \<Rightarrow> nat \<Rightarrow> blk \<Rightarrow> 'w \<Rightarrow> u8 list option \<times> blk \<times> 'w" where
  "read_direct drv d lba n s w =
    (let real = blk_remap_lookup lba s in
     case blk_read_raw drv d real n w of
       (Some bs, w) \<Rightarrow> (Some bs, s, w)
     | (None, w) \<Rightarrow>
         if n = 1 then
           case blk_retire_sector drv d real s w of
             (True, s, w) \<Rightarrow> (case blk_read_raw drv d real 1 w of (r, w) \<Rightarrow> (r, s, w))
           | (False, s, w) \<Rightarrow> (None, s, w)
         else (None, s, w))"

definition line_holds :: "u64 \<Rightarrow> nat \<Rightarrow> blk_line \<Rightarrow> bool" where
  "line_holds lba n l \<longleftrightarrow>
     lbase l \<noteq> - 1 \<and> \<not> (lba < lbase l \<or> lba + of_nat n > lbase l + of_nat (lcount l))"

fun find_line :: "u64 \<Rightarrow> nat \<Rightarrow> nat \<Rightarrow> blk_line list \<Rightarrow> nat option" where
  "find_line lba n i [] = None"
| "find_line lba n i (l # ls) = (if line_holds lba n l then Some i else find_line lba n (i + 1) ls)"

definition read_hit :: "u64 \<Rightarrow> nat \<Rightarrow> nat \<Rightarrow> blk_line list \<Rightarrow> blk \<Rightarrow> (u8 list \<times> blk) option" where
  "read_hit lba n i ls s = do {
     bs \<leftarrow> slice (unat ((lba - lbase (ls ! i)) * 512)) (n * 512) (ldata (ls ! i));
     let clock = blk_cache_clock s + 1;
     Some (bs, s\<lparr>blk_cache := Some (ls[i := (ls ! i)\<lparr>lused := clock\<rparr>]), blk_cache_clock := clock,
                 blk_cache_hits := blk_cache_hits s + 1\<rparr>) }"

text \<open>The line to replace: the first empty one, or the one used longest ago.\<close>

fun pick_victim :: "nat \<Rightarrow> blk_line list \<Rightarrow> nat \<Rightarrow> u64 \<Rightarrow> nat" where
  "pick_victim i [] victim oldest = victim"
| "pick_victim i (l # ls) victim oldest =
    (if lbase l = - 1 then i
     else if lused l < oldest then pick_victim (i + 1) ls i (lused l)
     else pick_victim (i + 1) ls victim oldest)"

definition read_want :: "blk_dev_t \<Rightarrow> u64 \<Rightarrow> nat \<Rightarrow> nat" where
  "read_want d lba n =
    (let want = (if lba + 64 > dsectors d then unat (ucast (dsectors d - lba) :: u32) else 64)
     in if want < n then n else want)"

text \<open>The fallback when the long read failed: sector by sector, giving up at the first that stays bad.\<close>

definition read_once :: "'w drivers \<Rightarrow> blk_dev_t \<Rightarrow> u64 \<Rightarrow> blk \<Rightarrow> 'w \<Rightarrow> u8 list option \<times> blk \<times> 'w" where
  "read_once drv d lba s w =
    (let real = blk_remap_lookup lba s in
     case blk_read_raw drv d real 1 w of
       (Some bs, w) \<Rightarrow> (Some bs, s, w)
     | (None, w) \<Rightarrow>
         (case blk_retire_sector drv d real s w of
            (False, s, w) \<Rightarrow> (None, s, w)
          | (True, s, w) \<Rightarrow> (case blk_read_raw drv d (blk_remap_lookup lba s) 1 w of (r, w) \<Rightarrow> (r, s, w))))"

fun read_each :: "'w drivers \<Rightarrow> blk_dev_t \<Rightarrow> u64 \<Rightarrow> nat \<Rightarrow> blk \<Rightarrow> 'w \<Rightarrow> u8 list option \<times> blk \<times> 'w" where
  "read_each drv d lba 0 s w = (Some [], s, w)"
| "read_each drv d lba (Suc n) s w =
    (case read_once drv d lba s w of
       (None, s, w) \<Rightarrow> (None, s, w)
     | (Some bs, s, w) \<Rightarrow> (case read_each drv d (lba + 1) n s w of
         (rest, s, w) \<Rightarrow> (map_option (\<lambda>more. bs @ more) rest, s, w)))"

definition read_miss :: "'w drivers \<Rightarrow> blk_dev_t \<Rightarrow> u64 \<Rightarrow> nat \<Rightarrow> blk_line list \<Rightarrow> blk \<Rightarrow> 'w \<Rightarrow> (u8 list option \<times> blk \<times> 'w) option" where
  "read_miss drv d lba n ls s w =
    (let s = s\<lparr>blk_cache_misses := blk_cache_misses s + 1\<rparr>;
         v = pick_victim 0 ls 0 (- 1);
         want = read_want d lba n;
         real = blk_remap_lookup lba s
     in case blk_read_raw drv d real want w of
          (None, w) \<Rightarrow>
            Some (read_each drv d lba n (s\<lparr>blk_cache := Some (ls[v := (ls ! v)\<lparr>lbase := - 1\<rparr>])\<rparr>) w)
        | (Some bs, w) \<Rightarrow>
            if want * 512 > length (ldata (ls ! v)) then None
            else do {
              let data = bs @ drop (want * 512) (ldata (ls ! v));
              let clock = blk_cache_clock s + 1;
              out \<leftarrow> slice 0 (n * 512) data;
              Some (Some out,
                s\<lparr>blk_cache := Some (ls[v := \<lparr>lbase = lba, lcount = want, lused = clock, ldata = data\<rparr>]),
                  blk_cache_clock := clock, blk_readahead := blk_readahead s + of_nat (want - n)\<rparr>, w) })"

definition blk_read :: "'w drivers \<Rightarrow> u64 \<Rightarrow> nat \<Rightarrow> blk \<Rightarrow> 'w \<Rightarrow> (u8 list option \<times> blk \<times> 'w) option" where
  "blk_read drv lba n s w =
    (case blk_cur s of None \<Rightarrow> Some (None, s, w)
     | Some c \<Rightarrow>
         let d = blk_devs s ! c in
         if lba + of_nat n > dsectors d then Some (None, s, w)
         else (case blk_cache s of
             None \<Rightarrow> Some (read_direct drv d lba n s w)
           | Some ls \<Rightarrow>
               if n > 64 then Some (read_direct drv d lba n s w)
               else (case find_line lba n 0 ls of
                   Some i \<Rightarrow> map_option (\<lambda>(bs, s). (Some bs, s, w)) (read_hit lba n i ls s)
                 | None \<Rightarrow> read_miss drv d lba n ls s w)))"

definition blk_write :: "'w drivers \<Rightarrow> u64 \<Rightarrow> nat \<Rightarrow> u8 list \<Rightarrow> blk \<Rightarrow> 'w \<Rightarrow> bool \<times> blk \<times> 'w" where
  "blk_write drv lba n buf s w =
    (case blk_cur s of None \<Rightarrow> (False, s, w)
     | Some c \<Rightarrow>
         let d = blk_devs s ! c in
         if lba + of_nat n > dsectors d then (False, s, w)
         else let s = blk_cache_drop lba n s in
           (case blk_write_raw drv d (blk_remap_lookup lba s) n buf w of (ok, w) \<Rightarrow> (ok, s, w)))"

end
