(* ===== verification/Blk_Cache.thy ===== *)
theory Blk_Cache
  imports Blk
begin

text \<open>
  What the block layer promises to the filesystems: reads and writes behave as on a plain disk, with the
  read-ahead cache invisible.  The promise is a specification of a disk as a relation, and the code is
  shown to simulate it as long as no sector had to be retired.  It is also shown what goes wrong when the
  current disk changes, as the cache does not know which disk a line came from.
\<close>

section \<open>What the drivers are relied on for\<close>

text \<open>
  \<open>sect w d k\<close> is sector \<open>k\<close> of disk \<open>d\<close> when the hardware is in state \<open>w\<close>.  A successful read delivers the
  sectors asked for and no read changes them; a write touches no sector outside its range, and when it
  reports success the sectors hold the data.  Any call may fail.  No disk comes near \<open>2 ^ 64\<close> sectors.
\<close>

type_synonym 'w sectors = "'w \<Rightarrow> blk_dev_t \<Rightarrow> nat \<Rightarrow> u8 list"

definition contents :: "'w sectors \<Rightarrow> 'w \<Rightarrow> blk_dev_t \<Rightarrow> nat \<Rightarrow> nat \<Rightarrow> u8 list" where
  "contents sect w d a n = concat (map (sect w d) [a..<a + n])"

definition reads_ok :: "'w drivers \<Rightarrow> 'w sectors \<Rightarrow> blk_dev_t \<Rightarrow> bool" where
  "reads_ok drv sect d \<longleftrightarrow> (\<forall>lba n w r w'. blk_read_raw drv d lba n w = (r, w') \<longrightarrow>
     sect w' = sect w \<and> (\<forall>bs. r = Some bs \<longrightarrow> length bs = n * 512 \<and>
       (unat lba + n \<le> unat (dsectors d) \<longrightarrow> bs = contents sect w d (unat lba) n)))"

definition writes_ok :: "'w drivers \<Rightarrow> 'w sectors \<Rightarrow> blk_dev_t \<Rightarrow> bool" where
  "writes_ok drv sect d \<longleftrightarrow> (\<forall>lba n buf w ok w'. length buf = n * 512 \<longrightarrow> unat lba + n \<le> unat (dsectors d) \<longrightarrow>
     blk_write_raw drv d lba n buf w = (ok, w') \<longrightarrow>
     (\<forall>k. k < unat lba \<or> unat lba + n \<le> k \<longrightarrow> sect w' d k = sect w d k) \<and>
     (ok \<longrightarrow> contents sect w' d (unat lba) n = buf))"

definition drivers_ok :: "'w drivers \<Rightarrow> 'w sectors \<Rightarrow> blk_dev_t \<Rightarrow> bool" where
  "drivers_ok drv sect d \<longleftrightarrow> reads_ok drv sect d \<and> writes_ok drv sect d \<and>
     (\<forall>w k. length (sect w d k) = 512) \<and> unat (dsectors d) + 64 < 2 ^ 64"

section \<open>Blocks of sectors\<close>

lemma length_contents: "(\<And>k. length (sect w d k) = 512) \<Longrightarrow> length (contents sect w d a n) = n * 512"
  by (induction n) (simp_all add: contents_def)

lemma contents_append: "contents sect w d a (m + n) = contents sect w d a m @ contents sect w d (a + m) n"
  using upt_add_eq_append [of a "a + m" n] by (simp add: contents_def add.assoc)

lemma contents_slice:
  assumes len: "\<And>k. length (sect w d k) = 512" and "k + n \<le> c"
  shows "take (n * 512) (drop (k * 512) (contents sect w d b c)) = contents sect w d (b + k) n"
proof -
  have "c = k + (n + (c - k - n))" using assms(2) by simp
  then have "contents sect w d b c = contents sect w d b k @ contents sect w d (b + k) n @ contents sect w d (b + k + n) (c - k - n)"
    by (metis contents_append)
  then show ?thesis by (simp add: length_contents len)
qed

lemma contents_cong: "(\<And>k. a \<le> k \<Longrightarrow> k < a + n \<Longrightarrow> sect w' d k = sect w d k) \<Longrightarrow> contents sect w' d a n = contents sect w d a n"
  unfolding contents_def by (intro arg_cong [where f = concat] map_cong) auto

section \<open>The state of the cache\<close>

definition line_shape :: "blk_dev_t \<Rightarrow> blk_line \<Rightarrow> bool" where
  "line_shape d l \<longleftrightarrow> length (ldata l) = 64 * 512 \<and>
     (lbase l \<noteq> - 1 \<longrightarrow> lcount l \<le> 64 \<and> unat (lbase l) + lcount l \<le> unat (dsectors d))"

definition line_true :: "'w sectors \<Rightarrow> 'w \<Rightarrow> blk_dev_t \<Rightarrow> blk_line \<Rightarrow> bool" where
  "line_true sect w d l \<longleftrightarrow> (lbase l \<noteq> - 1 \<longrightarrow> take (lcount l * 512) (ldata l) = contents sect w d (unat (lbase l)) (lcount l))"

text \<open>Disk \<open>d\<close> is current and the cache, if there is one, has lines of the right shape.\<close>

definition cache_shape :: "blk_dev_t \<Rightarrow> blk \<Rightarrow> bool" where
  "cache_shape d s \<longleftrightarrow> (\<exists>c. blk_cur s = Some c \<and> blk_devs s ! c = d) \<and>
     (\<forall>ls. blk_cache s = Some ls \<longrightarrow> ls \<noteq> [] \<and> (\<forall>l \<in> set ls. line_shape d l))"

definition cache_true :: "'w sectors \<Rightarrow> 'w \<Rightarrow> blk_dev_t \<Rightarrow> blk \<Rightarrow> bool" where
  "cache_true sect w d s \<longleftrightarrow> (\<forall>ls. blk_cache s = Some ls \<longrightarrow> (\<forall>l \<in> set ls. line_true sect w d l))"

definition keeps_cache :: "blk \<Rightarrow> blk \<Rightarrow> bool" where
  "keeps_cache s s' \<longleftrightarrow> blk_cur s' = blk_cur s \<and> blk_devs s' = blk_devs s \<and> blk_cache s' = blk_cache s \<and>
     (\<exists>xs. blk_remap s' = blk_remap s @ xs)"

lemma keeps_cache_refl [simp]: "keeps_cache s s"
  by (simp add: keeps_cache_def)

lemma keeps_cache_trans: "keeps_cache s t \<Longrightarrow> keeps_cache t u \<Longrightarrow> keeps_cache s u"
  by (auto simp: keeps_cache_def)

lemma keeps_cache_remap: "keeps_cache s s' \<Longrightarrow> blk_remap s' = [] \<Longrightarrow> blk_remap s = []"
  by (auto simp: keeps_cache_def)

lemma remap_none: "blk_remap s = [] \<Longrightarrow> blk_remap_lookup lba s = lba"
  by (simp add: blk_remap_lookup_def)

lemma unat_add_of_nat: "unat (lba :: u64) + n < 2 ^ 64 \<Longrightarrow> unat (lba + of_nat n) = unat lba + n"
  by (simp add: unat_word_ariths unat_of_nat)

section \<open>Reads\<close>

lemma retry_sect: "reads_ok drv sect d \<Longrightarrow> retry drv d lba k w = (b, w') \<Longrightarrow> sect w' = sect w"
proof (induction k arbitrary: w)
  case (Suc k)
  obtain r w1 where r: "blk_read_raw drv d lba 1 w = (r, w1)" by fastforce
  then have "sect w1 = sect w" using Suc.prems(1) by (auto simp: reads_ok_def)
  with Suc r show ?case by (cases r) auto
qed simp

lemma retire_keeps:
  assumes "reads_ok drv sect d" "blk_retire_sector drv d lba s w = (b, s', w')"
  shows "sect w' = sect w \<and> keeps_cache s s'"
proof -
  obtain b1 w1 where r: "retry drv d lba 3 w = (b1, w1)" by fastforce
  with retry_sect [OF assms(1) r] assms(2) show ?thesis
    by (cases b1) (auto simp: blk_retire_sector_def keeps_cache_def Let_def split: if_splits)
qed

text \<open>The outcome of a read of \<open>n\<close> sectors below the cache.\<close>

definition read_outcome :: "'w sectors \<Rightarrow> blk_dev_t \<Rightarrow> u64 \<Rightarrow> nat \<Rightarrow> blk \<Rightarrow> 'w \<Rightarrow> u8 list option \<times> blk \<times> 'w \<Rightarrow> bool" where
  "read_outcome sect d lba n s w = (\<lambda>(r, s', w'). sect w' = sect w \<and> keeps_cache s s' \<and>
     (blk_remap s' = [] \<longrightarrow> unat lba + n \<le> unat (dsectors d) \<longrightarrow> (\<forall>bs. r = Some bs \<longrightarrow> bs = contents sect w d (unat lba) n)))"

lemma raw_sect: "reads_ok drv sect d \<Longrightarrow> blk_read_raw drv d lba n w = (r, w') \<Longrightarrow> sect w' = sect w"
  by (auto simp: reads_ok_def)

lemma raw_data:
  "reads_ok drv sect d \<Longrightarrow> blk_read_raw drv d lba n w = (Some bs, w') \<Longrightarrow>
   length bs = n * 512 \<and> (unat lba + n \<le> unat (dsectors d) \<longrightarrow> bs = contents sect w d (unat lba) n)"
  by (auto simp: reads_ok_def)

text \<open>One sector after a failure: the sector is tried again and, if it stays bad, retired.\<close>

lemma retired_outcome:
  assumes ok: "reads_ok drv sect d" and first: "blk_read_raw drv d (blk_remap_lookup lba s) n w = (None, w1)"
    and retire: "blk_retire_sector drv d (blk_remap_lookup lba s) s w1 = (b, s2, w2)"
  shows "read_outcome sect d lba m s w (None, s2, w2)"
    and "blk_read_raw drv d a 1 w2 = (r3, w3) \<Longrightarrow> a = blk_remap_lookup lba s \<or> a = blk_remap_lookup lba s2 \<Longrightarrow>
      read_outcome sect d lba 1 s w (r3, s2, w3)"
proof -
  have k: "keeps_cache s s2" "sect w2 = sect w" using retire_keeps [OF ok retire] raw_sect [OF ok first] by auto
  then show "read_outcome sect d lba m s w (None, s2, w2)" by (simp add: read_outcome_def)
  assume r3: "blk_read_raw drv d a 1 w2 = (r3, w3)" and a: "a = blk_remap_lookup lba s \<or> a = blk_remap_lookup lba s2"
  have "bs = contents sect w d (unat lba) 1"
    if "r3 = Some bs" "blk_remap s2 = []" "unat lba + 1 \<le> unat (dsectors d)" for bs
  proof -
    have "a = lba" using a that(2) keeps_cache_remap [OF k(1)] by (auto simp: remap_none)
    with raw_data [OF ok, of a 1 w2 bs w3] r3 that k(2) show ?thesis by (simp add: contents_def)
  qed
  with k raw_sect [OF ok r3] show "read_outcome sect d lba 1 s w (r3, s2, w3)" by (simp add: read_outcome_def)
qed

lemma first_outcome:
  assumes ok: "reads_ok drv sect d" and first: "blk_read_raw drv d (blk_remap_lookup lba s) n w = (r, w1)"
  shows "read_outcome sect d lba n s w (r, s, w1)"
  using raw_sect [OF ok first] raw_data [OF ok, of "blk_remap_lookup lba s" n w _ w1] first
  by (auto simp: read_outcome_def remap_none)

lemma read_direct_outcome:
  assumes ok: "reads_ok drv sect d"
  shows "read_outcome sect d lba n s w (read_direct drv d lba n s w)"
proof -
  obtain r w1 where r: "blk_read_raw drv d (blk_remap_lookup lba s) n w = (r, w1)" by fastforce
  obtain b s2 w2 where b: "blk_retire_sector drv d (blk_remap_lookup lba s) s w1 = (b, s2, w2)" by (metis prod_cases3)
  obtain r3 w3 where r3: "blk_read_raw drv d (blk_remap_lookup lba s) 1 w2 = (r3, w3)" by fastforce
  have "read_direct drv d lba n s w =
      (case r of Some bs \<Rightarrow> (r, s, w1) | None \<Rightarrow> if n = 1 then if b then (r3, s2, w3) else (None, s2, w2) else (None, s, w1))"
    using r b r3 by (cases r; cases b) (simp_all add: read_direct_def Let_def del: One_nat_def)
  moreover have "read_outcome sect d lba m s w (None, s2, w2)" "read_outcome sect d lba 1 s w (r3, s2, w3)" if "r = None" for m
    using that retired_outcome [OF ok _ b] r r3 by blast+
  ultimately show ?thesis using first_outcome [OF ok r] by (cases r) (auto simp del: One_nat_def)
qed

lemma read_once_outcome:
  assumes ok: "reads_ok drv sect d"
  shows "read_outcome sect d lba 1 s w (read_once drv d lba s w)"
proof -
  obtain r w1 where r: "blk_read_raw drv d (blk_remap_lookup lba s) 1 w = (r, w1)" by fastforce
  obtain b s2 w2 where b: "blk_retire_sector drv d (blk_remap_lookup lba s) s w1 = (b, s2, w2)" by (metis prod_cases3)
  obtain r3 w3 where r3: "blk_read_raw drv d (blk_remap_lookup lba s2) 1 w2 = (r3, w3)" by fastforce
  have "read_once drv d lba s w =
      (case r of Some bs \<Rightarrow> (r, s, w1) | None \<Rightarrow> if b then (r3, s2, w3) else (None, s2, w2))"
    using r b r3 by (cases r; cases b) (simp_all add: read_once_def Let_def del: One_nat_def)
  moreover have "read_outcome sect d lba m s w (None, s2, w2)" "read_outcome sect d lba 1 s w (r3, s2, w3)" if "r = None" for m
    using that retired_outcome [OF ok _ b] r r3 by blast+
  ultimately show ?thesis using first_outcome [OF ok r] by (cases r) (auto simp del: One_nat_def)
qed

lemma read_each_outcome:
  assumes ok: "reads_ok drv sect d" and "unat lba + n < 2 ^ 64"
  shows "read_outcome sect d lba n s w (read_each drv d lba n s w)"
  using assms(2)
proof (induction n arbitrary: lba s w)
  case 0
  then show ?case by (simp add: read_outcome_def contents_def)
next
  case (Suc n)
  obtain r s1 w1 where f: "read_once drv d lba s w = (r, s1, w1)" by (metis prod_cases3)
  have one: "read_outcome sect d lba 1 s w (r, s1, w1)" using read_once_outcome [OF ok, of lba s w] f by simp
  obtain r2 s2 w2 where e: "read_each drv d (lba + 1) n s1 w1 = (r2, s2, w2)" by (metis prod_cases3)
  have next_lba: "unat (lba + 1) = unat lba + 1" using Suc.prems unat_add_of_nat [of lba 1] by simp
  have rest: "read_outcome sect d (lba + 1) n s1 w1 (r2, s2, w2)"
    using Suc.IH [of "lba + 1" s1 w1] Suc.prems next_lba e by simp
  show ?case
  proof (cases r)
    case None
    with one f show ?thesis by (auto simp: read_outcome_def)
  next
    case (Some bs)
    have k: "keeps_cache s s1" "keeps_cache s1 s2" "sect w1 = sect w" using one rest by (auto simp: read_outcome_def)
    have "bs @ more = contents sect w d (unat lba) (Suc n)"
      if "r2 = Some more" "blk_remap s2 = []" "unat lba + Suc n \<le> unat (dsectors d)" for more
      using that one rest Some k keeps_cache_remap [OF k(2)] contents_append [of sect w d "unat lba" 1 n]
      by (simp add: read_outcome_def next_lba contents_def)
    with f e Some k rest keeps_cache_trans [OF k(1,2)] show ?thesis by (auto simp: read_outcome_def)
  qed
qed

section \<open>The cache\<close>

lemma find_line_Some: "find_line lba n i ls = Some j \<Longrightarrow> \<exists>k < length ls. j = i + k \<and> line_holds lba n (ls ! k)"
proof (induction ls arbitrary: i)
  case (Cons l ls)
  show ?case
  proof (cases "line_holds lba n l")
    case False
    with Cons.IH [of "i + 1"] Cons.prems obtain k where "k < length ls" "j = i + 1 + k" "line_holds lba n (ls ! k)" by auto
    then show ?thesis by (intro exI [of _ "Suc k"]) simp
  qed (use Cons.prems in auto)
qed simp

lemma pick_victim_less: "i + length ls \<le> m \<Longrightarrow> v < m \<Longrightarrow> pick_victim i ls v old < m"
  by (induction ls arbitrary: i v old) auto

text \<open>A line that holds the request has the bytes, at the offset the code computes.\<close>

lemma line_slice:
  assumes holds: "line_holds lba n l" and shape: "line_shape d l" and req: "unat lba + n < 2 ^ 64"
    and size: "unat (dsectors d) + 64 < 2 ^ 64"
  shows "\<exists>bs. slice (unat ((lba - lbase l) * 512)) (n * 512) (ldata l) = Some bs \<and>
    ((\<forall>k. length (sect w d k) = 512) \<longrightarrow> line_true sect w d l \<longrightarrow> bs = contents sect w d (unat lba) n)"
proof -
  let ?b = "unat (lbase l)" and ?k = "unat lba - unat (lbase l)"
  have line: "lcount l \<le> 64" "?b + lcount l \<le> unat (dsectors d)" "length (ldata l) = 64 * 512" "lbase l \<noteq> - 1"
    using shape holds by (auto simp: line_shape_def line_holds_def)
  have ge: "?b \<le> unat lba" using holds by (simp add: line_holds_def word_le_nat_alt not_less)
  have "unat (lbase l + of_nat (lcount l)) = ?b + lcount l" using line size by (intro unat_add_of_nat) linarith
  then have le: "unat lba + n \<le> ?b + lcount l"
    using holds unat_add_of_nat [OF req] by (simp add: line_holds_def word_less_nat_alt not_less)
  then have kn: "?k + n \<le> lcount l" using ge by linarith
  have x: "unat (lba - lbase l) = ?k" using ge by (simp add: unat_sub word_le_nat_alt)
  have "unat (x * 512) = unat x * 512" if "unat x \<le> 64" for x :: u64 using that by (simp add: unat_word_ariths)
  from this [of "lba - lbase l"] have off: "unat ((lba - lbase l) * 512) = ?k * 512" using kn line(1) unfolding x by linarith
  have fits: "?k * 512 + n * 512 \<le> length (ldata l)" using kn line(1,3) by simp
  have "take (n * 512) (drop (?k * 512) (ldata l)) = contents sect w d (unat lba) n"
    if len: "\<forall>k. length (sect w d k) = 512" and "line_true sect w d l"
  proof -
    have "take (lcount l * 512) (ldata l) = contents sect w d ?b (lcount l)" using that line(4) by (simp add: line_true_def)
    moreover have "take (n * 512) (drop (?k * 512) (ldata l)) = take (n * 512) (drop (?k * 512) (take (lcount l * 512) (ldata l)))"
      using kn by (simp add: drop_take min_def)
    ultimately show ?thesis using contents_slice [of sect w d ?k n "lcount l" ?b] len kn ge by simp
  qed
  with off fits show ?thesis by (auto simp: slice_def)
qed

text \<open>What one operation does: the specification of a disk.\<close>

datatype blk_op = Rd u64 nat | Wr u64 nat "u8 list"

fun valid_op :: "blk_op \<Rightarrow> bool" where
  "valid_op (Rd lba n) \<longleftrightarrow> unat lba + n < 2 ^ 64"
| "valid_op (Wr lba n buf) \<longleftrightarrow> unat lba + n < 2 ^ 64 \<and> length buf = n * 512"

definition blocks :: "(nat \<Rightarrow> u8 list) \<Rightarrow> nat \<Rightarrow> nat \<Rightarrow> u8 list" where
  "blocks disk a n = concat (map disk [a..<a + n])"

text \<open>
  A read delivers the sectors, or fails.  A write that succeeds stores the data and a write that fails may
  have stored anything in its range; neither touches a sector outside it.
\<close>

inductive disk_step :: "(nat \<Rightarrow> u8 list) \<Rightarrow> blk_op \<Rightarrow> u8 list option \<Rightarrow> (nat \<Rightarrow> u8 list) \<Rightarrow> bool" where
  read_ok: "disk_step disk (Rd lba n) (Some (blocks disk (unat lba) n)) disk"
| read_err: "disk_step disk (Rd lba n) None disk"
| write_ok: "(\<And>k. k < unat lba \<or> unat lba + n \<le> k \<Longrightarrow> disk' k = disk k) \<Longrightarrow> blocks disk' (unat lba) n = buf \<Longrightarrow>
    disk_step disk (Wr lba n buf) (Some []) disk'"
| write_err: "(\<And>k. k < unat lba \<or> unat lba + n \<le> k \<Longrightarrow> disk' k = disk k) \<Longrightarrow> disk_step disk (Wr lba n buf) None disk'"

inductive disk_run :: "(nat \<Rightarrow> u8 list) \<Rightarrow> blk_op list \<Rightarrow> u8 list option list \<Rightarrow> (nat \<Rightarrow> u8 list) \<Rightarrow> bool" where
  run_nil: "disk_run disk [] [] disk"
| run_cons: "disk_step disk x r disk1 \<Longrightarrow> disk_run disk1 xs rs disk2 \<Longrightarrow> disk_run disk (x # xs) (r # rs) disk2"

text \<open>The block layer's operation of the same name; a write returns no data.\<close>

fun blk_do :: "'w drivers \<Rightarrow> blk_op \<Rightarrow> blk \<Rightarrow> 'w \<Rightarrow> (u8 list option \<times> blk \<times> 'w) option" where
  "blk_do drv (Rd lba n) s w = blk_read drv lba n s w"
| "blk_do drv (Wr lba n buf) s w =
    (case blk_write drv lba n buf s w of (ok, s, w) \<Rightarrow> Some (if ok then Some [] else None, s, w))"

fun blk_run :: "'w drivers \<Rightarrow> blk_op list \<Rightarrow> blk \<Rightarrow> 'w \<Rightarrow> (u8 list option list \<times> blk \<times> 'w) option" where
  "blk_run drv [] s w = Some ([], s, w)"
| "blk_run drv (x # xs) s w = do {
     (r, s, w) \<leftarrow> blk_do drv x s w;
     (rs, s, w) \<leftarrow> blk_run drv xs s w;
     Some (r # rs, s, w) }"

text \<open>One operation of the code simulates one of the disk.\<close>

definition simulates :: "'w sectors \<Rightarrow> blk_dev_t \<Rightarrow> blk_op \<Rightarrow> blk \<Rightarrow> 'w \<Rightarrow> u8 list option \<times> blk \<times> 'w \<Rightarrow> bool" where
  "simulates sect d x s w = (\<lambda>(r, s', w'). cache_shape d s' \<and> (\<exists>xs. blk_remap s' = blk_remap s @ xs) \<and>
     (blk_remap s' = [] \<longrightarrow> cache_true sect w d s \<longrightarrow> cache_true sect w' d s' \<and> disk_step (sect w d) x r (sect w' d)))"

lemma blocks_contents: "blocks (sect w d) a n = contents sect w d a n"
  by (simp add: blocks_def contents_def)

lemma simulates_outcome:
  assumes "read_outcome sect d lba n s w out" "cache_shape d s" "unat lba + n \<le> unat (dsectors d)"
  shows "simulates sect d (Rd lba n) s w out"
proof -
  obtain r s' w' where out: "out = (r, s', w')" by (metis prod_cases3)
  have "disk_step (sect w d) (Rd lba n) r (sect w d)" if "\<forall>bs. r = Some bs \<longrightarrow> bs = contents sect w d (unat lba) n"
    using that read_ok [of "sect w d" lba n] read_err [of "sect w d" lba n] by (cases r) (simp_all add: blocks_contents)
  with assms out show ?thesis
    by (auto simp: simulates_def read_outcome_def keeps_cache_def cache_shape_def cache_true_def line_true_def contents_def)
qed

lemma in_range:
  assumes "unat lba + n < 2 ^ 64"
  shows "\<not> lba + of_nat n > dsectors d \<longleftrightarrow> unat lba + n \<le> unat (dsectors d)"
  using unat_add_of_nat [OF assms] by (simp add: word_less_nat_alt not_less)

lemma cache_upd_line:
  assumes shape: "cache_shape d s" and ls: "blk_cache s = Some ls" and v: "v < length ls"
    and s': "blk_cur s' = blk_cur s" "blk_devs s' = blk_devs s" "blk_cache s' = Some (ls[v := l])" and l: "line_shape d l"
  shows "cache_shape d s'"
    and "cache_true sect w d s \<Longrightarrow> line_true sect w d l \<Longrightarrow> cache_true sect w d s'"
  using assms by (auto simp: cache_shape_def cache_true_def dest!: set_update_subset_insert [THEN subsetD])

lemma read_hit_simulates:
  assumes ok: "drivers_ok drv sect d" and shape: "cache_shape d s" and req: "unat lba + n < 2 ^ 64"
    and ls: "blk_cache s = Some ls" and i: "i < length ls" "line_holds lba n (ls ! i)"
  shows "\<exists>bs s'. read_hit lba n i ls s = Some (bs, s') \<and> simulates sect d (Rd lba n) s w (Some bs, s', w)"
proof -
  have line: "line_shape d (ls ! i)" using shape ls i by (simp add: cache_shape_def)
  have size: "unat (dsectors d) + 64 < 2 ^ 64" and len: "\<forall>k. length (sect w d k) = 512" using ok by (simp_all add: drivers_ok_def)
  obtain bs where bs: "slice (unat ((lba - lbase (ls ! i)) * 512)) (n * 512) (ldata (ls ! i)) = Some bs"
    and data: "line_true sect w d (ls ! i) \<longrightarrow> bs = contents sect w d (unat lba) n"
    using line_slice [OF i(2) line req size, of sect w] len by blast
  define clock where "clock = blk_cache_clock s + 1"
  define s' where "s' = s\<lparr>blk_cache := Some (ls[i := (ls ! i)\<lparr>lused := clock\<rparr>]), blk_cache_clock := clock, blk_cache_hits := blk_cache_hits s + 1\<rparr>"
  have hit: "read_hit lba n i ls s = Some (bs, s')" using bs by (simp add: read_hit_def s'_def clock_def Let_def)
  have l: "line_shape d ((ls ! i)\<lparr>lused := clock\<rparr>)" "line_true sect w d ((ls ! i)\<lparr>lused := clock\<rparr>) \<longleftrightarrow> line_true sect w d (ls ! i)"
    using line by (simp_all add: line_shape_def line_true_def)
  have old: "cache_true sect w d s \<Longrightarrow> line_true sect w d (ls ! i)" using ls i(1) by (simp add: cache_true_def)
  have upd: "cache_shape d s'" "cache_true sect w d s \<Longrightarrow> line_true sect w d (ls ! i) \<Longrightarrow> cache_true sect w d s'"
    using cache_upd_line [OF shape ls i(1) _ _ _ l(1), of s'] l(2) by (simp_all add: s'_def)
  have "disk_step (sect w d) (Rd lba n) (Some bs) (sect w d)" if "line_true sect w d (ls ! i)"
    using read_ok [of "sect w d" lba n] data that by (simp add: blocks_contents)
  with hit upd old show ?thesis by (auto simp: simulates_def s'_def)
qed

lemma read_want_range:
  assumes "unat lba + n \<le> unat (dsectors d)" "n \<le> 64" "unat (dsectors d) + 64 < 2 ^ 64"
  shows "n \<le> read_want d lba n" "read_want d lba n \<le> 64" "unat lba + read_want d lba n \<le> unat (dsectors d)"
proof -
  have a: "unat (lba + 64) = unat lba + 64" using unat_add_of_nat [of lba 64] assms by simp
  have b: "unat (dsectors d - lba) = unat (dsectors d) - unat lba" using assms by (simp add: unat_sub word_le_nat_alt)
  have c: "unat (ucast (dsectors d - lba) :: u32) = unat (dsectors d) - unat lba" if "unat (dsectors d) < unat lba + 64"
    using that b by (simp add: unsigned_ucast_eq take_bit_eq_mod)
  show "n \<le> read_want d lba n" "read_want d lba n \<le> 64" "unat lba + read_want d lba n \<le> unat (dsectors d)"
    using assms c by (auto simp: read_want_def Let_def word_less_nat_alt a)
qed

text \<open>The transfer of the cache's truth between states that agree on the sectors.\<close>

lemma cache_true_cong: "sect w' = sect w \<Longrightarrow> blk_cache s' = blk_cache s \<Longrightarrow> cache_true sect w' d s' = cache_true sect w d s"
  by (simp add: cache_true_def line_true_def contents_def)

lemma simulates_from:
  assumes "simulates sect d x s2 w1 out" and "sect w1 = sect w" and "blk_remap s2 = blk_remap s"
    and "cache_true sect w d s \<Longrightarrow> cache_true sect w d s2"
  shows "simulates sect d x s w out"
  using assms cache_true_cong [of sect w1 w s2 s2 d] by (auto simp: simulates_def)

lemma read_miss_failed:
  assumes ok: "drivers_ok drv sect d" and shape: "cache_shape d s" and req: "unat lba + n \<le> unat (dsectors d)"
    and ls: "blk_cache s = Some ls" and v: "v < length ls" and w1: "sect w1 = sect w"
    and s2: "s2 = s\<lparr>blk_cache_misses := m, blk_cache := Some (ls[v := (ls ! v)\<lparr>lbase := - 1\<rparr>])\<rparr>"
  shows "simulates sect d (Rd lba n) s w (read_each drv d lba n s2 w1)"
proof -
  have rd: "reads_ok drv sect d" and size: "unat (dsectors d) + 64 < 2 ^ 64" using ok by (simp_all add: drivers_ok_def)
  have "line_shape d (ls ! v)" using shape ls v by (simp add: cache_shape_def)
  then have l: "line_shape d ((ls ! v)\<lparr>lbase := - 1\<rparr>)" "line_true sect w d ((ls ! v)\<lparr>lbase := - 1\<rparr>)"
    by (simp_all add: line_shape_def line_true_def)
  have sel: "blk_cur s2 = blk_cur s" "blk_devs s2 = blk_devs s" "blk_remap s2 = blk_remap s"
    "blk_cache s2 = Some (ls[v := (ls ! v)\<lparr>lbase := - 1\<rparr>])" by (simp_all add: s2)
  note upd = cache_upd_line [OF shape ls v sel(1,2,4) l(1)]
  note upd(1)
  moreover have "unat lba + n < 2 ^ 64" using req size by linarith
  ultimately have "simulates sect d (Rd lba n) s2 w1 (read_each drv d lba n s2 w1)"
    by (intro simulates_outcome read_each_outcome rd req)
  then show ?thesis using w1 sel(3) upd(2) [OF _ l(2)] by (rule simulates_from)
qed

lemma read_miss_filled:
  assumes ok: "drivers_ok drv sect d" and shape: "cache_shape d s"
    and want: "n \<le> want" "want \<le> 64" "unat lba + want \<le> unat (dsectors d)"
    and ls: "blk_cache s = Some ls" and v: "v < length ls"
    and raw: "blk_read_raw drv d (blk_remap_lookup lba s) want w = (Some bs, w1)"
    and data: "data = bs @ drop (want * 512) (ldata (ls ! v))"
    and s2: "blk_cur s2 = blk_cur s" "blk_devs s2 = blk_devs s" "blk_remap s2 = blk_remap s"
      "blk_cache s2 = Some (ls[v := \<lparr>lbase = lba, lcount = want, lused = clock, ldata = data\<rparr>])"
  shows "simulates sect d (Rd lba n) s w (Some (take (n * 512) data), s2, w1)"
proof -
  define l where "l = \<lparr>lbase = lba, lcount = want, lused = clock, ldata = data\<rparr>"
  have rd: "reads_ok drv sect d" and len: "\<And>w k. length (sect w d k) = 512" using ok by (simp_all add: drivers_ok_def)
  have w1: "sect w1 = sect w" and lbs: "length bs = want * 512" using raw_sect [OF rd raw] raw_data [OF rd raw] by auto
  have "line_shape d (ls ! v)" using shape ls v by (simp add: cache_shape_def)
  then have lshape: "line_shape d l" using want lbs by (auto simp: line_shape_def l_def data)
  note upd = cache_upd_line [OF shape ls v s2(1,2) s2(4) [folded l_def] lshape]
  have "line_true sect w d l \<and> take (n * 512) data = contents sect w d (unat lba) n" if "blk_remap s = []"
  proof -
    have "bs = contents sect w d (unat lba) want" using raw_data [OF rd raw] want(3) that by (simp add: remap_none)
    then show ?thesis
      using contents_slice [of sect w d 0 n want "unat lba"] len want(1) lbs by (simp add: line_true_def l_def data)
  qed
  then have "disk_step (sect w d) (Rd lba n) (Some (take (n * 512) data)) (sect w d) \<and> line_true sect w d l" if "blk_remap s = []"
    using read_ok [of "sect w d" lba n] that by (simp add: blocks_contents)
  with upd(1) upd(2) [of sect w] s2(3) w1 cache_true_cong [OF w1 refl, of d s2] show ?thesis by (auto simp: simulates_def)
qed

lemma read_miss_simulates:
  assumes ok: "drivers_ok drv sect d" and shape: "cache_shape d s" and req: "unat lba + n \<le> unat (dsectors d)" "n \<le> 64"
    and ls: "blk_cache s = Some ls"
  shows "\<exists>out. read_miss drv d lba n ls s w = Some out \<and> simulates sect d (Rd lba n) s w out"
proof -
  define v where "v = pick_victim 0 ls 0 (- 1)"
  define want where "want = read_want d lba n"
  have v: "v < length ls" using shape ls pick_victim_less [of 0 ls "length ls" 0 "- 1"] by (auto simp: v_def cache_shape_def)
  have rd: "reads_ok drv sect d" and want: "n \<le> want" "want \<le> 64" "unat lba + want \<le> unat (dsectors d)"
    using read_want_range [OF req] ok by (simp_all add: want_def drivers_ok_def)
  obtain r w1 where r: "blk_read_raw drv d (blk_remap_lookup lba s) want w = (r, w1)" by fastforce
  have lk: "blk_remap_lookup lba (s\<lparr>blk_cache_misses := m\<rparr>) = blk_remap_lookup lba s" for m by (simp add: blk_remap_lookup_def)
  note unf = read_miss_def Let_def v_def [symmetric] want_def [symmetric] lk
  show ?thesis
  proof (cases r)
    case None
    with r raw_sect [OF rd r] show ?thesis
      by (auto simp: unf intro!: read_miss_failed [OF ok shape req(1) ls v])
  next
    case (Some bs)
    define data where "data = bs @ drop (want * 512) (ldata (ls ! v))"
    have "length (ldata (ls ! v)) = 64 * 512" using shape ls v by (simp add: cache_shape_def line_shape_def)
    then have "want * 512 \<le> length (ldata (ls ! v))" "n * 512 \<le> length data"
      using want raw_data [OF rd r [unfolded Some]] by (auto simp: data_def)
    with r Some show ?thesis
      by (auto simp: unf data_def [symmetric] slice_def intro!: read_miss_filled [OF ok shape want ls v r [unfolded Some] data_def])
  qed
qed

section \<open>Operations\<close>

lemma refused_simulates:
  "cache_shape d s \<Longrightarrow> simulates sect d x s w (None, s, w)"
  by (cases x) (auto simp: simulates_def intro: read_err write_err)

lemma blk_read_simulates:
  assumes ok: "drivers_ok drv sect d" and shape: "cache_shape d s" and req: "unat lba + n < 2 ^ 64"
  shows "\<exists>out. blk_read drv lba n s w = Some out \<and> simulates sect d (Rd lba n) s w out"
proof -
  obtain c where c: "blk_cur s = Some c" "blk_devs s ! c = d" using shape by (auto simp: cache_shape_def)
  have rd: "reads_ok drv sect d" using ok by (simp add: drivers_ok_def)
  show ?thesis
  proof (cases "unat lba + n \<le> unat (dsectors d)")
    case False
    then have "lba + of_nat n > dsectors d" using in_range [OF req, of d] by blast
    then have "blk_read drv lba n s w = Some (None, s, w)" using c by (simp add: blk_read_def)
    with refused_simulates [OF shape, of sect "Rd lba n" w] show ?thesis by simp
  next
    case True
    have direct: "simulates sect d (Rd lba n) s w (read_direct drv d lba n s w)"
      by (rule simulates_outcome [OF read_direct_outcome [OF rd] shape True])
    have eq: "blk_read drv lba n s w = (case blk_cache s of None \<Rightarrow> Some (read_direct drv d lba n s w)
        | Some ls \<Rightarrow> if n > 64 then Some (read_direct drv d lba n s w)
            else (case find_line lba n 0 ls of Some i \<Rightarrow> map_option (\<lambda>(bs, s). (Some bs, s, w)) (read_hit lba n i ls s)
              | None \<Rightarrow> read_miss drv d lba n ls s w))"
      using c in_range [OF req, THEN iffD2, OF True] unfolding blk_read_def by (simp only: option.case Let_def if_False)
    show ?thesis
    proof (cases "\<exists>ls. blk_cache s = Some ls \<and> n \<le> 64")
      case False
      with direct show ?thesis unfolding eq by (cases "blk_cache s") auto
    next
      case cached: True
      then obtain ls where ls: "blk_cache s = Some ls" and n: "n \<le> 64" by blast
      show ?thesis
      proof (cases "find_line lba n 0 ls")
        case None
        with ls n read_miss_simulates [OF ok shape True n ls, of w] show ?thesis unfolding eq by simp
      next
        case hit: (Some i)
        then have i: "i < length ls" "line_holds lba n (ls ! i)" using find_line_Some [OF hit] by auto
        from read_hit_simulates [OF ok shape req ls i, of w] obtain bs s'
          where "read_hit lba n i ls s = Some (bs, s')" "simulates sect d (Rd lba n) s w (Some bs, s', w)" by blast
        with hit ls n show ?thesis unfolding eq by simp
      qed
    qed
  qed
qed

lemma drop_line_shape: "line_shape d l \<Longrightarrow> line_shape d (drop_line lba n l)"
  by (simp add: drop_line_def line_shape_def)

lemma drop_line_true:
  assumes l: "line_shape d l" "line_true sect w d l" and req: "unat lba + n < 2 ^ 64" and size: "unat (dsectors d) + 64 < 2 ^ 64"
    and same: "\<And>k. k < unat lba \<or> unat lba + n \<le> k \<Longrightarrow> sect w' d k = sect w d k"
  shows "line_true sect w' d (drop_line lba n l)"
proof (cases "lbase l = - 1 \<or> \<not> (lba + of_nat n \<le> lbase l \<or> lbase l + of_nat (lcount l) \<le> lba)")
  case True
  then show ?thesis by (auto simp: drop_line_def line_true_def)
next
  case False
  have "unat (lbase l) + lcount l \<le> unat (dsectors d)" using l(1) False by (simp add: line_shape_def)
  then have "unat (lbase l + of_nat (lcount l)) = unat (lbase l) + lcount l" using size by (intro unat_add_of_nat) linarith
  with False have "unat lba + n \<le> unat (lbase l) \<or> unat (lbase l) + lcount l \<le> unat lba"
    using unat_add_of_nat [OF req] by (auto simp: word_le_nat_alt)
  then have "contents sect w' d (unat (lbase l)) (lcount l) = contents sect w d (unat (lbase l)) (lcount l)"
    by (intro contents_cong same) auto
  with l(2) False show ?thesis by (auto simp: drop_line_def line_true_def)
qed

lemma blk_write_simulates:
  assumes ok: "drivers_ok drv sect d" and shape: "cache_shape d s" and req: "unat lba + n < 2 ^ 64" and buf: "length buf = n * 512"
  shows "simulates sect d (Wr lba n buf) s w (case blk_write drv lba n buf s w of (ok, s, w) \<Rightarrow> (if ok then Some [] else None, s, w))"
proof -
  obtain c where c: "blk_cur s = Some c" "blk_devs s ! c = d" using shape by (auto simp: cache_shape_def)
  show ?thesis
  proof (cases "unat lba + n \<le> unat (dsectors d)")
    case False
    with c in_range [OF req, of d] refused_simulates [OF shape] show ?thesis by (simp add: blk_write_def)
  next
    case True
    define s1 where "s1 = blk_cache_drop lba n s"
    obtain b w' where raw: "blk_write_raw drv d (blk_remap_lookup lba s1) n buf w = (b, w')" by fastforce
    have eq: "blk_write drv lba n buf s w = (b, s1, w')" using c in_range [OF req, of d] True raw by (simp add: blk_write_def s1_def)
    have size: "unat (dsectors d) + 64 < 2 ^ 64" and wr: "writes_ok drv sect d" using ok by (simp_all add: drivers_ok_def)
    have sel: "blk_cur s1 = blk_cur s" "blk_devs s1 = blk_devs s" "blk_remap s1 = blk_remap s"
      "blk_cache s1 = map_option (map (drop_line lba n)) (blk_cache s)"
      by (simp_all add: s1_def blk_cache_drop_def split: option.split)
    have shape1: "cache_shape d s1" using shape sel by (auto simp: cache_shape_def drop_line_shape)
    have "cache_true sect w' d s1 \<and> disk_step (sect w d) (Wr lba n buf) (if b then Some [] else None) (sect w' d)"
      if "blk_remap s = []" "cache_true sect w d s"
    proof -
      have same: "\<And>k. k < unat lba \<or> unat lba + n \<le> k \<Longrightarrow> sect w' d k = sect w d k" and data: "b \<longrightarrow> contents sect w' d (unat lba) n = buf"
        using wr raw buf True that(1) sel(3) remap_none [of s1 lba] by (auto simp: writes_ok_def)
      have "cache_true sect w' d s1"
        using that(2) shape sel(4) drop_line_true [where sect = sect and w = w and w' = w', OF _ _ req size same]
        by (auto simp: cache_true_def cache_shape_def)
      with same data show ?thesis by (auto intro: write_ok write_err simp: blocks_contents)
    qed
    with eq shape1 sel(3) show ?thesis by (simp add: simulates_def)
  qed
qed

lemma blk_do_simulates:
  assumes "drivers_ok drv sect d" "cache_shape d s" "valid_op x"
  shows "\<exists>out. blk_do drv x s w = Some out \<and> simulates sect d x s w out"
proof (cases x)
  case (Rd lba n)
  with assms blk_read_simulates [OF assms(1,2)] show ?thesis by simp
next
  case (Wr lba n buf)
  with assms blk_write_simulates [OF assms(1,2), of lba n buf w] show ?thesis by (auto split: prod.splits)
qed

lemma blk_run_simulates:
  assumes "drivers_ok drv sect d" "cache_shape d s" "list_all valid_op xs"
  shows "\<exists>rs s' w'. blk_run drv xs s w = Some (rs, s', w') \<and> cache_shape d s' \<and> (\<exists>ys. blk_remap s' = blk_remap s @ ys) \<and>
    (blk_remap s' = [] \<longrightarrow> cache_true sect w d s \<longrightarrow> cache_true sect w' d s' \<and> disk_run (sect w d) xs rs (sect w' d))"
  using assms(2,3)
proof (induction xs arbitrary: s w)
  case Nil
  then show ?case by (auto intro: run_nil)
next
  case (Cons x xs)
  from blk_do_simulates [OF assms(1) Cons.prems(1)] Cons.prems(2) obtain r s1 w1
    where x: "blk_do drv x s w = Some (r, s1, w1)" "simulates sect d x s w (r, s1, w1)" by force
  then have "cache_shape d s1" by (simp add: simulates_def)
  from Cons.IH [OF this, of w1] Cons.prems(2) obtain rs s2 w2 where xs: "blk_run drv xs s1 w1 = Some (rs, s2, w2)" "cache_shape d s2"
    "\<exists>ys. blk_remap s2 = blk_remap s1 @ ys"
    "blk_remap s2 = [] \<Longrightarrow> cache_true sect w1 d s1 \<Longrightarrow> cache_true sect w2 d s2 \<and> disk_run (sect w1 d) xs rs (sect w2 d)" by auto
  with x show ?case by (fastforce simp: simulates_def intro: run_cons)
qed


text \<open>A disk in memory, as an instance of what the drivers are relied on for: the state of the hardware gives the
  bytes of every sector.\<close>

definition ram_sect :: "(blk_kind \<Rightarrow> u8 \<Rightarrow> nat \<Rightarrow> u8 list) sectors" where
  "ram_sect w d k = take 512 (w (dkind d) (dunit d) k @ replicate 512 0)"

definition ram_write :: "blk_kind \<Rightarrow> u8 \<Rightarrow> u64 \<Rightarrow> nat \<Rightarrow> u8 list \<Rightarrow> (blk_kind \<Rightarrow> u8 \<Rightarrow> nat \<Rightarrow> u8 list) \<Rightarrow> bool \<times> (blk_kind \<Rightarrow> u8 \<Rightarrow> nat \<Rightarrow> u8 list)" where
  "ram_write kind u lba n buf w = (True, w(kind := (w kind)(u :=
     (\<lambda>k. if unat lba \<le> k \<and> k < unat lba + n then take 512 (drop ((k - unat lba) * 512) buf) else w kind u k))))"

definition ram_read :: "blk_kind \<Rightarrow> u8 \<Rightarrow> u64 \<Rightarrow> nat \<Rightarrow> (blk_kind \<Rightarrow> u8 \<Rightarrow> nat \<Rightarrow> u8 list) \<Rightarrow> u8 list option \<times> (blk_kind \<Rightarrow> u8 \<Rightarrow> nat \<Rightarrow> u8 list)" where
  "ram_read kind u lba n w =
    (Some (concat (map (\<lambda>k. take 512 (w kind u k @ replicate 512 0)) [unat lba..<unat lba + n])), w)"

definition ram_drv :: "(blk_kind \<Rightarrow> u8 \<Rightarrow> nat \<Rightarrow> u8 list) drivers" where
  "ram_drv = \<lparr>nvme_read = ram_read BLK_NVME, ahci_read = ram_read BLK_AHCI, ata_read = ram_read BLK_ATA 0,
     usbmsc_read = ram_read BLK_USB, nvme_write = ram_write BLK_NVME, ahci_write = ram_write BLK_AHCI,
     ata_write = ram_write BLK_ATA 0, usbmsc_write = ram_write BLK_USB, nvme_flush = (\<lambda>_ w. (True, w)),
     ahci_flush = (\<lambda>_ w. (True, w)), ata_flush = (\<lambda>w. (True, w))\<rparr>"

definition ram_disk :: "u8 \<Rightarrow> blk_dev_t" where
  "ram_disk u = \<lparr>dkind = BLK_NVME, dunit = u, dsectors = 8192, dbus = ''NVMe''\<rparr>"

lemma concat_sectors:
  "length buf = n * 512 \<Longrightarrow> concat (map (\<lambda>k. take 512 (drop ((k - a) * 512) buf)) [a..<a + n]) = buf"
proof (induction n arbitrary: buf)
  case (Suc n)
  let ?b = "take (n * 512) buf"
  have "concat (map (\<lambda>k. take 512 (drop ((k - a) * 512) ?b)) [a..<a + n]) = ?b" using Suc by simp
  moreover have "take 512 (drop ((k - a) * 512) ?b) = take 512 (drop ((k - a) * 512) buf)" if "k \<in> set [a..<a + n]" for k
  proof -
    have "k - a < n" using that by auto
    then have "(k - a) * 512 + 512 \<le> n * 512" by simp
    then show ?thesis by (simp add: drop_take min_def)
  qed
  ultimately have "concat (map (\<lambda>k. take 512 (drop ((k - a) * 512) buf)) [a..<a + n]) = ?b" by (metis (no_types, lifting) map_cong)
  moreover have "take 512 (drop (n * 512) buf) = drop (n * 512) buf" using Suc.prems by simp
  ultimately show ?case by simp
qed simp

lemma ram_ok: "drivers_ok ram_drv ram_sect (ram_disk u)"
proof -
  have "reads_ok ram_drv ram_sect (ram_disk u)"
  proof -
    have "length (contents ram_sect w (ram_disk u) a n) = n * 512" for w a n
      by (rule length_contents) (simp add: ram_sect_def)
    then show ?thesis
      by (simp add: reads_ok_def blk_read_raw_def ram_drv_def ram_read_def ram_disk_def contents_def ram_sect_def [abs_def])
  qed
  moreover have "writes_ok ram_drv ram_sect (ram_disk u)"
  proof -
    have "contents ram_sect w' (ram_disk u) (unat lba) n = buf"
      if "length buf = n * 512" "ram_write BLK_NVME u lba n buf w = (ok, w')" for lba n buf w ok w'
    proof -
      have "ram_sect w' (ram_disk u) k = take 512 (drop ((k - unat lba) * 512) buf)" if "k \<in> set [unat lba..<unat lba + n]" for k
      proof -
        have "(k - unat lba) * 512 + 512 \<le> length buf" using that \<open>length buf = n * 512\<close> by auto
        with that \<open>ram_write BLK_NVME u lba n buf w = (ok, w')\<close> show ?thesis by (auto simp: ram_sect_def ram_disk_def ram_write_def)
      qed
      then have "map (ram_sect w' (ram_disk u)) [unat lba..<unat lba + n] = map (\<lambda>k. take 512 (drop ((k - unat lba) * 512) buf)) [unat lba..<unat lba + n]"
        by (rule map_cong [OF refl])
      then show ?thesis unfolding contents_def by (simp only: concat_sectors [OF \<open>length buf = n * 512\<close>])
    qed
    moreover have "ram_sect w' (ram_disk u) k = ram_sect w (ram_disk u) k"
      if "ram_write BLK_NVME u lba n buf w = (ok, w')" "k < unat lba \<or> unat lba + n \<le> k" for lba n buf w ok w' k
      using that by (auto simp: ram_sect_def ram_disk_def ram_write_def)
    ultimately show ?thesis
      by (auto simp: writes_ok_def blk_write_raw_def ram_drv_def ram_disk_def)
  qed
  moreover have "length (ram_sect w (ram_disk u) k) = 512" for w k by (simp add: ram_sect_def)
  ultimately show ?thesis by (simp add: drivers_ok_def ram_disk_def)
qed

definition ram_boot :: blk where
  "ram_boot = blk_cache_init (Some (replicate 16 (replicate (64 * 512) 0)))
     (blk_init [8192, 8192] [] None []
       \<lparr>blk_devs = [], blk_cur = None, blk_remap = [], blk_spare_next = 0, blk_read_errors = 0, blk_cache = None,
        blk_cache_clock = 0, blk_cache_hits = 0, blk_cache_misses = 0, blk_readahead = 0\<rparr>)"

lemma ram_boot_ok: "cache_shape (ram_disk 0) ram_boot" "cache_true sect w (ram_disk 0) ram_boot"
  by (simp_all add: ram_boot_def blk_init_def blk_add_def blk_cache_init_def cache_shape_def cache_true_def
      line_shape_def line_true_def ram_disk_def Let_def)


section \<open>Another disk\<close>

text \<open>C39: a cached line does not say which disk it came from, and selecting another disk keeps the cache.  A read of
  sectors that a line of the previous disk covers is therefore answered with the previous disk's sectors.\<close>

theorem blk_select_stale:
  assumes ok: "drivers_ok drv sect d" and shape: "cache_shape d s" and true: "cache_true sect w d s"
    and ls: "blk_cache s = Some ls" "l \<in> set ls" "line_holds lba n l" and n: "n \<le> 64"
    and sel: "blk_select idx s = (True, s1)" and req: "unat lba + n \<le> unat (dsectors (blk_devs s1 ! nat idx))" "unat lba + n < 2 ^ 64"
  shows "\<exists>s2. blk_read drv lba n s1 w = Some (Some (contents sect w d (unat lba) n), s2, w)"
proof -
  have s1: "s1 = s\<lparr>blk_cur := Some (nat idx)\<rparr>" using sel by (auto simp: blk_select_def split: if_splits)
  have "find_line lba n i ls \<noteq> None" for i using ls(2,3) by (induction ls arbitrary: i) auto
  then obtain i where hit: "find_line lba n 0 ls = Some i" by fastforce
  then have i: "i < length ls" "line_holds lba n (ls ! i)" using find_line_Some [OF hit] by auto
  have l: "line_shape d (ls ! i)" "line_true sect w d (ls ! i)" "unat (dsectors d) + 64 < 2 ^ 64" "\<forall>k. length (sect w d k) = 512"
    using ok shape true ls(1) i(1) by (auto simp: cache_shape_def cache_true_def drivers_ok_def)
  then have "slice (unat ((lba - lbase (ls ! i)) * 512)) (n * 512) (ldata (ls ! i)) = Some (contents sect w d (unat lba) n)"
    using line_slice [OF i(2) l(1) req(2) l(3), of sect w] by blast
  then obtain s2 where "read_hit lba n i ls s1 = Some (contents sect w d (unat lba) n, s2)" by (simp add: read_hit_def Let_def)
  moreover have "\<not> lba + of_nat n > dsectors (blk_devs s1 ! nat idx)" using in_range [OF req(2), THEN iffD2, OF req(1)] .
  moreover
  have "blk_cur s1 = Some (nat idx)" "blk_cache s1 = Some ls" "\<not> n > 64" using ls(1) n by (simp_all add: s1)
  ultimately show ?thesis using hit unfolding blk_read_def by (simp only: option.case Let_def if_False option.map prod.case) blast
qed

text \<open>Two disks whose sectors differ in every byte: sector 5 of the first is in the cache, and the second is selected.\<close>

definition two_disks :: "blk_kind \<Rightarrow> u8 \<Rightarrow> nat \<Rightarrow> u8 list" where
  "two_disks kind u k = replicate 512 (if u = 0 then 3 else 4)"

definition one_line :: blk_line where
  "one_line = \<lparr>lbase = 5, lcount = 1, lused = 1, ldata = replicate 512 3 @ replicate (63 * 512) 0\<rparr>"

theorem blk_select_stale_witness:
  "\<exists>s1 s2. blk_select 1 (ram_boot\<lparr>blk_cache := Some [one_line]\<rparr>) = (True, s1) \<and> blk_devs s1 ! 1 = ram_disk 1 \<and>
     blk_read ram_drv 5 1 s1 two_disks = Some (Some (replicate 512 3), s2, two_disks) \<and>
     contents ram_sect two_disks (ram_disk 1) 5 1 = replicate 512 4"
proof -
  define s where "s = ram_boot\<lparr>blk_cache := Some [one_line]\<rparr>"
  have devs: "blk_devs s = [ram_disk 0, ram_disk 1]" "blk_cur s = Some 0"
    by (simp_all add: s_def ram_boot_def blk_init_def blk_add_def blk_cache_init_def ram_disk_def Let_def)
  then have sel: "blk_select 1 s = (True, s\<lparr>blk_cur := Some 1\<rparr>)" by (simp add: blk_select_def)
  have held: "contents ram_sect two_disks (ram_disk 0) 5 1 = replicate 512 3" "contents ram_sect two_disks (ram_disk 1) 5 1 = replicate 512 4"
    by (simp_all add: contents_def ram_sect_def two_disks_def ram_disk_def)
  have shape: "cache_shape (ram_disk 0) s"
    using devs by (simp add: cache_shape_def s_def one_line_def line_shape_def ram_disk_def)
  have true: "cache_true ram_sect two_disks (ram_disk 0) s"
    using held(1) by (simp add: cache_true_def s_def line_true_def one_line_def)
  have "blk_cache s = Some [one_line]" "one_line \<in> set [one_line]" "line_holds 5 1 one_line"
    by (simp_all add: s_def line_holds_def one_line_def)
  from blk_select_stale [OF ram_ok shape true this _ sel] devs held show ?thesis
    by (auto simp: s_def [symmetric] sel ram_disk_def)
qed

end
