(* ===== verification/Part.thy ===== *)
theory Part
  imports Blk_Cache
begin

text \<open>
  The partition tables (\<open>src/part.h\<close>): the MBR, the GPT with its header checksum, and the scan that fills
  the list the filesystems walk.  The messages on the serial port are left out.

  The scan reads through the block layer.  What it needs of it is the locale \<open>block_reader\<close>, which the
  block layer of \<open>Blk\<close> is shown to provide; the definitions take the read operation as an argument.
\<close>

section \<open>The table\<close>

record partition_t =
  pstart :: u64
  psectors :: u64
  mbr_type :: u8
  from_gpt :: bool
  bootable :: bool
  pname :: "u8 list"
  type_guid :: "u8 list"

text \<open>The length of the table is \<open>part_count\<close>; the two static buffers are part of the state.\<close>

record part =
  part_table :: "partition_t list"
  part_scheme :: nat
  part_sector :: "u8 list"
  part_entries :: "u8 list"

type_synonym 's reader = "u64 \<Rightarrow> nat \<Rightarrow> 's \<Rightarrow> (u8 list option \<times> 's) option"

definition GUID_EFI_SYSTEM :: "u8 list" where
  "GUID_EFI_SYSTEM = [0x28,0x73,0x2A,0xC1,0x1F,0xF8,0xD2,0x11,0xBA,0x4B,0x00,0xA0,0xC9,0x3E,0xC9,0x3B]"

definition GUID_MS_BASIC :: "u8 list" where
  "GUID_MS_BASIC = [0xA2,0xA0,0xD0,0xEB,0xE5,0xB9,0x33,0x44,0x87,0xC0,0x68,0xB6,0xB7,0x26,0x99,0xC7]"

definition GUID_LINUX_FS :: "u8 list" where
  "GUID_LINUX_FS = [0xAF,0x3D,0xC6,0x0F,0x83,0x84,0x72,0x47,0x8E,0x79,0x3D,0x69,0xD8,0x47,0x7D,0xE4]"

definition part_guid_eq :: "u8 list \<Rightarrow> u8 list \<Rightarrow> bool" where
  "part_guid_eq a b \<longleftrightarrow> list_all (\<lambda>i. a ! i = b ! i) [0..<16]"

definition part_type_name :: "partition_t \<Rightarrow> string" where
  "part_type_name p =
    (if \<not> from_gpt p then
       (if mbr_type p = 0x07 then ''exFAT/NTFS''
        else if mbr_type p = 0x0B \<or> mbr_type p = 0x0C then ''FAT32''
        else if mbr_type p = 0x83 then ''Linux''
        else if mbr_type p = 0xEE then ''GPT protective''
        else if mbr_type p = 0xEF then ''EFI system''
        else ''unknown'')
     else if part_guid_eq (type_guid p) GUID_EFI_SYSTEM then ''EFI system''
     else if part_guid_eq (type_guid p) GUID_MS_BASIC then ''basic data''
     else if part_guid_eq (type_guid p) GUID_LINUX_FS then ''Linux''
     else ''unrecognised type'')"

definition crc_bit :: "u32 \<Rightarrow> u32" where
  "crc_bit crc = drop_bit 1 crc XOR (0xEDB88320 AND - (crc AND 1))"

definition part_crc32 :: "u8 list \<Rightarrow> u32" where
  "part_crc32 p = NOT (foldl (\<lambda>crc b. (crc_bit ^^ 8) (crc XOR ucast b)) 0xFFFFFFFF p)"

definition part_add :: "u64 \<Rightarrow> u64 \<Rightarrow> part \<Rightarrow> (nat \<times> part) option" where
  "part_add start sectors t =
    (if length (part_table t) \<ge> 64 then None
     else Some (length (part_table t), t\<lparr>part_table := part_table t @
       [\<lparr>pstart = start, psectors = sectors, mbr_type = 0, from_gpt = False, bootable = False, pname = [],
         type_guid = replicate 16 0\<rparr>]\<rparr>))"

text \<open>A little-endian field of \<open>n\<close> bytes at an offset.\<close>

definition le_val :: "u8 list \<Rightarrow> nat" where
  "le_val bs = foldr (\<lambda>b v. unat b + 256 * v) bs 0"

definition le_field :: "nat \<Rightarrow> nat \<Rightarrow> u8 list \<Rightarrow> nat option" where
  "le_field off n bs = map_option le_val (slice off n bs)"

text \<open>The read of whole sectors into the front of a buffer; the outer option is a fault, the inner an error.\<close>

definition read_into :: "'s reader \<Rightarrow> u64 \<Rightarrow> nat \<Rightarrow> u8 list \<Rightarrow> 's \<Rightarrow> (u8 list option \<times> 's) option" where
  "read_into rd lba n buf s = do {
     (r, s) \<leftarrow> rd lba n s;
     case r of None \<Rightarrow> Some (None, s)
     | Some bs \<Rightarrow> if length bs > length buf then None else Some (Some (bs @ drop (length bs) buf), s) }"

section \<open>The GPT\<close>

text \<open>The name: UTF-16 units up to a zero, at most 36 of them, with a question mark for what is not ASCII.\<close>

fun gpt_name :: "u8 list \<Rightarrow> nat \<Rightarrow> nat \<Rightarrow> u8 list option" where
  "gpt_name bs off 0 = Some []"
| "gpt_name bs off (Suc k) = do {
     c \<leftarrow> le_field off 2 bs;
     if c = 0 then Some []
     else map_option ((#) (if c < 0x80 then of_nat c else 0x3F)) (gpt_name bs (off + 2) k) }"

definition gpt_entry :: "nat \<Rightarrow> nat \<Rightarrow> part \<Rightarrow> part option" where
  "gpt_entry entry_size i t =
    (if length (part_table t) \<ge> 64 then Some t
     else let off = i * entry_size; bs = part_entries t in do {
       guid \<leftarrow> slice off 16 bs;
       first \<leftarrow> le_field (off + 32) 8 bs;
       final \<leftarrow> le_field (off + 40) 8 bs;
       if list_all (\<lambda>b. b = 0) guid then Some t
       else if final < first then Some t
       else case part_add (of_nat first) (of_nat final - of_nat first + 1) t of
           None \<Rightarrow> Some t
         | Some (idx, t) \<Rightarrow> do {
             name \<leftarrow> gpt_name bs (off + 56) 36;
             Some (t\<lparr>part_table := (part_table t)[idx := (part_table t ! idx)\<lparr>from_gpt := True, type_guid := guid, pname := name\<rparr>]\<rparr>) } })"

partial_function (option) gpt_batches :: "'s reader \<Rightarrow> nat \<Rightarrow> nat \<Rightarrow> u64 \<Rightarrow> part \<Rightarrow> 's \<Rightarrow> (part \<times> 's) option" where
  "gpt_batches rd entry_size remaining lba t s =
    (if remaining = 0 \<or> length (part_table t) \<ge> 64 then Some (t, s)
     else let per_sector = 512 div entry_size;
              batch = (if remaining > per_sector * 8 then per_sector * 8 else remaining);
              secs = (batch + per_sector - 1) div per_sector;
              secs = (if secs > 8 then 8 else secs)
          in Option.bind (read_into rd lba secs (part_entries t) s) (\<lambda>(r, s).
               case r of None \<Rightarrow> Some (t, s)
               | Some bs \<Rightarrow>
                   Option.bind (ofold (gpt_entry entry_size) [0..<batch] (t\<lparr>part_entries := bs\<rparr>)) (\<lambda>t.
                     gpt_batches rd entry_size (remaining - batch) (lba + of_nat secs) t s)))"

definition gpt_signature :: "u8 list" where
  "gpt_signature = [0x45, 0x46, 0x49, 0x20, 0x50, 0x41, 0x52, 0x54]"

text \<open>
  The header: the place, number and size of the entries, or nothing when it is refused.  The checksum is taken
  with its own field cleared.
\<close>

definition gpt_header :: "u8 list \<Rightarrow> part \<Rightarrow> ((nat \<times> nat \<times> nat) option \<times> part) option" where
  "gpt_header h t = do {
     sig \<leftarrow> slice 0 8 h;
     header_size \<leftarrow> le_field 12 4 h;
     want \<leftarrow> le_field 16 4 h;
     entries_lba \<leftarrow> le_field 72 8 h;
     entry_count \<leftarrow> le_field 80 4 h;
     entry_size \<leftarrow> le_field 84 4 h;
     if sig \<noteq> gpt_signature then Some (None, t)
     else if header_size < 92 \<or> header_size > 512 then Some (None, t)
     else let t = t\<lparr>part_sector := take 16 h @ replicate 4 0 @ drop 20 h\<rparr> in do {
       covered \<leftarrow> slice 0 header_size (part_sector t);
       if part_crc32 covered \<noteq> of_nat want then Some (None, t)
       else if entry_size < 128 \<or> entry_size > 512 then Some (None, t)
       else if entry_count = 0 \<or> entry_count > 512 then Some (None, t)
       else Some (Some (entries_lba, entry_count, entry_size), t) } }"

definition part_scan_gpt :: "'s reader \<Rightarrow> part \<Rightarrow> 's \<Rightarrow> (nat \<times> part \<times> 's) option" where
  "part_scan_gpt rd t s = do {
     (r, s) \<leftarrow> read_into rd 1 1 (part_sector t) s;
     case r of None \<Rightarrow> Some (0, t, s)
     | Some h \<Rightarrow> do {
         (header, t) \<leftarrow> gpt_header h (t\<lparr>part_sector := h\<rparr>);
         case header of None \<Rightarrow> Some (0, t, s)
         | Some (entries_lba, entry_count, entry_size) \<Rightarrow> do {
             (t, s) \<leftarrow> gpt_batches rd entry_size entry_count (of_nat entries_lba) (t\<lparr>part_scheme := 2\<rparr>) s;
             Some (length (part_table t), t, s) } } }"

section \<open>The MBR\<close>

text \<open>The four entries in turn; the result is \<open>Inl ()\<close> for the protective entry, or the number found.\<close>

fun mbr_entries :: "nat list \<Rightarrow> nat \<Rightarrow> part \<Rightarrow> ((unit + nat) \<times> part) option" where
  "mbr_entries [] found t = Some (Inr found, t)"
| "mbr_entries (i # is) found t = do {
     let off = 446 + i * 16;
     status \<leftarrow> aget (part_sector t) off;
     type \<leftarrow> aget (part_sector t) (off + 4);
     start \<leftarrow> le_field (off + 8) 4 (part_sector t);
     count \<leftarrow> le_field (off + 12) 4 (part_sector t);
     if type = 0 \<or> count = 0 then mbr_entries is found t
     else if type = 0xEE then Some (Inl (), t)
     else case part_add (of_nat start) (of_nat count) t of
         None \<Rightarrow> Some (Inr found, t)
       | Some (idx, t) \<Rightarrow>
           mbr_entries is (found + 1)
             (t\<lparr>part_table := (part_table t)[idx := (part_table t ! idx)\<lparr>mbr_type := type, bootable := status AND 0x80 \<noteq> 0\<rparr>]\<rparr>) }"

definition part_scan_mbr :: "'s reader \<Rightarrow> part \<Rightarrow> 's \<Rightarrow> ((unit + nat) \<times> part \<times> 's) option" where
  "part_scan_mbr rd t s = do {
     (r, s) \<leftarrow> read_into rd 0 1 (part_sector t) s;
     case r of None \<Rightarrow> Some (Inr 0, t, s)
     | Some bs \<Rightarrow> let t = t\<lparr>part_sector := bs\<rparr> in do {
         m0 \<leftarrow> aget bs 510;
         m1 \<leftarrow> aget bs 511;
         if m0 \<noteq> 0x55 \<or> m1 \<noteq> 0xAA then Some (Inr 0, t, s)
         else do {
           (res, t) \<leftarrow> mbr_entries [0..<4] 0 t;
           Some (res, (case res of Inr found \<Rightarrow> if found \<noteq> 0 then t\<lparr>part_scheme := 1\<rparr> else t | Inl _ \<Rightarrow> t), s) } } }"

definition part_scan :: "'s reader \<Rightarrow> ('s \<Rightarrow> bool) \<Rightarrow> part \<Rightarrow> 's \<Rightarrow> (part \<times> 's) option" where
  "part_scan rd present t s =
    (let t = t\<lparr>part_table := [], part_scheme := 0\<rparr> in
     if \<not> present s then Some (t, s)
     else do {
       (mbr, t, s) \<leftarrow> part_scan_mbr rd t s;
       case mbr of
         Inl _ \<Rightarrow> map_option snd (part_scan_gpt rd (t\<lparr>part_table := []\<rparr>) s)
       | Inr n \<Rightarrow> if n = 0 then map_option snd (part_scan_gpt rd t s) else Some (t, s) })"

section \<open>What the scan needs of the block layer\<close>

text \<open>The disk without a cache, as a reader: sectors \<open>disk\<close>, and the number of them.\<close>

definition plain_rd :: "(nat \<Rightarrow> u8 list) \<Rightarrow> nat \<Rightarrow> unit reader" where
  "plain_rd disk sz lba n u =
    Some (if unat lba + n \<le> sz then Some (blocks disk (unat lba) n) else None, u)"

locale block_reader =
  fixes rd :: "'s reader" and good :: "'s \<Rightarrow> bool" and disk :: "nat \<Rightarrow> u8 list" and sz :: nat
  assumes sector_length: "length (disk k) = 512"
    and rd_sectors: "good s \<Longrightarrow> unat lba + n < 2 ^ 64 \<Longrightarrow>
      \<exists>s'. rd lba n s = Some (if unat lba + n \<le> sz then Some (blocks disk (unat lba) n) else None, s') \<and> good s'"

definition buffers_ok :: "part \<Rightarrow> bool" where
  "buffers_ok t \<longleftrightarrow> length (part_sector t) = 512 \<and> length (part_entries t) = 4096"

definition entry_ok :: "partition_t \<Rightarrow> bool" where
  "entry_ok p \<longleftrightarrow> length (type_guid p) = 16 \<and> length (pname p) \<le> 36 \<and> 0 \<notin> set (pname p)"

definition table_ok :: "part \<Rightarrow> bool" where
  "table_ok t \<longleftrightarrow> buffers_ok t \<and> length (part_table t) \<le> 64 \<and> list_all entry_ok (part_table t)"

lemma length_blocks: "(\<And>k. length (disk k) = 512) \<Longrightarrow> length (blocks disk a n) = n * 512"
  by (induction n) (simp_all add: blocks_def)

lemma slice_in: "off + n \<le> length xs \<Longrightarrow> slice off n xs = Some (take n (drop off xs))"
  by (simp add: slice_def)

lemma le_field_in: "off + n \<le> length xs \<Longrightarrow> \<exists>v. le_field off n xs = Some v"
  by (simp add: le_field_def slice_in)

text \<open>The fields of a header and of an entry lie in their buffers, so the steps below never fault.\<close>

lemma gpt_name_ok: "off + 2 * k \<le> length bs \<Longrightarrow> \<exists>name. gpt_name bs off k = Some name \<and> length name \<le> k \<and> 0 \<notin> set name"
proof (induction k arbitrary: off)
  case (Suc k)
  then obtain c where c: "le_field off 2 bs = Some c" using le_field_in [of off 2 bs] by auto
  from Suc.IH [of "off + 2"] Suc.prems obtain name where "gpt_name bs (off + 2) k = Some name" "length name \<le> k" "0 \<notin> set name" by auto
  moreover have "(of_nat c :: u8) \<noteq> 0" if "c \<noteq> 0" "c < 0x80" using that by (simp add: word_of_nat_eq_0_iff nat_dvd_not_less)
  ultimately show ?case using c by auto
qed simp

lemma table_ok_add:
  assumes "table_ok t" "part_add a n t = Some (idx, t')" "entry_ok (f (part_table t' ! idx))"
  shows "table_ok (t'\<lparr>part_table := (part_table t')[idx := f (part_table t' ! idx)]\<rparr>)"
  using assms by (auto simp: part_add_def table_ok_def buffers_ok_def list_update_append split: if_splits)

lemma part_add_new: "part_add a n t = Some (idx, t') \<Longrightarrow>
  part_table t' ! idx = \<lparr>pstart = a, psectors = n, mbr_type = 0, from_gpt = False, bootable = False, pname = [], type_guid = replicate 16 0\<rparr> \<and>
  part_sector t' = part_sector t \<and> part_entries t' = part_entries t"
  by (auto simp: part_add_def split: if_splits)

lemma gpt_entry_ok:
  assumes t: "table_ok t" and off: "i * entry_size + 128 \<le> 4096"
  shows "\<exists>t'. gpt_entry entry_size i t = Some t' \<and> table_ok t'"
proof -
  let ?off = "i * entry_size" and ?bs = "part_entries t"
  have len: "length ?bs = 4096" using t by (simp add: table_ok_def buffers_ok_def)
  obtain first final where ff: "le_field (?off + 32) 8 ?bs = Some first" "le_field (?off + 40) 8 ?bs = Some final"
    using le_field_in [of "?off + 32" 8 ?bs] le_field_in [of "?off + 40" 8 ?bs] off len by auto
  obtain guid where guid: "slice ?off 16 ?bs = Some guid" "length guid = 16" using off len by (simp add: slice_def)
  obtain name where name: "gpt_name ?bs (?off + 56) 36 = Some name" "length name \<le> 36" "0 \<notin> set name"
    using gpt_name_ok [of "?off + 56" 36 ?bs] off len by auto
  show ?thesis
  proof (cases "part_add (of_nat first) (of_nat final - of_nat first + 1) t")
    case None
    with t ff guid name show ?thesis by (auto simp: gpt_entry_def Let_def)
  next
    case (Some x)
    obtain idx t1 where x: "x = (idx, t1)" by fastforce
    with Some have add: "part_add (of_nat first) (of_nat final - of_nat first + 1) t = Some (idx, t1)" by simp
    have "table_ok (t1\<lparr>part_table := (part_table t1)[idx := (part_table t1 ! idx)\<lparr>from_gpt := True, type_guid := guid, pname := name\<rparr>]\<rparr>)"
      using guid name by (intro table_ok_add [OF t add]) (simp add: entry_ok_def)
    with add t ff guid name show ?thesis by (auto simp: gpt_entry_def Let_def)
  qed
qed

lemma entry_offset:
  fixes i n es :: nat
  assumes "i < n" "n \<le> 512 div es * 8" "128 \<le> es"
  shows "i * es + 128 \<le> 4096"
proof -
  have "Suc i * es \<le> n * es" using assms(1) by (intro mult_le_mono1) simp
  moreover have "n * es \<le> 512 div es * 8 * es" by (intro mult_le_mono1 assms(2))
  moreover have "512 div es * 8 * es = 512 div es * es * 8" by (simp only: mult.assoc mult.commute mult.left_commute)
  moreover have "512 div es * es * 8 \<le> 512 * 8" by (intro mult_le_mono1 div_times_less_eq_dividend)
  ultimately have "i * es + es \<le> 4096" by (simp only: mult_Suc)
  with assms(3) show ?thesis by linarith
qed

lemma mbr_entries_ok:
  assumes "table_ok t" "list_all (\<lambda>i. i < 4) is"
  shows "\<exists>res t'. mbr_entries is found t = Some (res, t') \<and> table_ok t'"
  using assms
proof (induction "is" arbitrary: found t)
  case (Cons i js)
  let ?off = "446 + i * 16" and ?bs = "part_sector t"
  have len: "?off + 16 \<le> length ?bs" using Cons.prems by (simp add: table_ok_def buffers_ok_def)
  then obtain start count where f: "le_field (?off + 8) 4 ?bs = Some start" "le_field (?off + 12) 4 ?bs = Some count"
    using le_field_in [of "?off + 8" 4 ?bs] le_field_in [of "?off + 12" 4 ?bs] by auto
  have skip: "\<exists>res t'. mbr_entries js found t = Some (res, t') \<and> table_ok t'" for found using Cons by simp
  show ?case
  proof (cases "part_add (of_nat start) (of_nat count) t")
    case None
    with f len skip Cons.prems show ?thesis by (auto simp: Let_def)
  next
    case (Some x)
    obtain idx t1 where x: "x = (idx, t1)" by fastforce
    with Some have add: "part_add (of_nat start) (of_nat count) t = Some (idx, t1)" by simp
    have "table_ok (t1\<lparr>part_table := (part_table t1)[idx := (part_table t1 ! idx)\<lparr>mbr_type := ty, bootable := bt\<rparr>]\<rparr>)" for ty bt
      using part_add_new [OF add] by (intro table_ok_add [OF Cons.prems(1) add]) (simp add: entry_ok_def)
    then have "\<exists>res t'. mbr_entries js found (t1\<lparr>part_table := (part_table t1)[idx := (part_table t1 ! idx)\<lparr>mbr_type := ty, bootable := bt\<rparr>]\<rparr>) = Some (res, t') \<and> table_ok t'" for found ty bt
      using Cons.IH Cons.prems(2) by simp
    with f len skip add Cons.prems show ?thesis by (auto simp: Let_def)
  qed
qed simp

section \<open>The scan\<close>

text \<open>The header's place of the entries is not at the very end of the 64-bit range, where sums of sector numbers wrap.\<close>

definition sane_gpt :: "(nat \<Rightarrow> u8 list) \<Rightarrow> bool" where
  "sane_gpt disk \<longleftrightarrow> le_val (take 8 (drop 72 (disk 1))) + 512 < 2 ^ 64"

text \<open>A batch has at most eight sectors, and no more sectors than entries.\<close>

lemma batch_sectors:
  fixes b p :: nat
  assumes "1 \<le> p" "0 < b" "b \<le> p * 8"
  shows "(b + p - 1) div p \<le> 8" and "(b + p - 1) div p \<le> b"
proof -
  obtain b' p' where bp: "b = Suc b'" "p = Suc p'" using assms by (metis One_nat_def Suc_le_D not0_implies_Suc less_numeral_extra(3))
  have "b + p - 1 \<le> b * p" by (simp add: bp)
  then have "(b + p - 1) div p \<le> b * p div p" by (rule div_le_mono)
  then show "(b + p - 1) div p \<le> b" using assms(1) by simp
  have "b + p - 1 \<le> (p - 1) + p * 8" using assms by linarith
  then have "(b + p - 1) div p \<le> ((p - 1) + p * 8) div p" by (rule div_le_mono)
  also have "((p - 1) + p * 8) div p = 8 + (p - 1) div p" using assms(1) by (intro div_mult_self2) simp
  also have "\<dots> = 8" using assms(1) by simp
  finally show "(b + p - 1) div p \<le> 8" .
qed

text \<open>Two readers of the same disk give the scan the same answers: here \<open>rd\<close> and the plain reader.\<close>

lemma gpt_header_ok:
  assumes h: "length h = 512" and t: "table_ok t"
  shows "\<exists>header t'. gpt_header h t = Some (header, t') \<and> table_ok t' \<and>
    (\<forall>a cnt es. header = Some (a, cnt, es) \<longrightarrow> a = le_val (take 8 (drop 72 h)) \<and> cnt \<le> 512 \<and> 128 \<le> es \<and> es \<le> 512)"
proof -
  have "table_ok (t\<lparr>part_sector := take 16 h @ replicate 4 0 @ drop 20 h\<rparr>)" using t h by (simp add: table_ok_def buffers_ok_def)
  with h t show ?thesis by (auto simp: gpt_header_def le_field_def slice_in Let_def)
qed

context block_reader
begin

abbreviation "plain \<equiv> plain_rd disk sz"

lemma read_into_same:
  assumes "n * 512 \<le> length buf" "unat lba + n < 2 ^ 64"
  shows "\<exists>r. read_into plain lba n buf () = Some (r, ()) \<and> (\<forall>bs. r = Some bs \<longrightarrow> length bs = length buf \<and> take (n * 512) bs = blocks disk (unat lba) n) \<and>
    (\<forall>s. good s \<longrightarrow> (\<exists>s'. read_into rd lba n buf s = Some (r, s') \<and> good s'))"
proof -
  have len: "length (blocks disk (unat lba) n) = n * 512" by (rule length_blocks) (rule sector_length)
  define r where "r = (if unat lba + n \<le> sz then Some (blocks disk (unat lba) n @ drop (n * 512) buf) else None)"
  have "read_into plain lba n buf () = Some (r, ())" using assms(1) len by (simp add: read_into_def plain_rd_def r_def)
  moreover have "\<exists>s'. read_into rd lba n buf s = Some (r, s') \<and> good s'" if "good s" for s
    using rd_sectors [OF that assms(2)] assms(1) len by (auto simp: read_into_def r_def split: if_splits)
  ultimately show ?thesis using assms(1) len by (auto simp: r_def)
qed

lemma gpt_batches_same:
  assumes "table_ok t" "128 \<le> es" "es \<le> 512" "unat lba + m < 2 ^ 64"
  shows "\<exists>t'. gpt_batches plain es m lba t () = Some (t', ()) \<and> table_ok t' \<and>
    (\<forall>s. good s \<longrightarrow> (\<exists>s'. gpt_batches rd es m lba t s = Some (t', s') \<and> good s'))"
  using assms(1,4)
proof (induction m arbitrary: lba t rule: less_induct)
  case (less m)
  show ?case
  proof (cases "m = 0 \<or> length (part_table t) \<ge> 64")
    case True
    with less.prems show ?thesis by (subst (1 2) gpt_batches.simps) auto
  next
    case False
    define per where "per = 512 div es"
    define batch where "batch = (if m > per * 8 then per * 8 else m)"
    define secs where "secs = (batch + per - 1) div per"
    have per: "1 \<le> per" using assms(2,3) by (simp add: per_def div_greater_zero_iff Suc_le_eq)
    have b: "0 < batch" "batch \<le> m" "batch \<le> per * 8" using per False by (auto simp: batch_def)
    have secs: "secs \<le> 8" "secs \<le> batch" using batch_sectors [OF per b(1,3)] by (simp_all add: secs_def)
    have buf: "secs * 512 \<le> length (part_entries t)" using less.prems(1) secs by (simp add: table_ok_def buffers_ok_def)
    have lba: "unat lba + secs < 2 ^ 64" "unat (lba + of_nat secs) = unat lba + secs"
      using less.prems(2) secs b unat_add_of_nat [of lba secs] by auto
    have step: "gpt_batches f es m lba t s = Option.bind (read_into f lba secs (part_entries t) s) (\<lambda>(r, s).
        case r of None \<Rightarrow> Some (t, s)
        | Some bs \<Rightarrow> Option.bind (ofold (gpt_entry es) [0..<batch] (t\<lparr>part_entries := bs\<rparr>)) (\<lambda>t.
            gpt_batches f es (m - batch) (lba + of_nat secs) t s))" for f :: "'x reader" and s
    proof -
      have "(m = 0 \<or> length (part_table t) \<ge> 64) = False" "(secs > 8) = False" using False secs(1) by auto
      then show ?thesis
        by (subst gpt_batches.simps) (simp only: Let_def per_def [symmetric] batch_def [symmetric] secs_def [symmetric] if_False)
    qed
    obtain r where r: "read_into plain lba secs (part_entries t) () = Some (r, ())"
      "\<And>bs. r = Some bs \<Longrightarrow> length bs = length (part_entries t)"
      "\<And>s. good s \<Longrightarrow> \<exists>s'. read_into rd lba secs (part_entries t) s = Some (r, s') \<and> good s'"
      using read_into_same [OF buf lba(1)] by blast
    show ?thesis
    proof (cases r)
      case None
      with r less.prems(1) show ?thesis unfolding step by fastforce
    next
      case (Some bs)
      have "table_ok (t\<lparr>part_entries := bs\<rparr>)" using less.prems(1) r(2) [OF Some] by (simp add: table_ok_def buffers_ok_def)
      then have "\<exists>t'. ofold (gpt_entry es) [0..<batch] (t\<lparr>part_entries := bs\<rparr>) = Some t' \<and> table_ok t'"
        using entry_offset [OF _ b(3) [unfolded per_def] assms(2)] by (intro ofold_total) (auto intro: gpt_entry_ok)
      then obtain t1 where t1: "ofold (gpt_entry es) [0..<batch] (t\<lparr>part_entries := bs\<rparr>) = Some t1" "table_ok t1" by blast
      have "\<exists>t'. gpt_batches plain es (m - batch) (lba + of_nat secs) t1 () = Some (t', ()) \<and> table_ok t' \<and>
          (\<forall>s. good s \<longrightarrow> (\<exists>s'. gpt_batches rd es (m - batch) (lba + of_nat secs) t1 s = Some (t', s') \<and> good s'))"
        using b secs lba less.prems(2) by (intro less.IH t1(2)) auto
      with r Some t1(1) show ?thesis unfolding step by fastforce
    qed
  qed
qed

lemma part_scan_gpt_same:
  assumes t: "table_ok t" and sane: "sane_gpt disk"
  shows "\<exists>n t'. part_scan_gpt plain t () = Some (n, t', ()) \<and> table_ok t' \<and>
    (\<forall>s. good s \<longrightarrow> (\<exists>s'. part_scan_gpt rd t s = Some (n, t', s') \<and> good s'))"
proof -
  have len: "length (part_sector t) = 512" using t by (simp add: table_ok_def buffers_ok_def)
  obtain r where r: "read_into plain 1 1 (part_sector t) () = Some (r, ())"
    "\<And>bs. r = Some bs \<Longrightarrow> length bs = 512 \<and> take 512 bs = blocks disk 1 1"
    "\<And>s. good s \<Longrightarrow> \<exists>s'. read_into rd 1 1 (part_sector t) s = Some (r, s') \<and> good s'"
    using read_into_same [of 1 "part_sector t" 1] len by auto
  show ?thesis
  proof (cases r)
    case None
    with r t show ?thesis by (fastforce simp: part_scan_gpt_def)
  next
    case (Some h)
    then have h: "length h = 512" "h = disk 1" using r(2) by (auto simp: blocks_def)
    have "table_ok (t\<lparr>part_sector := h\<rparr>)" using t h(1) by (simp add: table_ok_def buffers_ok_def)
    from gpt_header_ok [OF h(1) this] obtain hd t1 where hd: "gpt_header h (t\<lparr>part_sector := h\<rparr>) = Some (hd, t1)" "table_ok t1"
      "\<And>a cnt es. hd = Some (a, cnt, es) \<Longrightarrow> a = le_val (take 8 (drop 72 h)) \<and> cnt \<le> 512 \<and> 128 \<le> es \<and> es \<le> 512" by blast
    show ?thesis
    proof (cases hd)
      case None
      with r Some hd show ?thesis by (fastforce simp: part_scan_gpt_def)
    next
      case header: (Some x)
      obtain a cnt es where x: "hd = Some (a, cnt, es)" using header by (metis prod_cases3)
      note fields = hd(3) [OF x]
      have "a + 512 < 2 ^ 64" using fields sane h(2) by (simp add: sane_gpt_def)
      then have "unat (of_nat a :: u64) + cnt < 2 ^ 64" using fields by (simp add: unat_of_nat)
      moreover have "table_ok (t1\<lparr>part_scheme := 2\<rparr>)" using hd(2) by (simp add: table_ok_def buffers_ok_def)
      ultimately have "\<exists>t'. gpt_batches plain es cnt (of_nat a) (t1\<lparr>part_scheme := 2\<rparr>) () = Some (t', ()) \<and> table_ok t' \<and>
          (\<forall>s. good s \<longrightarrow> (\<exists>s'. gpt_batches rd es cnt (of_nat a) (t1\<lparr>part_scheme := 2\<rparr>) s = Some (t', s') \<and> good s'))"
        using fields by (intro gpt_batches_same) auto
      with r Some hd(1) x show ?thesis by (fastforce simp: part_scan_gpt_def)
    qed
  qed
qed

lemma part_scan_mbr_same:
  assumes t: "table_ok t"
  shows "\<exists>res t'. part_scan_mbr plain t () = Some (res, t', ()) \<and> table_ok t' \<and>
    (\<forall>s. good s \<longrightarrow> (\<exists>s'. part_scan_mbr rd t s = Some (res, t', s') \<and> good s'))"
proof -
  have len: "length (part_sector t) = 512" using t by (simp add: table_ok_def buffers_ok_def)
  obtain r where r: "read_into plain 0 1 (part_sector t) () = Some (r, ())"
    "\<And>bs. r = Some bs \<Longrightarrow> length bs = 512"
    "\<And>s. good s \<Longrightarrow> \<exists>s'. read_into rd 0 1 (part_sector t) s = Some (r, s') \<and> good s'"
    using read_into_same [of 1 "part_sector t" 0] len by auto
  show ?thesis
  proof (cases r)
    case None
    with r t show ?thesis by (fastforce simp: part_scan_mbr_def)
  next
    case (Some bs)
    have t1: "table_ok (t\<lparr>part_sector := bs\<rparr>)" using t r(2) [OF Some] by (simp add: table_ok_def buffers_ok_def)
    obtain res t2 where m: "mbr_entries [0..<4] 0 (t\<lparr>part_sector := bs\<rparr>) = Some (res, t2)" "table_ok t2"
      using mbr_entries_ok [OF t1, of "[0..<4]" 0] by (auto simp: list_all_iff)
    have t3: "table_ok (case res of Inr found \<Rightarrow> if found \<noteq> 0 then t2\<lparr>part_scheme := 1\<rparr> else t2 | Inl _ \<Rightarrow> t2)"
      using m(2) by (auto simp: table_ok_def buffers_ok_def split: sum.split)
    show ?thesis
    proof (cases "bs ! 510 \<noteq> 0x55 \<or> bs ! 511 \<noteq> 0xAA")
      case True
      with r Some t1 show ?thesis by (fastforce simp: part_scan_mbr_def)
    next
      case False
      with r Some t3 m(1) r(2) [OF Some] show ?thesis by (fastforce simp: part_scan_mbr_def Let_def)
    qed
  qed
qed

lemma part_scan_same:
  assumes t: "buffers_ok t" and sane: "sane_gpt disk" and present: "\<And>s. good s \<Longrightarrow> present s"
  shows "\<exists>t'. part_scan plain (\<lambda>_. True) t () = Some (t', ()) \<and> table_ok t' \<and>
    (\<forall>s. good s \<longrightarrow> (\<exists>s'. part_scan rd present t s = Some (t', s') \<and> good s'))"
proof -
  let ?t = "t\<lparr>part_table := [], part_scheme := 0\<rparr>"
  have "table_ok ?t" using t by (simp add: table_ok_def buffers_ok_def)
  from part_scan_mbr_same [OF this] obtain res t1 where m: "part_scan_mbr plain ?t () = Some (res, t1, ())" "table_ok t1"
    "\<And>s. good s \<Longrightarrow> \<exists>s'. part_scan_mbr rd ?t s = Some (res, t1, s') \<and> good s'" by blast
  define t2 where "t2 = (case res of Inl _ \<Rightarrow> t1\<lparr>part_table := []\<rparr> | Inr n \<Rightarrow> t1)"
  have t2: "table_ok t2" using m(2) by (auto simp: t2_def table_ok_def buffers_ok_def split: sum.split)
  from part_scan_gpt_same [OF t2 sane] obtain n t3 where g: "part_scan_gpt plain t2 () = Some (n, t3, ())" "table_ok t3"
    "\<And>s. good s \<Longrightarrow> \<exists>s'. part_scan_gpt rd t2 s = Some (n, t3, s') \<and> good s'" by blast
  have eq: "part_scan f p t s = (if \<not> p s then Some (?t, s) else Option.bind (part_scan_mbr f ?t s) (\<lambda>(res, t1, s).
      case res of Inl _ \<Rightarrow> map_option snd (part_scan_gpt f (t1\<lparr>part_table := []\<rparr>) s)
      | Inr n \<Rightarrow> if n = 0 then map_option snd (part_scan_gpt f t1 s) else Some (t1, s)))" for f :: "'x reader" and p s
    by (simp add: part_scan_def Let_def)
  show ?thesis
  proof (cases "\<exists>n. res = Inr n \<and> n \<noteq> 0")
    case True
    with m present show ?thesis unfolding eq by fastforce
  next
    case False
    then have sel: "(case res of Inl _ \<Rightarrow> map_option snd (part_scan_gpt f (t1\<lparr>part_table := []\<rparr>) s)
      | Inr n \<Rightarrow> if n = 0 then map_option snd (part_scan_gpt f t1 s) else Some (t1, s)) = map_option snd (part_scan_gpt f t2 s)" for f :: "'x reader" and s
      by (auto simp: t2_def split: sum.split)
    have "part_scan plain (\<lambda>_. True) t () = Some (t3, ())" using m(1) g(1) by (simp add: eq sel)
    moreover have "\<exists>s'. part_scan rd present t s = Some (t3, s') \<and> good s'" if s: "good s" for s
    proof -
      obtain s1 where s1: "part_scan_mbr rd ?t s = Some (res, t1, s1)" "good s1" using m(3) [OF s] by blast
      obtain s2 where s2: "part_scan_gpt rd t2 s1 = Some (n, t3, s2)" "good s2" using g(3) [OF s1(2)] by blast
      show ?thesis using s1 s2 present [OF s] by (simp add: eq sel)
    qed
    ultimately show ?thesis using g(2) by blast
  qed
qed

end


section \<open>The block layer is such a reader\<close>

definition blk_rd :: "'w drivers \<Rightarrow> (blk \<times> 'w) reader" where
  "blk_rd drv lba n = (\<lambda>(s, w). map_option (\<lambda>(r, s, w). (r, (s, w))) (blk_read drv lba n s w))"

definition blk_good :: "'w sectors \<Rightarrow> blk_dev_t \<Rightarrow> 'w \<Rightarrow> blk \<times> 'w \<Rightarrow> bool" where
  "blk_good sect d w0 = (\<lambda>(s, w). cache_shape d s \<and> cache_true sect w d s \<and> blk_remap s = [] \<and> sect w d = sect w0 d)"

definition reliable :: "'w drivers \<Rightarrow> blk_dev_t \<Rightarrow> bool" where
  "reliable drv d \<longleftrightarrow> (\<forall>lba n w. unat lba + n \<le> unat (dsectors d) \<longrightarrow> fst (blk_read_raw drv d lba n w) \<noteq> None)"

lemma reliable_read:
  "reliable drv d \<Longrightarrow> unat lba + n \<le> unat (dsectors d) \<Longrightarrow> \<exists>bs w'. blk_read_raw drv d lba n w = (Some bs, w')"
  unfolding reliable_def by (metis option.exhaust prod.collapse)

text \<open>On a disk that answers, a read in range succeeds and retires nothing.\<close>

lemma blk_read_reliable:
  assumes rel: "reliable drv d" and c: "blk_cur s = Some c" "blk_devs s ! c = d" and remap: "blk_remap s = []"
    and req: "unat lba + n \<le> unat (dsectors d)" and size: "unat (dsectors d) + 64 < 2 ^ 64"
    and out: "blk_read drv lba n s w = Some (r, s', w')"
  shows "r \<noteq> None \<and> blk_remap s' = []"
proof -
  have wrap: "unat lba + n < 2 ^ 64" using req size by linarith
  have direct: "\<exists>bs w'. read_direct drv d lba n s w = (Some bs, s, w')"
    using reliable_read [OF rel req, of w] remap by (auto simp: read_direct_def remap_none)
  have hit: "read_hit lba n i ls s = Some (bs, t) \<Longrightarrow> blk_remap t = blk_remap s" for i ls bs t
    by (auto simp: read_hit_def Let_def bind_eq_Some_conv)
  have miss: "read_miss drv d lba n ls s w = Some (r, s', w') \<Longrightarrow> n \<le> 64 \<Longrightarrow> r \<noteq> None \<and> blk_remap s' = []" for ls
    using reliable_read [OF rel read_want_range(3) [OF req _ size], of w] remap
    by (auto simp: read_miss_def Let_def remap_none bind_eq_Some_conv split: if_splits)
  have eq: "blk_read drv lba n s w = (case blk_cache s of None \<Rightarrow> Some (read_direct drv d lba n s w)
      | Some ls \<Rightarrow> if n > 64 then Some (read_direct drv d lba n s w)
          else (case find_line lba n 0 ls of Some i \<Rightarrow> map_option (\<lambda>(bs, s). (Some bs, s, w)) (read_hit lba n i ls s)
            | None \<Rightarrow> read_miss drv d lba n ls s w))"
    using c in_range [OF wrap, THEN iffD2, OF req] unfolding blk_read_def by (simp only: option.case Let_def if_False)
  show ?thesis using out remap direct hit miss unfolding eq
    by (auto split: option.splits if_splits)
qed

inductive_cases disk_read: "disk_step disk (Rd lba n) r disk'"

locale reliable_disk =
  fixes drv :: "'w drivers" and sect :: "'w sectors" and d :: blk_dev_t and w0 :: 'w
  assumes drv_ok: "drivers_ok drv sect d" and rel: "reliable drv d"

sublocale reliable_disk \<subseteq> block_reader "blk_rd drv" "blk_good sect d w0" "sect w0 d" "unat (dsectors d)"
proof
  show "length (sect w0 d k) = 512" for k using drv_ok by (simp add: drivers_ok_def)
next
  fix s :: "blk \<times> 'w" and lba :: u64 and n
  assume good: "blk_good sect d w0 s" and wrap: "unat lba + n < 2 ^ 64"
  obtain b w where s: "s = (b, w)" by fastforce
  have g: "cache_shape d b" "cache_true sect w d b" "blk_remap b = []" "sect w d = sect w0 d" using good s by (auto simp: blk_good_def)
  obtain r b' w' where out: "blk_read drv lba n b w = Some (r, b', w')" and sim: "simulates sect d (Rd lba n) b w (r, b', w')"
    using blk_read_simulates [OF drv_ok g(1) wrap] by (metis prod_cases3)
  have size: "unat (dsectors d) + 64 < 2 ^ 64" using drv_ok by (simp add: drivers_ok_def)
  obtain c where c: "blk_cur b = Some c" "blk_devs b ! c = d" using g(1) by (auto simp: cache_shape_def)
  show "\<exists>s'. blk_rd drv lba n s = Some (if unat lba + n \<le> unat (dsectors d) then Some (blocks (sect w0 d) (unat lba) n) else None, s') \<and>
      blk_good sect d w0 s'"
  proof (cases "unat lba + n \<le> unat (dsectors d)")
    case True
    have "r \<noteq> None" "blk_remap b' = []" using blk_read_reliable [OF rel c g(3) True size out] by auto
    with sim g(2) have "cache_shape d b'" "cache_true sect w' d b'" "disk_step (sect w d) (Rd lba n) r (sect w' d)"
      by (auto simp: simulates_def)
    with True out \<open>r \<noteq> None\<close> \<open>blk_remap b' = []\<close> g(4) show ?thesis by (auto simp: blk_rd_def blk_good_def s elim!: disk_read)
  next
    case False
    then have "lba + of_nat n > dsectors d" using in_range [OF wrap, of d] by blast
    then have "blk_read drv lba n b w = Some (None, b, w)" using c by (simp add: blk_read_def)
    with False good show ?thesis by (auto simp: blk_rd_def s)
  qed
qed

lemma ram_reliable: "reliable ram_drv (ram_disk u)"
  by (simp add: reliable_def blk_read_raw_def ram_drv_def ram_read_def ram_disk_def)

interpretation ram: reliable_disk ram_drv ram_sect "ram_disk u" w0 for u w0
  by unfold_locales (rule ram_ok, rule ram_reliable)

lemma blk_good_present: "blk_good sect d w0 s \<Longrightarrow> (\<lambda>(s, w). blk_present s) s"
  by (auto simp: blk_good_def cache_shape_def blk_present_def)

context reliable_disk
begin

lemma scan_bare_disk:
  assumes "cache_shape d s" "cache_true sect w d s" "blk_remap s = []" "sect w d = sect w0 d" "buffers_ok t" "sane_gpt (sect w0 d)"
  shows "\<exists>t' s' w'. part_scan (blk_rd drv) (\<lambda>(s, w). blk_present s) t (s, w) = Some (t', (s', w')) \<and>
    part_scan (plain_rd (sect w0 d) (unat (dsectors d))) (\<lambda>_. True) t () = Some (t', ()) \<and> table_ok t'"
proof -
  have "blk_good sect d w0 (s, w)" using assms by (simp add: blk_good_def)
  with part_scan_same [OF assms(5,6) blk_good_present] show ?thesis by fastforce
qed

end

text \<open>C40: on a disk that answers, the scan through the block layer and its cache ends without an access outside a
  buffer, whatever the sectors hold, and finds exactly the partitions that a scan of the bare disk finds.  The
  list has at most 64 entries, and every name at most 36 bytes and no zero.  Excepted are headers that
  place the entries at the very end of the 64-bit range.\<close>

theorem part_scan_bare_disk:
  assumes "drivers_ok drv sect d" and "reliable drv d" and "cache_shape d s" and "cache_true sect w d s" and "blk_remap s = []"
    and "buffers_ok t" and "sane_gpt (sect w d)"
  shows "\<exists>t' s' w'. part_scan (blk_rd drv) (\<lambda>(s, w). blk_present s) t (s, w) = Some (t', (s', w')) \<and>
    part_scan (plain_rd (sect w d) (unat (dsectors d))) (\<lambda>_. True) t () = Some (t', ()) \<and>
    length (part_table t') \<le> 64 \<and> (\<forall>p \<in> set (part_table t'). length (pname p) \<le> 36 \<and> 0 \<notin> set (pname p))"
proof -
  have "reliable_disk drv sect d" using assms(1,2) by unfold_locales
  from reliable_disk.scan_bare_disk [OF this assms(3-5) refl assms(6,7)] show ?thesis
    by (auto simp: table_ok_def entry_ok_def list_all_iff)
qed

theorem part_scan_bare_disk_witness:
  "\<exists>t' s' w'. part_scan (blk_rd ram_drv) (\<lambda>(s, w). blk_present s)
      \<lparr>part_table = [], part_scheme = 0, part_sector = replicate 512 0, part_entries = replicate 4096 0\<rparr>
      (ram_boot, two_disks) = Some (t', (s', w')) \<and> length (part_table t') \<le> 64"
proof -
  let ?t = "\<lparr>part_table = [], part_scheme = 0, part_sector = replicate 512 0, part_entries = replicate 4096 0\<rparr> :: part"
  have "take 8 (drop 72 (ram_sect two_disks (ram_disk 0) 1)) = replicate 8 3"
    by (simp add: ram_sect_def two_disks_def ram_disk_def)
  moreover have "replicate 8 3 = [3, 3, 3, 3, 3, 3, 3, 3 :: u8]" by code_simp
  moreover have "le_val [3, 3, 3, 3, 3, 3, 3, 3] + 512 < 2 ^ 64" by (simp add: le_val_def)
  ultimately have "sane_gpt (ram_sect two_disks (ram_disk 0))" by (simp only: sane_gpt_def)
  moreover have "blk_remap ram_boot = []"
    by (simp add: ram_boot_def blk_init_def blk_add_def blk_cache_init_def Let_def)
  moreover have "buffers_ok ?t" by (simp add: buffers_ok_def)
  ultimately show ?thesis
    using part_scan_bare_disk [OF ram_ok ram_reliable ram_boot_ok(1) ram_boot_ok(2), of ?t two_disks] by blast
qed

end
