(* ===== verification/Spec2Isabelle.thy ===== *)
theory Spec2Isabelle
  imports Pmm Scanner_Verdict Policy Sched_Switch Libc_Calendar Chip8 Ber_Read Chacha20 Part
begin

text \<open>
  Vextro 9, a verification library.

  \<^bold>\<open>The program.\<close>  Vextro 9 is an operating system for the PC written in C: a kernel whose services are
  header files included into one translation unit (\<open>src/*.h\<close>, with the scheduler, the security policy
  and the file system as objects of their own), a C library for user programs (\<open>libc/\<close>), and a desktop
  with its applications.  The boot code hands the firmware's memory map to the frame allocator; the
  scheduler creates threads and switches between them on the timer tick; disk drivers sit under a block
  layer with a cache, and the partition scan and the file systems read through it; programs are scanned
  against a signature table and an allowlist before they run; user programs reach all of this through
  the C library.

  \<^bold>\<open>Conventions.\<close>  File names are relative to the top of the source tree.  A function of the source is a
  definition of the same name, with a suffix where HOL already has the name.  Statics of a file are the
  fields of a record that operations take and return.  A loop whose body can leave it is a function of
  its own, named after the function it belongs to.  Fixed-width integers are words where wrap-around can
  matter; where a count provably stays small it is a natural number, and the theory says so.  An access
  outside an array is a value, \<^const>\<open>None\<close>, so that the absence of such accesses is a theorem.  A call that
  can fail returns an option.  Locks are left out: every operation modelled runs under one lock or with
  interrupts off, so it is one step.

  \<^bold>\<open>The theories.\<close>

  \<^item> \<open>Vx_Prelude\<close>: names of the machine integers, checked arrays, folds that stop at a fault, and generic
    lemmas on words, bits and counting.

  \<^item> \<open>Pmm\<close> models \<open>src/pmm.h\<close>.  The record \<open>pmm\<close> has the bitmap, the hint, the counters and the sharing
    counts; physical memory is part of it, since the bitmap itself is placed there and frames are
    zeroed.  It is shown which frames \<open>pmm_init\<close> makes free, that allocation takes a free frame and
    fails only when there is none, that the word-skipping search for a run is a first-fit search, that
    freeing undoes allocation and a second free does nothing, at which free a shared frame is released,
    and that the halving search for the largest run ends.  The locale \<open>frame_source\<close> is what a client
    of a frame allocator may rely on.

  \<^item> \<open>Kstring\<close> models the string helpers of \<open>include/kernel_shared.h\<close>, each shown equal to the operation
    on the string up to the terminator.

  \<^item> \<open>Scanner\<close>, \<open>Scanner_Correct\<close> and \<open>Scanner_Verdict\<close> model the signature scanner of
    \<open>src/security/anti_virus.c\<close>.  The state of the automaton after a text is the longest suffix of it in
    the trie; from this the scan with the automaton and the direct search give the same answer, and the
    answer is the first signature of the table that occurs.  The locale \<open>sig_matcher\<close> is the contract of
    a search, with both searches as interpretations, and the verdict of \<open>scan_buffer\<close> rests on it.

  \<^item> \<open>Policy\<close> models the allowlist and the policy file of the same source: saving and loading, and the
    allowlist as a list of names.

  \<^item> \<open>Sched\<close> models \<open>src/sched/scheduler.c\<close>: control blocks and address spaces are maps from addresses,
    the processor's registers are fields.  \<open>Sched_Pick\<close> shows what is picked and that a runnable
    thread which nothing outranks is dispatched within 64 ticks.  \<open>Sched_Inv\<close> has the step relation of
    all operations and the invariant of the reachable states.  \<open>Sched_Switch\<close> shows that a thread finds
    its context again.

  \<^item> \<open>Libc_String\<close> (\<open>libc/string.c\<close>), \<open>Libc_Stdlib\<close> (\<open>libc/stdlib2.c\<close>, and parts of \<open>libc/malloc.c\<close> and
    \<open>libc/posix.c\<close>), \<open>Libc_Stdio\<close> and \<open>Libc_Stdio_Text\<close> (\<open>vsnprintf\<close> of \<open>libc/stdio.c\<close>), \<open>Libc_Calendar\<close>
    (\<open>libc/calendar.c\<close>): overlapping moves, tokens and searches in strings; sorting and searching;
    number conversion with its clamping; formatted output against a text that knows no buffer; dates
    against a count of days.

  \<^item> \<open>Chip8\<close> models \<open>src/chip8.h\<close>: no program and no sequence of events makes the interpreter leave
    an array, and drawing a sprite is its own inverse.

  \<^item> \<open>Ber\<close> and \<open>Ber_Read\<close> model \<open>src/ber.h\<close>, the encoding that LDAP, Kerberos and SMB use: the writer
    produces the encoding of a tree of values or reports that it did not fit, and the reader reads it
    back.  A length near \<open>2 ^ 32\<close> defeats the reader's bounds check.

  \<^item> \<open>Sha256\<close> (\<open>src/sha256.h\<close>) and \<open>Chacha20\<close> (\<open>src/chacha20.h\<close>): hashing in pieces is hashing the whole,
    the block buffer is never overrun, and the password hash and HMAC are their definitions over the
    digest; the cipher adds a key stream that depends on the position alone.

  \<^item> \<open>Blk\<close> and \<open>Blk_Cache\<close> model \<open>src/blk.h\<close> with the drivers as parameters.  The specification is a plain
    disk, as a relation that allows any call to fail; the layer with its read-ahead cache is shown to
    simulate it, and what happens on a change of disk is shown too.

  \<^item> \<open>Part\<close> models \<open>src/part.h\<close> over a read operation.  The locale \<open>block_reader\<close> is what the scan needs of
    it; \<open>reliable_disk\<close> gives it for the block layer, so that the scan through the cache finds what a scan
    of the bare disk would.

  \<^bold>\<open>Termination and fuel.\<close>  The loops are structural recursions or have a measure.  The loops that need an
  argument are those of \<open>ac_build\<close> (its queue holds each node once, so the number of nodes is
  enough), of \<open>pmm_alloc_largest\<close>, which may run for ever when its floor is zero and is therefore an
  optional value, and of the blocking calls of the scheduler, which are split at the point where they
  give the processor away.

  \<^bold>\<open>Parameters.\<close>  The disk drivers (assumed to deliver the sectors they report as delivered), the answers
  of the kernel heap and the page tables to the scheduler, the file system under the policy file, and the
  arithmetic on doubles of \<open>%f\<close>.

  \<^bold>\<open>Not modelled.\<close>  Drivers, interrupt controllers, page tables, the start of further processors and the
  virtual machine monitors program hardware whose behaviour is in no source file.  The network stack,
  TLS and the ports are code of other projects with glue around it.  The desktop, its applications, the
  terminal and the graphics paint pixels, much of it in floating point, as do the mathematics of the C
  library and the language model.  The file systems on disk (FAT32, exFAT, NTFS) and the layer of names in
  front of them, the codecs, the remaining ciphers and the protocols over the network are not covered:
  the development stops at the block layer and the partition tables below them and at the encodings
  they share.  Concurrency between processors and between threads of a user program is outside the
  model, which has one processor and takes each operation as one step.
\<close>

end
